(* ===== verification/Prelude.thy ===== *)
theory Prelude
  imports Main "HOL-Library.Word"
begin

text \<open>
  Shared vocabulary of the development: the machine integers of the C++ sources, the
  outcomes of a call that can throw, fail an assertion or dereference a null pointer,
  and the generic facts on lists, flat buffers and chunked buffers that the component
  theories use.
\<close>

unbundle bit_operations_syntax

named_theorems fault_simps \<open>unfolding of the result combinators\<close>

section \<open>Machine integers\<close>

type_synonym byte = "8 word"
type_synonym u16 = "16 word"
type_synonym u32 = "32 word"
type_synonym u64 = "64 word"

text \<open>
  Unsigned 64-bit subtraction on natural numbers below \<open>2 ^ 64\<close>: a \<open>size_t\<close> difference
  wraps around when the subtrahend is the larger one.
\<close>

definition usub64 :: "nat \<Rightarrow> nat \<Rightarrow> nat" where
  "usub64 a b = (if b \<le> a then a - b else a + 2 ^ 64 - b)"

lemma usub64_le [simp]: "b \<le> a \<Longrightarrow> usub64 a b = a - b"
  by (simp add: usub64_def)

lemma usub64_wrap: "a < b \<Longrightarrow> usub64 a b = a + 2 ^ 64 - b"
  by (simp add: usub64_def)

text \<open>Rounding a quotient up, as \<open>ceil(1.0 * a / b)\<close> does.\<close>

definition ceil_div :: "nat \<Rightarrow> nat \<Rightarrow> nat" where
  "ceil_div a b = (a + b - 1) div b"

lemma ceil_div_covers: "0 < b \<Longrightarrow> a \<le> ceil_div a b * b"
proof -
  assume b: "0 < b"
  have "a + b - 1 = (a + b - 1) div b * b + (a + b - 1) mod b" by simp
  moreover have "(a + b - 1) mod b < b" using b by simp
  ultimately show ?thesis unfolding ceil_div_def using b by linarith
qed

lemma ceil_div_tight: "0 < b \<Longrightarrow> 0 < a \<Longrightarrow> ceil_div a b * b < a + b"
proof -
  assume b: "0 < b" and a: "0 < a"
  have "(a + b - 1) div b * b \<le> a + b - 1" by simp
  then show ?thesis unfolding ceil_div_def using a b by linarith
qed

lemma ceil_div_pos: "0 < b \<Longrightarrow> 0 < a \<Longrightarrow> 0 < ceil_div a b"
  using ceil_div_covers [of b a] by (cases "ceil_div a b") auto

section \<open>Outcomes of a call\<close>

text \<open>
  A call that can leave its normal path returns \<open>Inl\<close> with the reason: a C++ exception,
  a failed \<open>AZZATO_ASSERT\<close>, a null pointer or an index outside an array (both undefined
  behaviour), an integer division by zero, an overflow of a signed
  addition or negation, or a switch to a machine context whose stack is in use.
\<close>

datatype fault =
    OutOfRange
  | LogicError
  | InvalidArgument
  | AssertFailed
  | NullDeref
  | OutOfBounds
  | DivByZero
  | SignedOverflow
  | StaleContext

type_synonym 'a result = "fault + 'a"

definition bind_res :: "'a result \<Rightarrow> ('a \<Rightarrow> 'b result) \<Rightarrow> 'b result" where
  "bind_res m f = (case m of Inl e \<Rightarrow> Inl e | Inr x \<Rightarrow> f x)"

lemma bind_res_Inl [simp]: "bind_res (Inl e) f = Inl e"
  by (simp add: bind_res_def)

lemma bind_res_Inr [simp]: "bind_res (Inr x) f = f x"
  by (simp add: bind_res_def)

lemma bind_res_unit [simp]: "bind_res m Inr = m"
  by (cases m) simp_all

lemma bind_res_assoc: "bind_res (bind_res m f) g = bind_res m (\<lambda>x. bind_res (f x) g)"
  by (cases m) simp_all

lemma bind_res_eq_Inr [simp]:
  "bind_res m f = Inr y \<longleftrightarrow> (\<exists>x. m = Inr x \<and> f x = Inr y)"
  by (cases m) auto

lemma bind_res_eq_Inl:
  "bind_res m f = Inl e \<longleftrightarrow> m = Inl e \<or> (\<exists>x. m = Inr x \<and> f x = Inl e)"
  by (cases m) auto

definition assert_res :: "bool \<Rightarrow> fault \<Rightarrow> unit result" where
  "assert_res b e = (if b then Inr () else Inl e)"

lemma assert_res_True [simp]: "assert_res True e = Inr ()"
  by (simp add: assert_res_def)

lemma assert_res_False [simp]: "assert_res False e = Inl e"
  by (simp add: assert_res_def)

lemma assert_res_eq_Inr [simp]: "assert_res b e = Inr u \<longleftrightarrow> b"
  by (simp add: assert_res_def)

section \<open>Flat buffers\<close>

text \<open>\<open>memcpy(dst + off, src, len)\<close> on a buffer that holds the destination range.\<close>

definition overwrite :: "'a list \<Rightarrow> nat \<Rightarrow> 'a list \<Rightarrow> 'a list" where
  "overwrite xs off ys = take off xs @ ys @ drop (off + length ys) xs"

lemma length_overwrite [simp]:
  "off + length ys \<le> length xs \<Longrightarrow> length (overwrite xs off ys) = length xs"
  by (simp add: overwrite_def)

lemma overwrite_Nil [simp]: "overwrite xs off [] = xs"
  by (simp add: overwrite_def)

lemma take_overwrite [simp]: "off \<le> length xs \<Longrightarrow> take off (overwrite xs off ys) = take off xs"
  by (simp add: overwrite_def)

lemma drop_overwrite:
  "off \<le> length xs \<Longrightarrow> drop (off + length ys) (overwrite xs off ys) = drop (off + length ys) xs"
  by (simp add: overwrite_def)

lemma read_overwrite:
  "off \<le> length xs \<Longrightarrow> take (length ys) (drop off (overwrite xs off ys)) = ys"
  by (simp add: overwrite_def)

lemma overwrite_append_left:
  "length xs \<le> off \<Longrightarrow> overwrite (xs @ zs) off ys = xs @ overwrite zs (off - length xs) ys"
  by (simp add: overwrite_def)

lemma overwrite_append_right:
  "off + length ys \<le> length xs \<Longrightarrow> overwrite (xs @ zs) off ys = overwrite xs off ys @ zs"
  by (simp add: overwrite_def)

lemma overwrite_split:
  assumes "off \<le> length xs"
  shows "overwrite xs off (ys @ zs) = overwrite (overwrite xs off ys) (off + length ys) zs"
proof -
  have "take (off + length ys) (overwrite xs off ys) = take off xs @ ys"
    using assms by (simp add: overwrite_def)
  moreover have "drop (off + length ys + length zs) (overwrite xs off ys)
      = drop (off + length ys + length zs) xs"
  proof -
    have "drop (off + length ys + length zs) (overwrite xs off ys)
        = drop (length zs) (drop (off + length ys) (overwrite xs off ys))"
      by (simp add: add.commute)
    also have "\<dots> = drop (length zs) (drop (off + length ys) xs)"
      using assms by (simp add: drop_overwrite)
    finally show ?thesis by (simp add: add.commute)
  qed
  ultimately show ?thesis by (simp add: overwrite_def add.assoc)
qed

lemma overwrite_take:
  assumes "off \<le> n" "off + length ys \<le> length xs"
  shows "take (max n (off + length ys)) (overwrite xs off ys) = overwrite (take n xs) off ys"
proof (cases "ys = []")
  case False
  then have "0 < length ys" by simp
  then have "off < length xs" using assms by linarith
  then show ?thesis
    using assms by (auto simp: overwrite_def max_def min_def take_drop add.commute)
qed (use assms in \<open>simp add: max_def\<close>)

lemma length_overwrite_max:
  "off \<le> length xs \<Longrightarrow> length (overwrite xs off ys) = max (length xs) (off + length ys)"
  by (simp add: overwrite_def max_def)

section \<open>Chunked buffers\<close>

text \<open>A chain of chunks of one fixed size, read as the concatenation of its chunks.\<close>

definition chunked :: "nat \<Rightarrow> 'a list list \<Rightarrow> bool" where
  "chunked b xss \<longleftrightarrow> (\<forall>xs \<in> set xss. length xs = b)"

declare length_concat [simp del]

lemma chunked_Nil [simp]: "chunked b []"
  by (simp add: chunked_def)

lemma chunked_Cons [simp]: "chunked b (xs # xss) \<longleftrightarrow> length xs = b \<and> chunked b xss"
  by (auto simp: chunked_def)

lemma chunked_append [simp]: "chunked b (xss @ yss) \<longleftrightarrow> chunked b xss \<and> chunked b yss"
  by (auto simp: chunked_def)

lemma chunked_nth: "chunked b xss \<Longrightarrow> i < length xss \<Longrightarrow> length (xss ! i) = b"
  by (simp add: chunked_def)

lemma chunked_update [simp]:
  "chunked b xss \<Longrightarrow> length xs = b \<Longrightarrow> chunked b (xss[i := xs])"
  using set_update_subset_insert [of xss i xs] by (auto simp: chunked_def)

lemma chunked_replicate [simp]: "chunked b (replicate n (replicate b x))"
  by (simp add: chunked_def)

lemma length_concat_chunked [simp]: "chunked b xss \<Longrightarrow> length (concat xss) = b * length xss"
  by (induction xss) auto

lemma chunked_take [simp]: "chunked b xss \<Longrightarrow> chunked b (take i xss)"
  by (auto simp: chunked_def dest: in_set_takeD)

lemma length_concat_take:
  "chunked b xss \<Longrightarrow> i \<le> length xss \<Longrightarrow> length (concat (take i xss)) = b * i"
  using length_concat_chunked [OF chunked_take, of b xss i] by simp

lemma concat_split_chunk:
  assumes "i < length xss"
  shows "concat xss = concat (take i xss) @ xss ! i @ concat (drop (Suc i) xss)"
  by (metis assms concat.simps(2) concat_append id_take_nth_drop)

lemma drop_concat_chunk:
  assumes "chunked b xss" "i < length xss" "off \<le> b"
  shows "drop (b * i + off) (concat xss) = drop off (xss ! i) @ concat (drop (Suc i) xss)"
proof -
  have l: "length (concat (take i xss)) = b * i" using assms by (intro length_concat_take) simp_all
  show ?thesis
    by (subst concat_split_chunk [OF assms(2)])
      (use assms chunked_nth [OF assms(1,2)] in \<open>simp add: l\<close>)
qed

lemma concat_update_chunk:
  assumes "i < length xss"
  shows "concat (xss[i := ys]) = concat (take i xss) @ ys @ concat (drop (Suc i) xss)"
  using assms by (simp add: upd_conv_take_nth_drop)

lemma overwrite_chunk:
  assumes "chunked b xss" "i < length xss" "off + length ys \<le> b"
  shows "concat (xss[i := overwrite (xss ! i) off ys]) = overwrite (concat xss) (b * i + off) ys"
proof -
  have l: "length (concat (take i xss)) = b * i" using assms by (intro length_concat_take) simp_all
  have n: "length (xss ! i) = b" using chunked_nth [OF assms(1,2)] .
  show ?thesis
    unfolding concat_update_chunk [OF assms(2)]
    by (subst concat_split_chunk [OF assms(2)])
      (use assms in \<open>simp add: overwrite_append_left overwrite_append_right l n\<close>)
qed

lemma div_mod_chunk: "0 < b \<Longrightarrow> b * (p div b) + p mod b = (p::nat)"
  by simp

section \<open>Association lists with distinct keys\<close>

text \<open>The finite maps of the sources (\<open>std::unordered_map\<close> and the nodes of a \<open>std::list\<close>).\<close>

definition drop_key :: "'k \<Rightarrow> ('k \<times> 'v) list \<Rightarrow> ('k \<times> 'v) list" where
  "drop_key k xs = filter (\<lambda>p. fst p \<noteq> k) xs"

lemma drop_key_Nil [simp]: "drop_key k [] = []"
  by (simp add: drop_key_def)

lemma drop_key_Cons [simp]: "drop_key k (p # xs) = (if fst p = k then drop_key k xs else p # drop_key k xs)"
  by (simp add: drop_key_def)

lemma drop_key_append [simp]: "drop_key k (xs @ ys) = drop_key k xs @ drop_key k ys"
  by (simp add: drop_key_def)

lemma set_drop_key [simp]: "set (drop_key k xs) = {p \<in> set xs. fst p \<noteq> k}"
  by (auto simp: drop_key_def)

lemma map_of_drop_key [simp]: "map_of (drop_key k xs) = (map_of xs)(k := None)"
  by (induction xs) (auto simp: fun_eq_iff)

lemma fst_image_ne [simp]: "fst ` {p \<in> A. fst p \<noteq> k} = fst ` A - {k}"
  by auto

lemma fst_drop_key: "fst ` set (drop_key k xs) = fst ` set xs - {k}"
  by simp

lemma distinct_drop_key [simp]: "distinct (map fst xs) \<Longrightarrow> distinct (map fst (drop_key k xs))"
  by (simp add: drop_key_def distinct_map_filter)

lemma drop_key_absent [simp]: "k \<notin> fst ` set xs \<Longrightarrow> drop_key k xs = xs"
  unfolding drop_key_def by (rule filter_True) auto

lemma drop_key_None [simp]: "map_of xs k = None \<Longrightarrow> drop_key k xs = xs"
  by (simp add: map_of_eq_None_iff)

lemma length_drop_key_le: "length (drop_key k xs) \<le> length xs"
  by (simp add: drop_key_def)

lemma length_drop_key:
  "distinct (map fst xs) \<Longrightarrow> k \<in> fst ` set xs \<Longrightarrow> length (drop_key k xs) = length xs - 1"
proof (induction xs)
  case (Cons p xs)
  show ?case
  proof (cases "fst p = k")
    case True
    then show ?thesis using Cons.prems(1) by simp
  next
    case False
    then have "k \<in> fst ` set xs" using Cons.prems(2) by auto
    then have "length (drop_key k xs) = length xs - 1" "xs \<noteq> []" using Cons by auto
    then show ?thesis using False by (cases xs) simp_all
  qed
qed simp

lemma map_of_in: "distinct (map fst xs) \<Longrightarrow> (k, v) \<in> set xs \<Longrightarrow> map_of xs k = Some v"
  by simp

lemma drop_key_comm: "drop_key k (drop_key l xs) = drop_key l (drop_key k xs)"
  by (auto simp: drop_key_def intro: filter_cong)

lemma drop_key_idem [simp]: "drop_key k (drop_key k xs) = drop_key k xs"
  by (simp add: drop_key_def)

section \<open>Disjoint bits\<close>

lemma or_add: "b < 2 ^ n \<Longrightarrow> push_bit n a OR b = a * 2 ^ n + (b :: nat)"
proof -
  assume b: "b < 2 ^ n"
  have "push_bit n a AND b = 0"
  proof (rule bit_eqI)
    fix m
    have "take_bit n b = b" using b by (simp add: take_bit_nat_eq_self)
    then have "bit b m \<Longrightarrow> m < n" by (metis bit_take_bit_iff)
    then show "bit (push_bit n a AND b) m = bit 0 m" by (auto simp: bit_simps)
  qed
  then show ?thesis by (simp flip: disjunctive_add_eq_or add: push_bit_eq_mult)
qed

end
