(* ===== verification/StringUtil.thy ===== *)
theory StringUtil
  imports Prelude
begin

text \<open>
  String helpers of \<open>src/utils/util.cpp\<close> and \<open>include/utils/util.h\<close>: URL encoding and decoding,
  trimming, case conversion in the C locale, joining, and the binary search on arrays. Strings
  are byte lists and characters are given by their code.
\<close>

section \<open>URL encoding\<close>

definition uriChars :: "byte \<Rightarrow> bool" where
  "uriChars c \<longleftrightarrow> c = 45 \<or> c = 46 \<or> (48 \<le> c \<and> c \<le> 57) \<or> c = 61 \<or> (65 \<le> c \<and> c \<le> 90) \<or> c = 95 \<or>
     (97 \<le> c \<and> c \<le> 122) \<or> c = 126"

definition isxdigit :: "byte \<Rightarrow> bool" where
  "isxdigit c \<longleftrightarrow> (48 \<le> c \<and> c \<le> 57) \<or> (65 \<le> c \<and> c \<le> 70) \<or> (97 \<le> c \<and> c \<le> 102)"

definition xdigitChars :: "byte \<Rightarrow> byte" where
  "xdigitChars c =
    (if 48 \<le> c \<and> c \<le> 57 then c - 48
     else if 65 \<le> c \<and> c \<le> 70 then c - 55
     else if 97 \<le> c \<and> c \<le> 102 then c - 87
     else 0)"

definition hexdigits :: "byte list" where
  "hexdigits = map of_nat ([48..<58] @ [65..<71])"

definition url_escape :: "bool \<Rightarrow> byte \<Rightarrow> byte list" where
  "url_escape space_as_plus c =
    (if c = 32 \<and> space_as_plus then [43]
     else [37, hexdigits ! unat (drop_bit 4 c), hexdigits ! unat (c AND 0xf)])"

text \<open>
  The loops of both directions: \<open>pre\<close> is the part of the string before the current character
  and \<open>ss\<close> the result once it differs from the string.
\<close>

fun urlEncode_loop :: "bool \<Rightarrow> byte list \<Rightarrow> byte list option \<Rightarrow> byte list \<Rightarrow> byte list" where
  "urlEncode_loop sap pre ss [] = (case ss of None \<Rightarrow> pre | Some r \<Rightarrow> r)"
| "urlEncode_loop sap pre ss (c # cs) =
    (if \<not> uriChars c then
       urlEncode_loop sap (pre @ [c]) (Some ((case ss of None \<Rightarrow> pre | Some r \<Rightarrow> r) @ url_escape sap c)) cs
     else urlEncode_loop sap (pre @ [c]) (map_option (\<lambda>r. r @ [c]) ss) cs)"

definition urlEncode :: "byte list \<Rightarrow> bool \<Rightarrow> byte list" where
  "urlEncode str space_as_plus = urlEncode_loop space_as_plus [] None str"

fun urlDecode_loop :: "bool \<Rightarrow> byte list \<Rightarrow> byte list option \<Rightarrow> byte list \<Rightarrow> byte list" where
  "urlDecode_loop sap pre ss [] = (case ss of None \<Rightarrow> pre | Some r \<Rightarrow> r)"
| "urlDecode_loop sap pre ss (c # cs) =
    (if c = 43 \<and> sap then
       urlDecode_loop sap (pre @ [c]) (Some ((case ss of None \<Rightarrow> pre | Some r \<Rightarrow> r) @ [32])) cs
     else case cs of
       a # b # rest \<Rightarrow>
         if c = 37 \<and> isxdigit a \<and> isxdigit b then
           urlDecode_loop sap (pre @ [c, a, b])
             (Some ((case ss of None \<Rightarrow> pre | Some r \<Rightarrow> r) @ [push_bit 4 (xdigitChars a) OR xdigitChars b])) rest
         else urlDecode_loop sap (pre @ [c]) (map_option (\<lambda>r. r @ [c]) ss) cs
     | _ \<Rightarrow> urlDecode_loop sap (pre @ [c]) (map_option (\<lambda>r. r @ [c]) ss) cs)"

definition urlDecode :: "byte list \<Rightarrow> bool \<Rightarrow> byte list" where
  "urlDecode str space_as_plus = urlDecode_loop space_as_plus [] None str"

section \<open>Trimming, case and joining\<close>

text \<open>\<open>find_first_not_of\<close> and \<open>find_last_not_of\<close>; None is \<open>npos\<close>.\<close>

definition find_first_not_of :: "byte list \<Rightarrow> byte list \<Rightarrow> nat option" where
  "find_first_not_of str delimit =
    (let n = length (takeWhile (\<lambda>c. c \<in> set delimit) str) in if n = length str then None else Some n)"

definition find_last_not_of :: "byte list \<Rightarrow> byte list \<Rightarrow> nat option" where
  "find_last_not_of str delimit =
    (let n = length (takeWhile (\<lambda>c. c \<in> set delimit) (rev str)) in
     if n = length str then None else Some (length str - n - 1))"

definition trim :: "byte list \<Rightarrow> byte list \<Rightarrow> byte list" where
  "trim str delimit =
    (case find_first_not_of str delimit of
       None \<Rightarrow> []
     | Some b \<Rightarrow>
         (case find_last_not_of str delimit of
            None \<Rightarrow> drop b str
          | Some e \<Rightarrow> take (usub64 e b + 1) (drop b str)))"

definition trimLeft :: "byte list \<Rightarrow> byte list \<Rightarrow> byte list" where
  "trimLeft str delimit =
    (case find_first_not_of str delimit of None \<Rightarrow> [] | Some b \<Rightarrow> drop b str)"

definition trimRight :: "byte list \<Rightarrow> byte list \<Rightarrow> byte list" where
  "trimRight str delimit =
    (case find_last_not_of str delimit of None \<Rightarrow> [] | Some e \<Rightarrow> take e str)"

definition toUpper :: "byte list \<Rightarrow> byte list" where
  "toUpper name = map (\<lambda>c. if 97 \<le> c \<and> c \<le> 122 then c - 32 else c) name"

definition toLower :: "byte list \<Rightarrow> byte list" where
  "toLower name = map (\<lambda>c. if 65 \<le> c \<and> c \<le> 90 then c + 32 else c) name"

fun str_join :: "byte list list \<Rightarrow> byte list \<Rightarrow> byte list" where
  "str_join [] tag = []"
| "str_join [x] tag = x"
| "str_join (x # y # xs) tag = x @ tag @ str_join (y # xs) tag"

text \<open>\<open>TypeUtil::toChar\<close> of a string: its first character, as a signed byte.\<close>

definition toChar :: "byte list \<Rightarrow> int" where
  "toChar str = (if str = [] then 0 else sint (hd str))"

section \<open>Binary search\<close>

text \<open>
  The indices are \<open>int\<close>s; the sum of two indices of an array of fewer than \<open>2 ^ 30\<close> elements
  does not overflow. A division of non-negative numbers truncates.
\<close>

function binarySearch_loop :: "('a::linorder) list \<Rightarrow> 'a \<Rightarrow> int \<Rightarrow> int \<Rightarrow> int result" where
  "binarySearch_loop arr v bgn fin =
    (if fin < bgn then Inr (- bgn - 1)
     else let m = (bgn + fin) div 2 in
       if m < 0 \<or> int (length arr) \<le> m then Inl OutOfBounds
       else if v < arr ! nat m then binarySearch_loop arr v bgn (m - 1)
       else if arr ! nat m < v then binarySearch_loop arr v (m + 1) fin
       else Inr m)"
  by pat_completeness auto
termination
  by (relation "measure (\<lambda>(arr, v, b, e). nat (e - b + 1))") auto

definition binarySearch :: "('a::linorder) list \<Rightarrow> 'a \<Rightarrow> int result" where
  "binarySearch arr v = binarySearch_loop arr v 0 (int (length arr) - 1)"

declare binarySearch_loop.simps [simp del]

section \<open>Decoding what was encoded\<close>

definition url_char :: "bool \<Rightarrow> byte \<Rightarrow> byte list" where
  "url_char sap c = (if uriChars c then [c] else url_escape sap c)"

lemma urlEncode_loop_spec:
  "urlEncode_loop sap pre ss cs
     = (case ss of None \<Rightarrow> if list_all uriChars cs then pre @ cs else pre @ concat (map (url_char sap) cs)
        | Some r \<Rightarrow> r @ concat (map (url_char sap) cs))"
proof (induction sap pre ss cs rule: urlEncode_loop.induct)
  case (2 sap pre ss c cs)
  have all: "list_all uriChars cs \<Longrightarrow> concat (map (url_char sap) cs) = cs"
    by (induction cs) (simp_all add: url_char_def)
  show ?case
    using 2 all by (cases ss) (auto simp: url_char_def)
qed (auto split: option.split)

lemma urlEncode_spec: "urlEncode str sap = concat (map (url_char sap) str)"
proof -
  have "list_all uriChars str \<Longrightarrow> concat (map (url_char sap) str) = str"
    by (induction str) (simp_all add: url_char_def)
  then show ?thesis by (auto simp: urlEncode_def urlEncode_loop_spec)
qed

fun url_decode :: "bool \<Rightarrow> byte list \<Rightarrow> byte list" where
  "url_decode sap [] = []"
| "url_decode sap (c # cs) =
    (if c = 43 \<and> sap then 32 # url_decode sap cs
     else case cs of
       a # b # rest \<Rightarrow>
         if c = 37 \<and> isxdigit a \<and> isxdigit b
         then (push_bit 4 (xdigitChars a) OR xdigitChars b) # url_decode sap rest
         else c # url_decode sap cs
     | _ \<Rightarrow> c # url_decode sap cs)"

lemma urlDecode_loop_Some: "urlDecode_loop sap pre (Some r) cs = r @ url_decode sap cs"
proof (induction sap cs arbitrary: pre r rule: url_decode.induct)
  case (2 sap c cs)
  show ?case
  proof (cases "c = 43 \<and> sap")
    case True
    then show ?thesis using "2.IH"(1) by simp
  next
    case False
    show ?thesis
    proof (cases cs)
      case Nil
      then show ?thesis using False by auto
    next
      case (Cons a xs)
      then show ?thesis using False "2.IH" by (cases xs) auto
    qed
  qed
qed simp

lemma urlDecode_loop_None: "urlDecode_loop sap pre None cs = pre @ url_decode sap cs"
proof (induction sap cs arbitrary: pre rule: url_decode.induct)
  case (2 sap c cs)
  show ?case
  proof (cases "c = 43 \<and> sap")
    case True
    then show ?thesis by (simp add: urlDecode_loop_Some)
  next
    case False
    show ?thesis
    proof (cases cs)
      case Nil
      then show ?thesis using False by auto
    next
      case (Cons a xs)
      then show ?thesis using False "2.IH" by (cases xs) (auto simp: urlDecode_loop_Some)
    qed
  qed
qed simp

lemma hexdigit_table:
  assumes "n < 16"
  shows "isxdigit (hexdigits ! n) \<and> uriChars (hexdigits ! n) \<and> xdigitChars (hexdigits ! n) = of_nat n"
proof -
  have "list_all (\<lambda>n. isxdigit (hexdigits ! n) \<and> uriChars (hexdigits ! n) \<and>
      xdigitChars (hexdigits ! n) = of_nat n) [0..<16]"
    by code_simp
  then show ?thesis using assms by (simp add: list_all_iff)
qed

lemma nibble_bounds: "unat (drop_bit 4 (c :: byte)) < 16" "unat (c AND 0xf) < 16"
proof -
  have m: "(0xf :: byte) = mask 4" by (simp add: mask_eq_exp_minus_1)
  show "unat (c AND 0xf) < 16"
    unfolding m take_bit_eq_mask [symmetric] unsigned_take_bit_eq
    using take_bit_nat_less_exp [of 4 "unat c"] by simp
  have c: "unat c < 256" using unsigned_less [of c] by simp
  moreover have "unat (drop_bit 4 c) = unat c div 2 ^ 4"
    unfolding unsigned_drop_bit_eq using c by (simp add: take_bit_eq_mod drop_bit_eq_div)
  ultimately show "unat (drop_bit 4 c) < 16" by simp
qed

lemma escape_table:
  fixes c :: byte
  shows "isxdigit (hexdigits ! unat (drop_bit 4 c)) \<and> isxdigit (hexdigits ! unat (c AND 0xf)) \<and>
    push_bit 4 (xdigitChars (hexdigits ! unat (drop_bit 4 c))) OR xdigitChars (hexdigits ! unat (c AND 0xf)) = c"
proof -
  have m: "(0xf :: byte) = mask 4" by (simp add: mask_eq_exp_minus_1)
  have "push_bit 4 (drop_bit 4 c) OR (c AND 0xf) = c"
    unfolding m by (rule bit_word_eqI) (auto simp: bit_simps)
  then show ?thesis
    using hexdigit_table [OF nibble_bounds(1) [of c]] hexdigit_table [OF nibble_bounds(2) [of c]] by simp
qed

lemma escape_uri:
  "uriChars (hexdigits ! unat (drop_bit 4 (c :: byte)))" "uriChars (hexdigits ! unat (c AND 0xf))"
  using hexdigit_table [OF nibble_bounds(1) [of c]] hexdigit_table [OF nibble_bounds(2) [of c]] by simp_all

lemma uriChars_plain: "uriChars c \<Longrightarrow> c \<noteq> 37 \<and> c \<noteq> 43"
  by (auto simp: uriChars_def)

lemma url_decode_char: "url_decode sap (url_char sap c @ cs) = c # url_decode sap cs"
proof (cases "uriChars c")
  case True
  then show ?thesis using uriChars_plain [OF True] by (auto simp: url_char_def split: list.split)
next
  case False
  then show ?thesis using escape_table [of c] by (auto simp: url_char_def url_escape_def)
qed

section \<open>Searching\<close>

lemma binarySearch_loop_correct:
  assumes "sorted arr" "0 \<le> b" "b \<le> e + 1" "e < int (length arr)"
    "\<forall>i < nat b. arr ! i < v" "\<forall>i. e < int i \<longrightarrow> i < length arr \<longrightarrow> v < arr ! i"
  shows "case binarySearch_loop arr v b e of
           Inl f \<Rightarrow> False
         | Inr r \<Rightarrow> (if 0 \<le> r then nat r < length arr \<and> arr ! nat r = v
             else let p = nat (- r - 1) in p \<le> length arr \<and>
               (\<forall>i < p. arr ! i < v) \<and> (\<forall>i. p \<le> i \<longrightarrow> i < length arr \<longrightarrow> v < arr ! i))"
  using assms
proof (induction arr v b e rule: binarySearch_loop.induct)
  case (1 arr v b e)
  note p = "1.prems"
  show ?case
  proof (cases "e < b")
    case True
    then have "b = e + 1" using p(3) by simp
    then show ?thesis using True p by (auto simp: binarySearch_loop.simps [of arr v b e] Let_def)
  next
    case False
    define m where "m = (b + e) div 2"
    have m: "b \<le> m" "m \<le> e" using False by (auto simp: m_def)
    have ok: "\<not> (m < 0 \<or> int (length arr) \<le> m)" using m p by auto
    have lt: "nat m < length arr" using m p by auto
    have eq: "binarySearch_loop arr v b e =
        (if v < arr ! nat m then binarySearch_loop arr v b (m - 1)
         else if arr ! nat m < v then binarySearch_loop arr v (m + 1) e else Inr m)"
      using False ok by (simp add: binarySearch_loop.simps [of arr v b e] m_def Let_def)
    consider "v < arr ! nat m" | "arr ! nat m < v" | "arr ! nat m = v" by fastforce
    then show ?thesis
    proof cases
      case 1
      have up: "\<forall>i. m - 1 < int i \<longrightarrow> i < length arr \<longrightarrow> v < arr ! i"
      proof (intro allI impI)
        fix i assume i: "m - 1 < int i" "i < length arr"
        then have "arr ! nat m \<le> arr ! i" using p(1) by (intro sorted_nth_mono) auto
        then show "v < arr ! i" using 1 by simp
      qed
      show ?thesis
        unfolding eq using 1 "1.IH"(1) [OF False m_def ok 1 p(1,2) _ _ p(5) up] m p by simp
    next
      case 2
      have lo: "\<forall>i < nat (m + 1). arr ! i < v"
      proof (intro allI impI)
        fix i assume i: "i < nat (m + 1)"
        then have "arr ! i \<le> arr ! nat m" using p(1) lt m p(2) by (intro sorted_nth_mono) auto
        then show "arr ! i < v" using 2 by simp
      qed
      have nl: "\<not> v < arr ! nat m" using 2 by simp
      show ?thesis
        unfolding eq using 2 nl "1.IH"(2) [OF False m_def ok nl 2 p(1) _ _ p(4) lo p(6)] m p by simp
    next
      case 3
      then show ?thesis unfolding eq using lt m p by simp
    qed
  qed
qed

lemma urlDecode_urlEncode: "urlDecode (urlEncode str sap) sap = str"
proof -
  have "url_decode sap (concat (map (url_char sap) str)) = str"
    by (induction str) (simp_all add: url_decode_char)
  then show ?thesis by (simp add: urlDecode_def urlDecode_loop_None urlEncode_spec)
qed

lemma urlEncode_chars: "list_all (\<lambda>c. uriChars c \<or> c = 37 \<or> (sap \<and> c = 43)) (urlEncode str sap)"
proof -
  have "list_all (\<lambda>c. uriChars c \<or> c = 37 \<or> (sap \<and> c = 43)) (concat (map (url_char sap) str))"
    by (induction str) (simp_all add: url_char_def url_escape_def escape_uri)
  then show ?thesis by (simp add: urlEncode_spec)
qed

section \<open>Properties\<close>

text \<open>
  The binary search on a sorted array never reads outside the array. A result that is not
  negative is the index of an element equal to the value; a negative result \<open>r\<close> means that the
  value does not occur and that \<open>- r - 1\<close> is the place where it would be inserted.
\<close>

theorem binarySearch_correct:
  assumes "sorted arr"
  shows "case binarySearch arr v of
           Inl f \<Rightarrow> False
         | Inr r \<Rightarrow> (if 0 \<le> r then nat r < length arr \<and> arr ! nat r = v
             else let p = nat (- r - 1) in p \<le> length arr \<and>
               (\<forall>i < p. arr ! i < v) \<and> (\<forall>i. p \<le> i \<longrightarrow> i < length arr \<longrightarrow> v < arr ! i))"
  unfolding binarySearch_def using assms by (intro binarySearch_loop_correct) auto

theorem binarySearch_correct_witness:
  "sorted [1, 3, 5 :: nat] \<and> binarySearch [1, 3, 5 :: nat] 4 = Inr (-3) \<and> [1, 3, 5 :: nat] ! 1 < 4 \<and> 4 < [1, 3, 5 :: nat] ! 2"
proof -
  have b: "binarySearch [1, 3, 5 :: nat] 4 = Inr (-3)"
    by code_simp
  show ?thesis using binarySearch_correct [of "[1, 3, 5 :: nat]" 4] b by simp
qed

text \<open>Trimming on the right drops one character too many.\<close>

lemma trimRight_drops: "trimRight [97, 98, 32] [32] = [97]"
  by (simp add: trimRight_def find_last_not_of_def Let_def)

lemma trim_no_delim:
  assumes "trim str delimit = out" "out \<noteq> []"
  shows "hd out \<notin> set delimit"
proof -
  let ?t = "takeWhile (\<lambda>c. c \<in> set delimit) str"
  obtain n where "find_first_not_of str delimit = Some n"
    using assms by (auto simp: trim_def split: option.splits)
  then have n: "n = length ?t" "n < length str"
    using length_takeWhile_le [of "\<lambda>c. c \<in> set delimit" str]
    by (auto simp: find_first_not_of_def Let_def split: if_splits)
  have "str ! n \<notin> set delimit" using nth_length_takeWhile [of "\<lambda>c. c \<in> set delimit" str] n by simp
  moreover have "hd out = str ! n"
    using assms n \<open>find_first_not_of str delimit = Some n\<close>
    by (auto simp: trim_def hd_drop_conv_nth split: option.splits)
  ultimately show ?thesis by simp
qed

end
