(* ===== verification/Http.thy ===== *)
theory Http
  imports StringUtil "HOL-Library.List_Lexorder"
begin

text \<open>
  HTTP messages (\<open>src/http/http.cpp\<close>, \<open>include/http/http.h\<close>): the tables of methods and status
  codes, maps with case-insensitive keys, requests with their lazily parsed parameters and
  cookies, responses, and the text form of both. Strings are byte lists. The conversions of
  \<open>boost::lexical_cast\<close> and of \<open>strftime\<close> are arguments.
\<close>

section \<open>Text\<close>

definition text_of :: "string \<Rightarrow> byte list" where
  "text_of s = map of_char s"

function decimal :: "nat \<Rightarrow> byte list" where
  "decimal n = (if n < 10 then [of_nat (48 + n)] else decimal (n div 10) @ [of_nat (48 + n mod 10)])"
  by pat_completeness auto
termination
  by (relation "measure id") auto

declare decimal.simps [simp del]

definition crlf :: "byte list" where
  "crlf = [13, 10]"

text \<open>What \<open>c_str\<close> shows of a string.\<close>

definition c_str :: "byte list \<Rightarrow> byte list" where
  "c_str s = takeWhile (\<lambda>c. c \<noteq> 0) s"

text \<open>\<open>str.find(c, pos)\<close>; None is \<open>npos\<close>.\<close>

definition find_from :: "byte \<Rightarrow> byte list \<Rightarrow> nat \<Rightarrow> nat option" where
  "find_from c s pos =
    (let k = pos + length (takeWhile (\<lambda>x. x \<noteq> c) (drop pos s)) in if k < length s then Some k else None)"

definition substr :: "byte list \<Rightarrow> nat \<Rightarrow> nat \<Rightarrow> byte list" where
  "substr s p n = take n (drop p s)"

section \<open>Methods and status codes\<close>

datatype HttpMethod =
    M_Delete | M_Get | M_Head | M_Post | M_Put | M_Connect | M_Options | M_Trace | M_Copy | M_Lock
  | M_Mkcol | M_Move | M_Propfind | M_Proppatch | M_Search | M_Unlock | M_Bind | M_Rebind | M_Unbind
  | M_Acl | M_Report | M_Mkactivity | M_Checkout | M_Merge | M_Msearch | M_Notify | M_Subscribe
  | M_Unsubscribe | M_Patch | M_Purge | M_MkcalendAr | M_Link | M_Unlink | M_Source | InvalidMethod

definition http_method_map :: "(HttpMethod \<times> byte list) list" where
  "http_method_map = map (apsnd text_of)
    [(M_Delete, ''DELETE''), (M_Get, ''GET''), (M_Head, ''HEAD''), (M_Post, ''POST''), (M_Put, ''PUT''),
     (M_Connect, ''CONNECT''), (M_Options, ''OPTIONS''), (M_Trace, ''TRACE''), (M_Copy, ''COPY''),
     (M_Lock, ''LOCK''), (M_Mkcol, ''MKCOL''), (M_Move, ''MOVE''), (M_Propfind, ''PROPFIND''),
     (M_Proppatch, ''PROPPATCH''), (M_Search, ''SEARCH''), (M_Unlock, ''UNLOCK''), (M_Bind, ''BIND''),
     (M_Rebind, ''REBIND''), (M_Unbind, ''UNBIND''), (M_Acl, ''ACL''), (M_Report, ''REPORT''),
     (M_Mkactivity, ''MKACTIVITY''), (M_Checkout, ''CHECKOUT''), (M_Merge, ''MERGE''),
     (M_Msearch, ''M - SEARCH''), (M_Notify, ''NOTIFY''), (M_Subscribe, ''SUBSCRIBE''),
     (M_Unsubscribe, ''UNSUBSCRIBE''), (M_Patch, ''PATCH''), (M_Purge, ''PURGE''),
     (M_MkcalendAr, ''MKCALENDAR''), (M_Link, ''LINK''), (M_Unlink, ''UNLINK''), (M_Source, ''SOURCE'')]"

text \<open>The chain of comparisons returns the first method that matches.\<close>

definition first_method :: "(byte list \<Rightarrow> bool) \<Rightarrow> HttpMethod" where
  "first_method P = (case find (\<lambda>(m, s). P s) http_method_map of None \<Rightarrow> InvalidMethod | Some (m, s) \<Rightarrow> m)"

definition stringToHttpMethod :: "byte list \<Rightarrow> HttpMethod" where
  "stringToHttpMethod m = first_method (\<lambda>s. s = c_str m)"

definition charsToHttpMethod :: "byte list \<Rightarrow> HttpMethod" where
  "charsToHttpMethod m = first_method (\<lambda>s. take (length s) (c_str m) = s)"

definition httpMethodToString :: "HttpMethod \<Rightarrow> byte list" where
  "httpMethodToString m = (case map_of http_method_map m of None \<Rightarrow> text_of ''<unknown>'' | Some s \<Rightarrow> s)"

definition http_status_map :: "(nat \<times> string) list" where
  "http_status_map =
    [(100, ''Continue''), (101, ''Switching Protocols''), (102, ''Processing''), (200, ''OK''),
     (201, ''Created''), (202, ''Accepted''), (203, ''Non - Authoritative Information''),
     (204, ''No Content''), (205, ''Reset Content''), (206, ''Partial Content''),
     (207, ''Multi - Status''), (208, ''Already Reported''), (226, ''IM Used''),
     (300, ''Multiple Choices''), (301, ''Moved Permanently''), (302, ''Found''), (303, ''See Other''),
     (304, ''Not Modified''), (305, ''Use Proxy''), (307, ''Temporary Redirect''),
     (308, ''Permanent Redirect''), (400, ''Bad Request''), (401, ''Unauthorized''),
     (402, ''Payment Required''), (403, ''Forbidden''), (404, ''Not Found''),
     (405, ''Method Not Allowed''), (406, ''Not Acceptable''), (407, ''Proxy Authentication Required''),
     (408, ''Request Timeout''), (409, ''Conflict''), (410, ''Gone''), (411, ''Length Required''),
     (412, ''Precondition Failed''), (413, ''Payload Too Large''), (414, ''URI Too Long''),
     (415, ''Unsupported Media Type''), (416, ''Range Not Satisfiable''), (417, ''Expectation Failed''),
     (421, ''Misdirected Request''), (422, ''Unprocessable Entity''), (423, ''Locked''),
     (424, ''Failed Dependency''), (426, ''Upgrade Required''), (428, ''Precondition Required''),
     (429, ''Too Many Requests''), (431, ''Request Header Fields Too Large''),
     (451, ''Unavailable For Legal Reasons''), (500, ''Internal Server Error''),
     (501, ''Not Implemented''), (502, ''Bad Gateway''), (503, ''Service Unavailable''),
     (504, ''Gateway Timeout''), (505, ''HTTP Version Not Supported''),
     (506, ''Variant Also Negotiates''), (507, ''Insufficient Storage''), (508, ''Loop Detected''),
     (510, ''Not Extended''), (511, ''Network Authentication Required'')]"

definition httpStatusToString :: "nat \<Rightarrow> byte list" where
  "httpStatusToString s =
    text_of (case map_of http_status_map s of None \<Rightarrow> ''<unknown>'' | Some msg \<Rightarrow> msg)"

section \<open>Maps with case-insensitive keys\<close>

definition ci_key :: "byte list \<Rightarrow> byte list" where
  "ci_key s = toLower (c_str s)"

definition CaseInsensitiveLess :: "byte list \<Rightarrow> byte list \<Rightarrow> bool" where
  "CaseInsensitiveLess lhs rhs \<longleftrightarrow> ci_key lhs < ci_key rhs"

type_synonym cimap = "(byte list \<times> byte list) list"

text \<open>\<open>m[key] = val\<close>, \<open>insert\<close>, \<open>find\<close> and \<open>erase\<close> of \<open>std::map\<close>.\<close>

fun cm_set :: "byte list \<Rightarrow> byte list \<Rightarrow> cimap \<Rightarrow> cimap" where
  "cm_set k v [] = [(k, v)]"
| "cm_set k v ((a, b) # m) =
    (if CaseInsensitiveLess k a then (k, v) # (a, b) # m
     else if CaseInsensitiveLess a k then (a, b) # cm_set k v m
     else (a, v) # m)"

fun cm_insert :: "byte list \<Rightarrow> byte list \<Rightarrow> cimap \<Rightarrow> cimap" where
  "cm_insert k v [] = [(k, v)]"
| "cm_insert k v ((a, b) # m) =
    (if CaseInsensitiveLess k a then (k, v) # (a, b) # m
     else if CaseInsensitiveLess a k then (a, b) # cm_insert k v m
     else (a, b) # m)"

definition cm_find :: "cimap \<Rightarrow> byte list \<Rightarrow> byte list option" where
  "cm_find m k = map_option snd (find (\<lambda>(a, b). \<not> CaseInsensitiveLess a k \<and> \<not> CaseInsensitiveLess k a) m)"

definition cm_erase :: "byte list \<Rightarrow> cimap \<Rightarrow> cimap" where
  "cm_erase k m = filter (\<lambda>(a, b). CaseInsensitiveLess a k \<or> CaseInsensitiveLess k a) m"

definition cm_get :: "cimap \<Rightarrow> byte list \<Rightarrow> byte list \<Rightarrow> byte list" where
  "cm_get m key dflt = (case cm_find m key of None \<Rightarrow> dflt | Some v \<Rightarrow> v)"

text \<open>The result of \<open>lexical_cast\<close> is an option, None for the exception.\<close>

definition checkGetAs :: "(byte list \<Rightarrow> 'a option) \<Rightarrow> cimap \<Rightarrow> byte list \<Rightarrow> 'a \<Rightarrow> bool \<times> 'a" where
  "checkGetAs lexical_cast m key dflt =
    (case cm_find m key of
       None \<Rightarrow> (False, dflt)
     | Some v \<Rightarrow> (case lexical_cast v of Some x \<Rightarrow> (True, x) | None \<Rightarrow> (False, dflt)))"

definition getAs :: "(byte list \<Rightarrow> 'a option) \<Rightarrow> cimap \<Rightarrow> byte list \<Rightarrow> 'a \<Rightarrow> 'a" where
  "getAs lexical_cast m key dflt =
    (case cm_find m key of
       None \<Rightarrow> dflt
     | Some v \<Rightarrow> (case lexical_cast v of Some x \<Rightarrow> x | None \<Rightarrow> dflt))"

section \<open>Requests\<close>

record http_request =
  rq_method :: HttpMethod
  rq_version :: byte
  rq_close :: bool
  rq_websocket :: bool
  rq_parserParamFlag :: byte
  rq_path :: "byte list"
  rq_query :: "byte list"
  rq_fragment :: "byte list"
  rq_body :: "byte list"
  rq_headers :: cimap
  rq_params :: cimap
  rq_cookies :: cimap

definition new_HttpRequest :: "byte \<Rightarrow> bool \<Rightarrow> http_request" where
  "new_HttpRequest version close =
    \<lparr> rq_method = M_Get, rq_version = version, rq_close = close, rq_websocket = False,
      rq_parserParamFlag = 0, rq_path = text_of ''/'', rq_query = [], rq_fragment = [], rq_body = [],
      rq_headers = [], rq_params = [], rq_cookies = [] \<rparr>"

definition rq_getHeader :: "byte list \<Rightarrow> byte list \<Rightarrow> http_request \<Rightarrow> byte list" where
  "rq_getHeader key dflt r = cm_get (rq_headers r) key dflt"

definition rq_setHeader :: "byte list \<Rightarrow> byte list \<Rightarrow> http_request \<Rightarrow> http_request" where
  "rq_setHeader key val r = r\<lparr> rq_headers := cm_set key val (rq_headers r) \<rparr>"

definition rq_setParam :: "byte list \<Rightarrow> byte list \<Rightarrow> http_request \<Rightarrow> http_request" where
  "rq_setParam key val r = r\<lparr> rq_params := cm_set key val (rq_params r) \<rparr>"

definition rq_setCookie :: "byte list \<Rightarrow> byte list \<Rightarrow> http_request \<Rightarrow> http_request" where
  "rq_setCookie key val r = r\<lparr> rq_cookies := cm_set key val (rq_cookies r) \<rparr>"

definition rq_delHeader :: "byte list \<Rightarrow> http_request \<Rightarrow> http_request" where
  "rq_delHeader key r = r\<lparr> rq_headers := cm_erase key (rq_headers r) \<rparr>"

definition rq_delParam :: "byte list \<Rightarrow> http_request \<Rightarrow> http_request" where
  "rq_delParam key r = r\<lparr> rq_params := cm_erase key (rq_params r) \<rparr>"

definition rq_delCookie :: "byte list \<Rightarrow> http_request \<Rightarrow> http_request" where
  "rq_delCookie key r = r\<lparr> rq_cookies := cm_erase key (rq_cookies r) \<rparr>"

text \<open>The loop of \<open>PARSE_PARAM\<close>, with the separator and the trimming of the keys.\<close>

function parse_param :: "byte list \<Rightarrow> byte \<Rightarrow> (byte list \<Rightarrow> byte list) \<Rightarrow> nat \<Rightarrow> cimap \<Rightarrow> cimap" where
  "parse_param str flag tr pos m =
    (case find_from 61 str pos of
       None \<Rightarrow> m
     | Some key \<Rightarrow>
         (case find_from flag str key of
            None \<Rightarrow> cm_insert (tr (substr str pos (key - pos))) (urlDecode (drop (key + 1) str) True) m
          | Some p \<Rightarrow> parse_param str flag tr (p + 1)
              (cm_insert (tr (substr str pos (key - pos)))
                 (urlDecode (substr str (key + 1) (p - key - 1)) True) m)))"
  by pat_completeness auto
termination
  by (relation "measure (\<lambda>(str, flag, tr, pos, m). Suc (length str) - pos)")
     (auto simp: find_from_def Let_def split: if_splits)

declare parse_param.simps [simp del]

definition initQueryParam :: "http_request \<Rightarrow> http_request" where
  "initQueryParam r =
    (if rq_parserParamFlag r AND 1 \<noteq> 0 then r
     else r\<lparr> rq_params := parse_param (rq_query r) 38 (\<lambda>s. s) 0 (rq_params r),
             rq_parserParamFlag := rq_parserParamFlag r OR 1 \<rparr>)"

definition strcasestr :: "byte list \<Rightarrow> byte list \<Rightarrow> bool" where
  "strcasestr hay needle \<longleftrightarrow>
    list_ex (\<lambda>i. take (length (ci_key needle)) (drop i (ci_key hay)) = ci_key needle) [0..<Suc (length (ci_key hay))]"

definition initBodyParam :: "http_request \<Rightarrow> http_request" where
  "initBodyParam r =
    (if rq_parserParamFlag r AND 2 \<noteq> 0 then r
     else if \<not> strcasestr (rq_getHeader (text_of ''content-type'') [] r) (text_of ''application/x-www-form-urlencoded'')
     then r\<lparr> rq_parserParamFlag := rq_parserParamFlag r OR 2 \<rparr>
     else r\<lparr> rq_params := parse_param (rq_body r) 38 (\<lambda>s. s) 0 (rq_params r),
             rq_parserParamFlag := rq_parserParamFlag r OR 2 \<rparr>)"

definition initCookies :: "http_request \<Rightarrow> http_request" where
  "initCookies r =
    (if rq_parserParamFlag r AND 4 \<noteq> 0 then r
     else let cookie = rq_getHeader (text_of ''cookie'') [] r in
       if cookie = [] then r\<lparr> rq_parserParamFlag := rq_parserParamFlag r OR 4 \<rparr>
       else r\<lparr> rq_cookies := parse_param cookie 59 (\<lambda>s. trim s [32, 9, 13, 10]) 0 (rq_cookies r),
               rq_parserParamFlag := rq_parserParamFlag r OR 4 \<rparr>)"

definition initParam :: "http_request \<Rightarrow> http_request" where
  "initParam r = initCookies (initBodyParam (initQueryParam r))"

definition rq_getParam :: "byte list \<Rightarrow> byte list \<Rightarrow> http_request \<Rightarrow> byte list \<times> http_request" where
  "rq_getParam key dflt r = (let r' = initBodyParam (initQueryParam r) in (cm_get (rq_params r') key dflt, r'))"

definition rq_getCookie :: "byte list \<Rightarrow> byte list \<Rightarrow> http_request \<Rightarrow> byte list \<times> http_request" where
  "rq_getCookie key dflt r = (let r' = initCookies r in (cm_get (rq_cookies r') key dflt, r'))"

text \<open>\<open>hasHeader\<close>, \<open>hasParam\<close> and \<open>hasCookie\<close> return the value through a pointer: None when there is none.\<close>

definition rq_hasHeader :: "byte list \<Rightarrow> http_request \<Rightarrow> byte list option" where
  "rq_hasHeader key r = cm_find (rq_headers r) key"

definition rq_hasParam :: "byte list \<Rightarrow> http_request \<Rightarrow> byte list option \<times> http_request" where
  "rq_hasParam key r = (let r' = initBodyParam (initQueryParam r) in (cm_find (rq_params r') key, r'))"

definition rq_hasCookie :: "byte list \<Rightarrow> http_request \<Rightarrow> byte list option \<times> http_request" where
  "rq_hasCookie key r = (let r' = initCookies r in (cm_find (rq_cookies r') key, r'))"

definition rq_init :: "http_request \<Rightarrow> http_request" where
  "rq_init r =
    (let conn = rq_getHeader (text_of ''connection'') [] r in
     if conn \<noteq> [] then r\<lparr> rq_close := (ci_key conn \<noteq> text_of ''keep-alive'') \<rparr> else r)"

definition version_text :: "byte \<Rightarrow> byte list" where
  "version_text v = text_of ''HTTP/'' @ decimal (unat (drop_bit 4 v)) @ text_of ''.'' @ decimal (unat (v AND 0x0F))"

definition connection_line :: "bool \<Rightarrow> byte list" where
  "connection_line close = text_of ''connection: '' @ text_of (if close then ''close'' else ''keep-alive'') @ crlf"

definition header_lines :: "bool \<Rightarrow> cimap \<Rightarrow> byte list" where
  "header_lines websocket m =
    concat (map (\<lambda>(a, b). if \<not> websocket \<and> ci_key a = text_of ''connection'' then []
                          else a @ text_of '': '' @ b @ crlf) m)"

definition body_text :: "byte list \<Rightarrow> byte list" where
  "body_text body =
    (if body \<noteq> [] then text_of ''content-length: '' @ decimal (length body) @ crlf @ crlf @ body else crlf)"

definition rq_dump :: "http_request \<Rightarrow> byte list" where
  "rq_dump r =
    httpMethodToString (rq_method r) @ text_of '' '' @ rq_path r
    @ (if rq_query r = [] then [] else text_of ''?'') @ rq_query r
    @ (if rq_fragment r = [] then [] else text_of ''#'') @ rq_fragment r
    @ text_of '' '' @ version_text (rq_version r) @ crlf
    @ (if rq_websocket r then [] else connection_line (rq_close r))
    @ header_lines (rq_websocket r) (rq_headers r)
    @ body_text (rq_body r)"

section \<open>Responses\<close>

record http_response =
  rs_status :: nat
  rs_version :: byte
  rs_close :: bool
  rs_websocket :: bool
  rs_body :: "byte list"
  rs_reason :: "byte list"
  rs_headers :: cimap
  rs_cookies :: "byte list list"

definition new_HttpResponse :: "byte \<Rightarrow> bool \<Rightarrow> http_response" where
  "new_HttpResponse version close =
    \<lparr> rs_status = 200, rs_version = version, rs_close = close, rs_websocket = False, rs_body = [],
      rs_reason = [], rs_headers = [], rs_cookies = [] \<rparr>"

definition createResponse :: "http_request \<Rightarrow> http_response" where
  "createResponse r = new_HttpResponse (rq_version r) (rq_close r)"

definition rs_getHeader :: "byte list \<Rightarrow> byte list \<Rightarrow> http_response \<Rightarrow> byte list" where
  "rs_getHeader key dflt r = cm_get (rs_headers r) key dflt"

definition rs_setHeader :: "byte list \<Rightarrow> byte list \<Rightarrow> http_response \<Rightarrow> http_response" where
  "rs_setHeader key val r = r\<lparr> rs_headers := cm_set key val (rs_headers r) \<rparr>"

definition rs_delHeader :: "byte list \<Rightarrow> http_response \<Rightarrow> http_response" where
  "rs_delHeader key r = r\<lparr> rs_headers := cm_erase key (rs_headers r) \<rparr>"

definition setRedirect :: "byte list \<Rightarrow> http_response \<Rightarrow> http_response" where
  "setRedirect uri r = rs_setHeader (text_of ''Location'') uri (r\<lparr> rs_status := 302 \<rparr>)"

definition rs_setCookie :: "(int \<Rightarrow> byte list) \<Rightarrow> byte list \<Rightarrow> byte list \<Rightarrow> int \<Rightarrow> byte list \<Rightarrow> byte list
    \<Rightarrow> bool \<Rightarrow> http_response \<Rightarrow> http_response" where
  "rs_setCookie time2Str key val expired path domain secure r =
    r\<lparr> rs_cookies := rs_cookies r @
         [key @ text_of ''='' @ val
          @ (if 0 < expired then text_of '';expires='' @ time2Str expired @ text_of '' GMT'' else [])
          @ (if domain \<noteq> [] then text_of '';domain='' @ domain else [])
          @ (if path \<noteq> [] then text_of '';path='' @ path else [])
          @ (if secure then text_of '';secure'' else [])] \<rparr>"

definition rs_dump :: "http_response \<Rightarrow> byte list" where
  "rs_dump r =
    version_text (rs_version r) @ text_of '' '' @ decimal (rs_status r) @ text_of '' ''
    @ (if rs_reason r = [] then httpStatusToString (rs_status r) else rs_reason r) @ crlf
    @ header_lines (rs_websocket r) (rs_headers r)
    @ concat (map (\<lambda>c. text_of ''Set-Cookie: '' @ c @ crlf) (rs_cookies r))
    @ (if rs_websocket r then [] else connection_line (rs_close r))
    @ body_text (rs_body r)"

section \<open>Laws of the case-insensitive maps\<close>

definition cm_ok :: "cimap \<Rightarrow> bool" where
  "cm_ok m \<longleftrightarrow> sorted_wrt CaseInsensitiveLess (map fst m)"

lemma less_iff: "(\<not> CaseInsensitiveLess a k \<and> \<not> CaseInsensitiveLess k a) \<longleftrightarrow> ci_key a = ci_key k"
  by (auto simp: CaseInsensitiveLess_def)

lemma cm_find_Nil [simp]: "cm_find [] k = None"
  by (simp add: cm_find_def)

lemma cm_find_Cons: "cm_find ((a, b) # m) k = (if ci_key a = ci_key k then Some b else cm_find m k)"
  by (simp add: cm_find_def less_iff)

lemma cm_find_cong: "ci_key k = ci_key k' \<Longrightarrow> cm_find m k = cm_find m k'"
  by (simp add: cm_find_def less_iff)

lemma cm_find_set: "cm_find (cm_set k v m) k' = (if ci_key k' = ci_key k then Some v else cm_find m k')"
  by (induction k v m rule: cm_set.induct) (auto simp: cm_find_Cons CaseInsensitiveLess_def)

lemma cm_erase_Cons: "cm_erase k ((a, b) # m) = (if ci_key a = ci_key k then cm_erase k m else (a, b) # cm_erase k m)"
  using less_iff [of a k] by (auto simp: cm_erase_def)

lemma cm_find_erase: "cm_find (cm_erase k m) k' = (if ci_key k' = ci_key k then None else cm_find m k')"
proof (induction m)
  case (Cons p m)
  then show ?case by (cases p) (auto simp: cm_find_Cons cm_erase_Cons)
qed (simp add: cm_erase_def)

lemma fst_cm_set: "fst ` set (cm_set k v m) \<subseteq> insert k (fst ` set m)"
  by (induction k v m rule: cm_set.induct) auto

lemma fst_cm_insert: "fst ` set (cm_insert k v m) \<subseteq> insert k (fst ` set m)"
  by (induction k v m rule: cm_insert.induct) auto

lemma cm_ok_Cons: "cm_ok ((a, b) # m) \<longleftrightarrow> (\<forall>x \<in> fst ` set m. CaseInsensitiveLess a x) \<and> cm_ok m"
  by (auto simp: cm_ok_def)

lemma cm_ok_Nil [simp]: "cm_ok []"
  by (simp add: cm_ok_def)

lemma ci_less_trans: "CaseInsensitiveLess a b \<Longrightarrow> CaseInsensitiveLess b c \<Longrightarrow> CaseInsensitiveLess a c"
  by (simp add: CaseInsensitiveLess_def)

lemma less_eqv: "\<not> CaseInsensitiveLess a k \<Longrightarrow> \<not> CaseInsensitiveLess k a \<Longrightarrow> CaseInsensitiveLess a x \<Longrightarrow> CaseInsensitiveLess k x"
  by (auto simp: CaseInsensitiveLess_def)

lemma cm_ok_set: "cm_ok m \<Longrightarrow> cm_ok (cm_set k v m)"
proof (induction k v m rule: cm_set.induct)
  case (2 k v a b m)
  then have "CaseInsensitiveLess a k \<Longrightarrow> \<forall>x \<in> fst ` set (cm_set k v m). CaseInsensitiveLess a x"
    using fst_cm_set [of k v m] by (simp only: cm_ok_Cons) blast
  with 2 show ?case by (auto simp: cm_ok_Cons intro: ci_less_trans dest: less_eqv)
qed (simp add: cm_ok_Cons)

lemma cm_ok_insert: "cm_ok m \<Longrightarrow> cm_ok (cm_insert k v m)"
proof (induction k v m rule: cm_insert.induct)
  case (2 k v a b m)
  then have "CaseInsensitiveLess a k \<Longrightarrow> \<forall>x \<in> fst ` set (cm_insert k v m). CaseInsensitiveLess a x"
    using fst_cm_insert [of k v m] by (simp only: cm_ok_Cons) blast
  with 2 show ?case by (auto simp: cm_ok_Cons intro: ci_less_trans dest: less_eqv)
qed (simp add: cm_ok_Cons)

lemma cm_ok_erase: "cm_ok m \<Longrightarrow> cm_ok (cm_erase k m)"
proof (induction m)
  case (Cons p m)
  have "set (cm_erase k m) \<subseteq> set m" by (auto simp: cm_erase_def)
  then show ?case using Cons by (cases p) (auto simp: cm_ok_Cons cm_erase_Cons)
qed (simp add: cm_erase_def)

lemma cm_absent: "\<forall>x \<in> fst ` set m. CaseInsensitiveLess k x \<Longrightarrow> cm_find m k = None"
proof (induction m)
  case (Cons p m)
  then show ?case by (cases p) (auto simp: cm_find_Cons CaseInsensitiveLess_def)
qed simp

lemma cm_find_insert:
  "cm_ok m \<Longrightarrow> cm_find (cm_insert k v m) k' =
     (if ci_key k' = ci_key k \<and> cm_find m k = None then Some v else cm_find m k')"
proof (induction k v m rule: cm_insert.induct)
  case (2 k v a b m)
  have "CaseInsensitiveLess k a \<Longrightarrow> cm_find m k = None"
    using 2(2) by (intro cm_absent) (auto simp: cm_ok_Cons intro: ci_less_trans)
  then show ?case
    using 2 by (auto simp: cm_find_Cons cm_ok_Cons CaseInsensitiveLess_def)
qed (auto simp: cm_find_Cons)

lemma cm_insert_keeps:
  assumes "cm_ok m" "cm_find m k' = Some v'"
  shows "cm_find (cm_insert k v m) k' = Some v'"
proof (cases "ci_key k' = ci_key k")
  case True
  then show ?thesis using assms cm_find_cong [OF True, of m] by (simp add: cm_find_insert)
qed (use assms in \<open>simp add: cm_find_insert\<close>)

lemmas cm_laws = cm_find_set cm_find_erase cm_ok_set cm_ok_insert cm_ok_erase

section \<open>Parsing parameters\<close>

lemma parse_param_keeps:
  "cm_ok m \<Longrightarrow> cm_ok (parse_param str flag tr pos m) \<and>
     (\<forall>k v. cm_find m k = Some v \<longrightarrow> cm_find (parse_param str flag tr pos m) k = Some v)"
proof (induction str flag tr pos m rule: parse_param.induct)
  case (1 str flag tr pos m)
  show ?case
  proof (cases "find_from 61 str pos")
    case None
    then show ?thesis using 1(2) by (simp add: parse_param.simps [of str])
  next
    case key: (Some key)
    show ?thesis
    proof (cases "find_from flag str key")
      case None
      then show ?thesis using 1(2) key
        by (auto simp: parse_param.simps [of str] cm_ok_insert cm_insert_keeps)
    next
      case (Some p)
      let ?m = "cm_insert (tr (substr str pos (key - pos))) (urlDecode (substr str (key + 1) (p - key - 1)) True) m"
      have eq: "parse_param str flag tr pos m = parse_param str flag tr (p + 1) ?m"
        using key Some by (simp add: parse_param.simps [of str _ _ pos])
      have "cm_ok ?m" using 1(2) by (rule cm_ok_insert)
      moreover have "cm_find m k = Some v \<Longrightarrow> cm_find ?m k = Some v" for k v
        using 1(2) by (rule cm_insert_keeps)
      ultimately show ?thesis unfolding eq using 1(1) [OF key Some] by blast
    qed
  qed
qed

lemma find_from_hit: "c \<notin> set a \<Longrightarrow> find_from c (pre @ a @ c # r) (length pre) = Some (length pre + length a)"
proof -
  assume c: "c \<notin> set a"
  have "takeWhile (\<lambda>x. x \<noteq> c) a = a" using c unfolding takeWhile_eq_all_conv by auto
  then have "takeWhile (\<lambda>x. x \<noteq> c) (a @ c # r) = a" by (simp add: takeWhile_tail)
  then show ?thesis by (simp add: find_from_def Let_def)
qed

lemma find_from_miss: "c \<notin> set a \<Longrightarrow> find_from c (pre @ a) (length pre) = None"
proof -
  assume c: "c \<notin> set a"
  have tw: "takeWhile (\<lambda>x. x \<noteq> c) a = a" using c unfolding takeWhile_eq_all_conv by auto
  show ?thesis by (simp add: find_from_def tw)
qed

text \<open>A query as a client writes it: keys as they are, values URL-encoded.\<close>

definition query_text :: "(byte list \<times> byte list) list \<Rightarrow> byte list" where
  "query_text kvs = str_join (map (\<lambda>(k, v). k @ [61] @ urlEncode v True) kvs) [38]"

lemma amp_not_encoded: "38 \<notin> set (urlEncode v True)"
  using urlEncode_chars [of True v] by (auto simp: list_all_iff uriChars_def)

lemma parse_query_text:
  "\<forall>(k, v) \<in> set kvs. 61 \<notin> set k \<Longrightarrow>
   parse_param (pre @ query_text kvs) 38 (\<lambda>s. s) (length pre) m = foldl (\<lambda>m (k, v). cm_insert k v m) m kvs"
proof (induction kvs arbitrary: pre m)
  case Nil
  then show ?case by (simp add: query_text_def parse_param.simps [of pre] find_from_def)
next
  case (Cons kv kvs)
  obtain k v where kv: "kv = (k, v)" by (cases kv)
  let ?e = "urlEncode v True"
  have k: "61 \<notin> set k" and IH: "\<And>pre m. parse_param (pre @ query_text kvs) 38 (\<lambda>s. s) (length pre) m = foldl (\<lambda>m (k, v). cm_insert k v m) m kvs"
    using Cons kv by simp_all
  have nk: "38 \<notin> set (61 # ?e)" using amp_not_encoded [of v] by simp
  show ?case
  proof (cases kvs)
    case Nil
    have s: "pre @ query_text (kv # kvs) = pre @ k @ 61 # ?e" using kv Nil by (simp add: query_text_def)
    have f: "find_from 38 (pre @ k @ 61 # ?e) (length pre + length k) = None"
      using find_from_miss [OF nk, of "pre @ k"] by simp
    show ?thesis unfolding s using kv Nil
      by (simp add: parse_param.simps [of "pre @ k @ 61 # ?e"] find_from_hit [OF k] f substr_def urlDecode_urlEncode)
  next
    case (Cons y ys)
    let ?r = "query_text kvs" and ?s = "pre @ k @ 61 # ?e @ 38 # query_text kvs"
    have s: "pre @ query_text (kv # kvs) = ?s" using kv Cons by (simp add: query_text_def)
    have f: "find_from 38 ?s (length pre + length k) = Some (length pre + length k + Suc (length ?e))"
      using find_from_hit [OF nk, of "pre @ k"] by simp
    have "parse_param ?s 38 (\<lambda>s. s) (length pre) m
        = parse_param ?s 38 (\<lambda>s. s) (length (pre @ k @ 61 # ?e @ [38])) (cm_insert k v m)"
      by (subst parse_param.simps) (simp add: find_from_hit [OF k] f substr_def urlDecode_urlEncode add.assoc)
    also have "\<dots> = foldl (\<lambda>m (k, v). cm_insert k v m) (cm_insert k v m) kvs"
      using IH [of "pre @ k @ 61 # ?e @ [38]" "cm_insert k v m"] by simp
    finally show ?thesis unfolding s using kv by simp
  qed
qed

section \<open>Histories of a request\<close>

datatype rq_op = SetHeader "byte list" "byte list" | DelHeader "byte list"
  | SetParam "byte list" "byte list" | DelParam "byte list"
  | SetCookie "byte list" "byte list" | DelCookie "byte list"
  | SetQuery "byte list" | SetBody "byte list"
  | GetParam "byte list" | GetCookie "byte list" | InitParam | Init

fun rq_step :: "rq_op \<Rightarrow> http_request \<Rightarrow> http_request" where
  "rq_step (SetHeader k v) r = rq_setHeader k v r"
| "rq_step (DelHeader k) r = rq_delHeader k r"
| "rq_step (SetParam k v) r = rq_setParam k v r"
| "rq_step (DelParam k) r = rq_delParam k r"
| "rq_step (SetCookie k v) r = rq_setCookie k v r"
| "rq_step (DelCookie k) r = rq_delCookie k r"
| "rq_step (SetQuery q) r = r\<lparr> rq_query := q \<rparr>"
| "rq_step (SetBody b) r = r\<lparr> rq_body := b \<rparr>"
| "rq_step (GetParam k) r = snd (rq_getParam k [] r)"
| "rq_step (GetCookie k) r = snd (rq_getCookie k [] r)"
| "rq_step InitParam r = initParam r"
| "rq_step Init r = rq_init r"

text \<open>The headers as a map from folded keys.\<close>

fun header_spec :: "rq_op \<Rightarrow> (byte list \<rightharpoonup> byte list) \<Rightarrow> (byte list \<rightharpoonup> byte list)" where
  "header_spec (SetHeader k v) h = h(ci_key k \<mapsto> v)"
| "header_spec (DelHeader k) h = h(ci_key k := None)"
| "header_spec _ h = h"

definition rq_wf :: "http_request \<Rightarrow> bool" where
  "rq_wf r \<longleftrightarrow> cm_ok (rq_headers r) \<and> cm_ok (rq_params r) \<and> cm_ok (rq_cookies r)"

lemmas init_defs = initQueryParam_def initBodyParam_def initCookies_def initParam_def rq_getParam_def
  rq_getCookie_def rq_init_def

lemma init_wf:
  "rq_wf r \<Longrightarrow> rq_wf (initQueryParam r)" "rq_wf r \<Longrightarrow> rq_wf (initBodyParam r)" "rq_wf r \<Longrightarrow> rq_wf (initCookies r)"
  by (simp_all add: rq_wf_def initQueryParam_def initBodyParam_def initCookies_def Let_def parse_param_keeps)

lemma init_headers:
  "rq_headers (initQueryParam r) = rq_headers r" "rq_headers (initBodyParam r) = rq_headers r"
  "rq_headers (initCookies r) = rq_headers r"
  by (simp_all add: initQueryParam_def initBodyParam_def initCookies_def Let_def)

lemma rq_step_ok:
  assumes "rq_wf r" "\<forall>k. cm_find (rq_headers r) k = h (ci_key k)"
  shows "rq_wf (rq_step op r) \<and> (\<forall>k. cm_find (rq_headers (rq_step op r)) k = header_spec op h (ci_key k))"
  using assms init_wf
  by (cases op)
     (simp_all add: init_headers initParam_def rq_getParam_def rq_getCookie_def Let_def,
      simp_all add: rq_wf_def cm_laws rq_init_def Let_def rq_setHeader_def rq_delHeader_def rq_setParam_def
        rq_delParam_def rq_setCookie_def rq_delCookie_def)

lemma rq_run_ok:
  "rq_wf r \<Longrightarrow> \<forall>k. cm_find (rq_headers r) k = h (ci_key k) \<Longrightarrow>
   rq_wf (fold rq_step ops r) \<and>
   (\<forall>k. cm_find (rq_headers (fold rq_step ops r)) k = fold header_spec ops h (ci_key k))"
proof (induction ops arbitrary: r h)
  case (Cons op ops)
  then show ?case
    using rq_step_ok [OF Cons.prems, of op] Cons.IH [of "rq_step op r" "header_spec op h"] by simp
qed simp

lemma insert_list_keeps:
  "cm_ok m \<Longrightarrow> cm_find m x = Some y \<Longrightarrow> cm_find (foldl (\<lambda>m (k, v). cm_insert k v m) m kvs) x = Some y"
  by (induction kvs arbitrary: m) (auto simp: cm_ok_insert cm_insert_keeps)

lemma insert_all:
  "cm_ok m \<Longrightarrow> distinct (map (ci_key \<circ> fst) kvs) \<Longrightarrow> \<forall>p \<in> set kvs. cm_find m (fst p) = None \<Longrightarrow> (k, v) \<in> set kvs \<Longrightarrow>
   cm_find (foldl (\<lambda>m (k, v). cm_insert k v m) m kvs) k = Some v"
proof (induction kvs arbitrary: m)
  case (Cons kv kvs)
  obtain a b where kv: "kv = (a, b)" by (cases kv)
  have ok: "cm_ok (cm_insert a b m)" and f: "cm_find (cm_insert a b m) a = Some b"
    using Cons.prems kv by (simp_all add: cm_ok_insert cm_find_insert)
  have fresh: "\<forall>p \<in> set kvs. cm_find (cm_insert a b m) (fst p) = None"
  proof
    fix p assume p: "p \<in> set kvs"
    have "ci_key a \<notin> (\<lambda>x. ci_key (fst x)) ` set kvs" using Cons.prems(2) kv by (simp add: o_def)
    then have "ci_key (fst p) \<noteq> ci_key a" using imageI [OF p, of "\<lambda>x. ci_key (fst x)"] by metis
    then show "cm_find (cm_insert a b m) (fst p) = None" using Cons.prems(1,3) p by (simp add: cm_find_insert)
  qed
  show ?case
  proof (cases "(k, v) = (a, b)")
    case True
    then show ?thesis using kv insert_list_keeps [OF ok f] by simp
  next
    case False
    then have "(k, v) \<in> set kvs" using Cons.prems kv by auto
    then show ?thesis using Cons.IH [OF ok _ fresh] Cons.prems(2) kv by simp
  qed
qed simp

section \<open>Properties\<close>

text \<open>
  C14: In every history of a request, the maps of headers, parameters and cookies are strictly sorted
  by the case-insensitive order, so that no two keys that differ only in case are stored, and the
  header found under any spelling of a name is the one that was set last and not deleted since;
  parsing parameters and cookies does not touch the headers.
\<close>

theorem request_maps_ok:
  "let r = fold rq_step ops (new_HttpRequest version close) in
   sorted_wrt CaseInsensitiveLess (map fst (rq_headers r)) \<and>
   sorted_wrt CaseInsensitiveLess (map fst (rq_params r)) \<and>
   sorted_wrt CaseInsensitiveLess (map fst (rq_cookies r)) \<and>
   rq_hasHeader k r = fold header_spec ops Map.empty (ci_key k)"
proof -
  have "rq_wf (new_HttpRequest version close)" "\<forall>k. cm_find (rq_headers (new_HttpRequest version close)) k = Map.empty (ci_key k)"
    by (simp_all add: rq_wf_def new_HttpRequest_def)
  from rq_run_ok [OF this, of ops] show ?thesis by (simp add: rq_wf_def cm_ok_def rq_hasHeader_def Let_def)
qed

text \<open>
  C15: Parameters survive the trip. When a client joins pairs with ampersands, each key (without an
  equals sign) as it is and each value URL-encoded, the server's \<open>getParam\<close> returns exactly the value
  under any spelling of its key, whatever bytes the value has and whatever the body holds, provided
  that the keys differ in more than case.
\<close>

theorem query_param_round_trip:
  assumes "rq_query r = query_text kvs" "rq_params r = []" "rq_parserParamFlag r AND 1 = 0"
    and "\<forall>(k, v) \<in> set kvs. 61 \<notin> set k" "distinct (map (ci_key \<circ> fst) kvs)"
    and "(k, v) \<in> set kvs" "ci_key k' = ci_key k"
  shows "fst (rq_getParam k' dflt r) = v"
proof -
  let ?m = "foldl (\<lambda>m (k, v). cm_insert k v m) [] kvs"
  have q: "rq_params (initQueryParam r) = ?m"
    using parse_query_text [OF assms(4), of "[]" "[]"] assms(1-3) by (simp add: initQueryParam_def)
  have f: "cm_find ?m k = Some v" using assms(4-6) by (intro insert_all) auto
  have ok: "cm_ok ?m" using init_wf(1) [of "r\<lparr> rq_headers := [], rq_cookies := [] \<rparr>"] assms q
    by (simp add: rq_wf_def initQueryParam_def)
  have "cm_find (rq_params (initBodyParam (initQueryParam r))) k = Some v"
    using f ok parse_param_keeps [OF ok] by (simp add: initBodyParam_def q)
  then have "cm_find (rq_params (initBodyParam (initQueryParam r))) k' = Some v"
    using cm_find_cong [OF assms(7)] by simp
  then show ?thesis by (simp add: rq_getParam_def Let_def cm_get_def)
qed

definition query_demo :: http_request where
  "query_demo = (new_HttpRequest 0x11 True)\<lparr> rq_query := query_text [([97], [38, 61, 32]), ([98], [37])] \<rparr>"

theorem query_param_round_trip_witness: "fst (rq_getParam [65] [] query_demo) = [38, 61, 32]"
  by (rule query_param_round_trip [where kvs = "[([97], [38, 61, 32]), ([98], [37])]" and k = "[97]"])
     (simp_all add: query_demo_def new_HttpRequest_def ci_key_def c_str_def toLower_def)


section \<open>Methods\<close>

lemmas method_defs = stringToHttpMethod_def charsToHttpMethod_def httpMethodToString_def first_method_def
  http_method_map_def text_of_def c_str_def

text \<open>No name of a method is a prefix of another, so that the comparison of prefixes finds the method of a request line.\<close>

lemma method_round_trip:
  "m \<noteq> InvalidMethod \<Longrightarrow>
   stringToHttpMethod (httpMethodToString m) = m \<and> charsToHttpMethod (httpMethodToString m @ rest) = m"
  by (cases m) (simp_all add: method_defs)

text \<open>The table spells the method \<open>M-SEARCH\<close> with spaces, so the real name is not recognised.\<close>

lemma msearch_unknown:
  "stringToHttpMethod (text_of ''M-SEARCH'') = InvalidMethod"
  "charsToHttpMethod (text_of ''M-SEARCH * HTTP/1.1'') = InvalidMethod"
  by (simp_all add: method_defs)

text \<open>The reason phrase printed for status 203 has spaces around its hyphen.\<close>

lemma reason_203: "httpStatusToString 203 = text_of ''Non - Authoritative Information''"
  by (simp add: httpStatusToString_def http_status_map_def)

end
