(* ===== verification/HttpParser.thy ===== *)
theory HttpParser
  imports Http
begin

text \<open>
  The incremental HTTP parsers (\<open>src/http/http_parser.cpp\<close>, \<open>include/http/http_parser.h\<close>). The request
  and the response parser have the same loop over the input; it is one definition, with the
  handling of a complete line and the extension of the body as arguments. The number conversions
  of the C library are written out.
\<close>

section \<open>Number conversions\<close>

definition isspace :: "byte \<Rightarrow> bool" where
  "isspace c \<longleftrightarrow> c = 32 \<or> (9 \<le> c \<and> c \<le> 13)"

definition isdigit :: "byte \<Rightarrow> bool" where
  "isdigit c \<longleftrightarrow> 48 \<le> c \<and> c \<le> 57"

fun digits_value :: "nat \<Rightarrow> byte list \<Rightarrow> nat" where
  "digits_value n [] = n"
| "digits_value n (c # cs) = digits_value (10 * n + (unat c - 48)) cs"

text \<open>
  The number at the start of a string, blanks and a sign before it: whether it is negative, its
  digits' value and what follows; None when there are no digits.
\<close>

definition scan_number :: "byte list \<Rightarrow> (bool \<times> nat \<times> byte list) option" where
  "scan_number s =
    (let t = dropWhile isspace (c_str s);
         neg = (t \<noteq> [] \<and> hd t = 45);
         u = (if t \<noteq> [] \<and> (hd t = 45 \<or> hd t = 43) then tl t else t);
         ds = takeWhile isdigit u
     in if ds = [] then None else Some (neg, digits_value 0 ds, dropWhile isdigit u))"

definition strtol :: "byte list \<Rightarrow> (int \<times> byte list) option" where
  "strtol s =
    map_option (\<lambda>(neg, n, rest). (if neg then max (- int n) (- (2 ^ 63)) else min (int n) (2 ^ 63 - 1), rest))
      (scan_number s)"

text \<open>\<open>std::stoull\<close> and \<open>std::stoi\<close>; None stands for their exceptions.\<close>

definition stoull :: "byte list \<Rightarrow> nat option" where
  "stoull s =
    (case scan_number s of
       None \<Rightarrow> None
     | Some (neg, n, rest) \<Rightarrow>
         if 2 ^ 64 \<le> n then None else Some (if neg then nat ((- int n) mod 2 ^ 64) else n))"

definition stoi :: "byte list \<Rightarrow> int option" where
  "stoi s =
    (case strtol s of
       None \<Rightarrow> None
     | Some (v, rest) \<Rightarrow> if v < - (2 ^ 31) \<or> 2 ^ 31 \<le> v then None else Some v)"

section \<open>Pieces of lines\<close>

definition parseHttpVersion :: "byte list \<Rightarrow> byte" where
  "parseHttpVersion version =
    (if length version < 5 \<or> take 5 version \<noteq> text_of ''HTTP/'' then 0
     else case strtol (drop 5 (c_str version)) of
       None \<Rightarrow> 0
     | Some (major, e1) \<Rightarrow>
         if e1 = [] \<or> hd e1 \<noteq> 46 then 0
         else case strtol (tl e1) of
           None \<Rightarrow> 0
         | Some (minor, e2) \<Rightarrow> if e2 \<noteq> [] then 0 else word_of_int (push_bit 4 major OR minor))"

definition trimLeftBlank :: "byte list \<Rightarrow> byte list" where
  "trimLeftBlank s = (case find_first_not_of s [32, 9] of None \<Rightarrow> [] | Some b \<Rightarrow> drop b s)"

section \<open>The state of a parser\<close>

datatype pstate = FirstLine | Headers | Body | Done

record 'd parser =
  ps_state :: pstate
  ps_line :: "byte list"
  ps_data :: 'd
  ps_bodyRemaining :: nat
  ps_finished :: bool
  ps_error :: int

definition new_parser :: "'d \<Rightarrow> 'd parser" where
  "new_parser d = \<lparr> ps_state = FirstLine, ps_line = [], ps_data = d, ps_bodyRemaining = 0,
     ps_finished = False, ps_error = 0 \<rparr>"

definition hasError :: "'d parser \<Rightarrow> bool" where
  "hasError p \<longleftrightarrow> ps_error p \<noteq> 0"

definition setError :: "int \<Rightarrow> 'd parser \<Rightarrow> 'd parser" where
  "setError e p = p\<lparr> ps_error := e \<rparr>"

definition MAX_LINE_SIZE :: nat where
  "MAX_LINE_SIZE = 8192"

text \<open>
  The loop of \<open>execute\<close>: the bytes consumed so far and the bytes left, until the input is used up,
  the message is complete or an error was set.
\<close>

function execute_loop :: "(byte list \<Rightarrow> 'd parser \<Rightarrow> 'd parser) \<Rightarrow> (byte list \<Rightarrow> 'd \<Rightarrow> 'd)
    \<Rightarrow> nat \<Rightarrow> byte list \<Rightarrow> 'd parser \<Rightarrow> nat \<times> 'd parser" where
  "execute_loop processLine addBody pos data p =
    (if data = [] \<or> ps_finished p \<or> hasError p then (pos, p)
     else if ps_state p = Body then
       (let toCopy = min (ps_bodyRemaining p) (length data);
            p1 = p\<lparr> ps_data := addBody (take toCopy data) (ps_data p),
                    ps_bodyRemaining := ps_bodyRemaining p - toCopy \<rparr>;
            p2 = (if ps_bodyRemaining p1 = 0 then p1\<lparr> ps_finished := True, ps_state := Done \<rparr> else p1)
        in execute_loop processLine addBody (pos + toCopy) (drop toCopy data) p2)
     else if hd data = 10 then
       (let l = (if ps_line p \<noteq> [] \<and> last (ps_line p) = 13 then butlast (ps_line p) else ps_line p);
            p1 = processLine l (p\<lparr> ps_line := l \<rparr>)
        in execute_loop processLine addBody (pos + 1) (tl data) (p1\<lparr> ps_line := [] \<rparr>))
     else
       (let p1 = p\<lparr> ps_line := ps_line p @ [hd data] \<rparr>;
            p2 = (if MAX_LINE_SIZE < length (ps_line p1) then setError (-1) p1 else p1)
        in execute_loop processLine addBody (pos + 1) (tl data) p2))"
  by pat_completeness auto
termination
  by (relation "measures [\<lambda>(pl, ab, pos, data, p). length data, \<lambda>(pl, ab, pos, data, p). if ps_finished p then 0 else 1]")
     (auto simp: Let_def neq_Nil_conv)

declare execute_loop.simps [simp del]

section \<open>The request parser\<close>

definition rqp_getContentLength :: "http_request parser \<Rightarrow> nat" where
  "rqp_getContentLength p =
    (let v = rq_getHeader (text_of ''content-length'') [] (ps_data p) in
     if v = [] then 0 else case stoull v of None \<Rightarrow> 0 | Some n \<Rightarrow> n)"

definition parseRequestLine :: "byte list \<Rightarrow> http_request parser \<Rightarrow> http_request parser" where
  "parseRequestLine line p =
    (case find_from 32 line 0 of
       None \<Rightarrow> setError (-1) p
     | Some sp1 \<Rightarrow>
         (let d1 = (ps_data p)\<lparr> rq_method := charsToHttpMethod (substr line 0 sp1) \<rparr> in
          case find_from 32 line (sp1 + 1) of
            None \<Rightarrow> setError (-1) (p\<lparr> ps_data := d1 \<rparr>)
          | Some sp2 \<Rightarrow>
              (let uri = substr line (sp1 + 1) (sp2 - sp1 - 1);
                   d2 = d1\<lparr> rq_version := parseHttpVersion (drop (sp2 + 1) line) \<rparr>;
                   (uri1, d3) = (case find_from 35 uri 0 of
                       None \<Rightarrow> (uri, d2)
                     | Some h \<Rightarrow> (take h uri, d2\<lparr> rq_fragment := drop (h + 1) uri \<rparr>));
                   d4 = (case find_from 63 uri1 0 of
                       None \<Rightarrow> d3\<lparr> rq_path := uri1 \<rparr>
                     | Some q \<Rightarrow> d3\<lparr> rq_query := drop (q + 1) uri1, rq_path := take q uri1 \<rparr>)
               in p\<lparr> ps_data := d4, ps_state := Headers \<rparr>)))"

definition rqp_parseHeaderLine :: "byte list \<Rightarrow> http_request parser \<Rightarrow> http_request parser" where
  "rqp_parseHeaderLine line p =
    (if line = [] then
       (let bodyLen = rqp_getContentLength p in
        if 0 < bodyLen then p\<lparr> ps_bodyRemaining := bodyLen, ps_state := Body \<rparr>
        else p\<lparr> ps_finished := True, ps_state := Done \<rparr>)
     else case find_from 58 line 0 of
       None \<Rightarrow> setError (-1) p
     | Some colon \<Rightarrow>
         p\<lparr> ps_data := rq_setHeader (substr line 0 colon) (trimLeftBlank (drop (colon + 1) line)) (ps_data p) \<rparr>)"

definition rqp_processLine :: "byte list \<Rightarrow> http_request parser \<Rightarrow> http_request parser" where
  "rqp_processLine line p =
    (if ps_state p = FirstLine then parseRequestLine line p
     else if ps_state p = Headers then rqp_parseHeaderLine line p
     else p)"

definition rq_addBody :: "byte list \<Rightarrow> http_request \<Rightarrow> http_request" where
  "rq_addBody s d = d\<lparr> rq_body := rq_body d @ s \<rparr>"

definition rqp_execute :: "byte list \<Rightarrow> http_request parser \<Rightarrow> nat \<times> http_request parser" where
  "rqp_execute data p = execute_loop rqp_processLine rq_addBody 0 data p"

definition new_HttpRequestParser :: "http_request parser" where
  "new_HttpRequestParser = new_parser (new_HttpRequest 0x11 True)"

section \<open>The response parser\<close>

definition rsp_getContentLength :: "http_response parser \<Rightarrow> nat" where
  "rsp_getContentLength p =
    (let v = rs_getHeader (text_of ''content-length'') [] (ps_data p) in
     if v = [] then 0 else case stoull v of None \<Rightarrow> 0 | Some n \<Rightarrow> n)"

text \<open>A status is stored with its 32 bits.\<close>

definition parseStatusLine :: "byte list \<Rightarrow> http_response parser \<Rightarrow> http_response parser" where
  "parseStatusLine line p =
    (case find_from 32 line 0 of
       None \<Rightarrow> setError (-1) p
     | Some sp1 \<Rightarrow>
         (let d1 = (ps_data p)\<lparr> rs_version := parseHttpVersion (substr line 0 sp1) \<rparr>;
              sp2 = find_from 32 line (sp1 + 1);
              codeStr = (case sp2 of None \<Rightarrow> drop (sp1 + 1) line | Some e \<Rightarrow> substr line (sp1 + 1) (e - sp1 - 1))
          in case stoi codeStr of
            None \<Rightarrow> setError (-1) (p\<lparr> ps_data := d1 \<rparr>)
          | Some code \<Rightarrow>
              (let d2 = d1\<lparr> rs_status := nat (code mod 2 ^ 32) \<rparr>;
                   d3 = (case sp2 of None \<Rightarrow> d2 | Some e \<Rightarrow> d2\<lparr> rs_reason := drop (e + 1) line \<rparr>)
               in p\<lparr> ps_data := d3, ps_state := Headers \<rparr>)))"

definition rsp_parseHeaderLine :: "byte list \<Rightarrow> http_response parser \<Rightarrow> http_response parser" where
  "rsp_parseHeaderLine line p =
    (if line = [] then
       (let bodyLen = rsp_getContentLength p in
        if 0 < bodyLen then p\<lparr> ps_bodyRemaining := bodyLen, ps_state := Body \<rparr>
        else p\<lparr> ps_finished := True, ps_state := Done \<rparr>)
     else case find_from 58 line 0 of
       None \<Rightarrow> setError (-1) p
     | Some colon \<Rightarrow>
         p\<lparr> ps_data := rs_setHeader (substr line 0 colon) (trimLeftBlank (drop (colon + 1) line)) (ps_data p) \<rparr>)"

definition rsp_processLine :: "byte list \<Rightarrow> http_response parser \<Rightarrow> http_response parser" where
  "rsp_processLine line p =
    (if ps_state p = FirstLine then parseStatusLine line p
     else if ps_state p = Headers then rsp_parseHeaderLine line p
     else p)"

definition rs_addBody :: "byte list \<Rightarrow> http_response \<Rightarrow> http_response" where
  "rs_addBody s d = d\<lparr> rs_body := rs_body d @ s \<rparr>"

definition rsp_execute :: "byte list \<Rightarrow> http_response parser \<Rightarrow> nat \<times> http_response parser" where
  "rsp_execute data p = execute_loop rsp_processLine rs_addBody 0 data p"

definition new_HttpResponseParser :: "http_response parser" where
  "new_HttpResponseParser = new_parser (new_HttpResponse 0x11 True)"

section \<open>Feeding the input in pieces\<close>

text \<open>One byte outside the body.\<close>

definition feed_byte :: "(byte list \<Rightarrow> 'd parser \<Rightarrow> 'd parser) \<Rightarrow> byte \<Rightarrow> 'd parser \<Rightarrow> 'd parser" where
  "feed_byte processLine c p =
    (if c = 10 then
       (let l = (if ps_line p \<noteq> [] \<and> last (ps_line p) = 13 then butlast (ps_line p) else ps_line p)
        in (processLine l (p\<lparr> ps_line := l \<rparr>))\<lparr> ps_line := [] \<rparr>)
     else
       (let p1 = p\<lparr> ps_line := ps_line p @ [c] \<rparr>
        in if MAX_LINE_SIZE < length (ps_line p1) then setError (-1) p1 else p1))"

text \<open>What the loop needs of its two arguments for the cuts in the input not to matter.\<close>

locale incremental =
  fixes processLine :: "byte list \<Rightarrow> 'd parser \<Rightarrow> 'd parser"
    and addBody :: "byte list \<Rightarrow> 'd \<Rightarrow> 'd"
  assumes addBody_append: "addBody t (addBody s d) = addBody (s @ t) d"
begin

lemma loop_stop: "data = [] \<or> ps_finished p \<or> hasError p \<Longrightarrow> execute_loop processLine addBody pos data p = (pos, p)"
  by (subst execute_loop.simps) simp

lemma loop_body:
  assumes "data \<noteq> []" "\<not> ps_finished p" "\<not> hasError p" "ps_state p = Body"
  shows "execute_loop processLine addBody pos data p =
    (let n = min (ps_bodyRemaining p) (length data);
         p1 = p\<lparr> ps_data := addBody (take n data) (ps_data p), ps_bodyRemaining := ps_bodyRemaining p - n \<rparr>
     in if ps_bodyRemaining p \<le> length data
        then (pos + n, p1\<lparr> ps_finished := True, ps_state := Done \<rparr>) else (pos + n, p1))"
proof (cases "ps_bodyRemaining p \<le> length data")
  case True
  then show ?thesis using assms by (subst execute_loop.simps) (simp add: loop_stop)
next
  case False
  then show ?thesis using assms by (subst execute_loop.simps) (simp add: loop_stop)
qed

lemma loop_line:
  assumes "\<not> ps_finished p" "\<not> hasError p" "ps_state p \<noteq> Body"
  shows "execute_loop processLine addBody pos (c # cs) p =
    execute_loop processLine addBody (Suc pos) cs (feed_byte processLine c p)"
  using assms by (subst execute_loop.simps) (simp add: feed_byte_def Let_def)

lemma loop_split:
  "execute_loop processLine addBody pos (a @ b) p =
     (case execute_loop processLine addBody pos a p of (n, p1) \<Rightarrow> execute_loop processLine addBody n b p1)"
proof (induction "length a" arbitrary: pos a p rule: less_induct)
  case less
  consider (stop) "a = [] \<or> ps_finished p \<or> hasError p"
    | (body) "a \<noteq> []" "\<not> ps_finished p" "\<not> hasError p" "ps_state p = Body"
    | (line) "a \<noteq> []" "\<not> ps_finished p" "\<not> hasError p" "ps_state p \<noteq> Body"
    by blast
  then show ?case
  proof cases
    case stop
    then show ?thesis by (auto simp: loop_stop)
  next
    case body
    let ?p = "p\<lparr> ps_data := addBody a (ps_data p), ps_bodyRemaining := ps_bodyRemaining p - length a \<rparr>"
    show ?thesis
    proof (cases "ps_bodyRemaining p \<le> length a")
      case True
      then show ?thesis using body by (simp add: loop_body loop_stop Let_def)
    next
      case False
      have a: "execute_loop processLine addBody pos a p = (pos + length a, ?p)"
        using False body by (simp add: loop_body Let_def)
      show ?thesis
      proof (cases "b = []")
        case True
        then show ?thesis using a by (simp add: loop_stop)
      next
        case bne: False
        have r: "ps_bodyRemaining p - length a \<le> length b \<longleftrightarrow> ps_bodyRemaining p \<le> length a + length b"
          using False by arith
        have p: "\<not> ps_finished ?p" "\<not> hasError ?p" "ps_state ?p = Body" using body by (simp_all add: hasError_def)
        have ab: "a @ b \<noteq> []" using bne by simp
        show ?thesis
        proof (cases "ps_bodyRemaining p \<le> length a + length b")
          case True
          then show ?thesis unfolding a prod.case loop_body [OF bne p] loop_body [OF ab body(2-4)]
            using r False by (simp add: addBody_append Let_def)
        next
          case rest: False
          then show ?thesis unfolding a prod.case loop_body [OF bne p] loop_body [OF ab body(2-4)]
            using r False by (simp add: addBody_append Let_def)
        qed
      qed
    qed
  next
    case line
    obtain c cs where a: "a = c # cs" using line(1) by (cases a) auto
    have ih: "\<And>pos p. execute_loop processLine addBody pos (cs @ b) p =
        (case execute_loop processLine addBody pos cs p of (n, p1) \<Rightarrow> execute_loop processLine addBody n b p1)"
      using less [of cs] a by simp
    show ?thesis unfolding a append_Cons loop_line [OF line(2-4)] by (rule ih)
  qed
qed

lemma loop_pos: "execute_loop processLine addBody pos a p = (pos + fst (execute_loop processLine addBody 0 a p),
    snd (execute_loop processLine addBody 0 a p))"
proof (induction "length a" arbitrary: pos a p rule: less_induct)
  case less
  consider (stop) "a = [] \<or> ps_finished p \<or> hasError p"
    | (body) "a \<noteq> []" "\<not> ps_finished p" "\<not> hasError p" "ps_state p = Body"
    | (line) "a \<noteq> []" "\<not> ps_finished p" "\<not> hasError p" "ps_state p \<noteq> Body"
    by blast
  then show ?case
  proof cases
    case line
    obtain c cs where a: "a = c # cs" using line(1) by (cases a) auto
    have ih: "execute_loop processLine addBody (Suc n) cs p = (Suc n + fst (execute_loop processLine addBody 0 cs p),
        snd (execute_loop processLine addBody 0 cs p))" for n p
      using less [of cs "Suc n" p] a by simp
    show ?thesis unfolding a loop_line [OF line(2-4)] ih [of pos "feed_byte processLine c p"]
        ih [of 0 "feed_byte processLine c p"] by simp
  next
    case stop
    then show ?thesis by (simp only: loop_stop fst_conv snd_conv add_0_right)
  next
    case body
    then show ?thesis by (simp add: loop_body Let_def)
  qed
qed

lemma loop_rebase:
  "(case execute_loop processLine addBody 0 s p of (m, p') \<Rightarrow> (n + m, p')) = execute_loop processLine addBody n s p"
  by (subst (2) loop_pos) (simp add: split_beta)

text \<open>The whole input and its pieces give the same parser and the same number of bytes.\<close>

lemma loop_chunks:
  "foldl (\<lambda>(n, p) s. case execute_loop processLine addBody 0 s p of (m, p') \<Rightarrow> (n + m, p')) (pos, p) chunks =
   execute_loop processLine addBody pos (concat chunks) p"
  unfolding loop_rebase
proof (induction chunks arbitrary: pos p)
  case (Cons c cs)
  obtain n p1 where e: "execute_loop processLine addBody pos c p = (n, p1)" by fastforce
  show ?case using Cons.IH [of n p1] by (simp only: foldl_Cons prod.case e concat.simps loop_split)
qed (simp add: loop_stop)

end

interpretation rqi: incremental rqp_processLine rq_addBody
  by unfold_locales (simp add: rq_addBody_def)

interpretation rsi: incremental rsp_processLine rs_addBody
  by unfold_locales (simp add: rs_addBody_def)

section \<open>Numbers\<close>

lemma of_nat_digit: "d < 10 \<Longrightarrow> unat (of_nat (48 + d) :: byte) = 48 + d"
  by (simp only: unsigned_of_nat take_bit_eq_mod) simp

lemma digits_value_append: "digits_value n (xs @ ys) = digits_value (digits_value n xs) ys"
  by (induction n xs rule: digits_value.induct) simp_all

lemma digits_decimal: "digits_value 0 (decimal n) = n"
proof (induction n rule: decimal.induct)
  case (1 n)
  show ?case
  proof (cases "n < 10")
    case True
    then show ?thesis using of_nat_digit [OF True] by (simp only: decimal.simps [of n] if_True digits_value.simps)
  next
    case False
    have m: "unat (of_nat (48 + n mod 10) :: byte) = 48 + n mod 10" by (rule of_nat_digit) simp
    show ?thesis using 1 False m
      by (simp only: decimal.simps [of n] if_False digits_value_append digits_value.simps) simp
  qed
qed

lemma isdigit_decimal: "list_all isdigit (decimal n)"
proof (induction n rule: decimal.induct)
  case (1 n)
  have d: "isdigit (of_nat (48 + d))" if "d < 10" for d
    using of_nat_digit [OF that] that by (simp add: isdigit_def word_le_nat_alt)
  show ?case
  proof (cases "n < 10")
    case True
    then show ?thesis using d [OF True] by (simp only: decimal.simps [of n] if_True list_all_iff list.set) simp
  next
    case False
    then show ?thesis using 1 d [of "n mod 10"] by (simp only: decimal.simps [of n] if_False list_all_append list_all_iff list.set) simp
  qed
qed

lemma decimal_ne [simp]: "decimal n \<noteq> []"
  by (subst decimal.simps) simp

lemma digit_range: "isdigit c \<Longrightarrow> c \<noteq> 0 \<and> c \<noteq> 10 \<and> c \<noteq> 13 \<and> c \<noteq> 32 \<and> c \<noteq> 43 \<and> c \<noteq> 45 \<and> c \<noteq> 46 \<and> \<not> isspace c"
  by (auto simp: isdigit_def isspace_def word_le_nat_alt)

lemma decimal_chars: "c \<in> set (decimal n) \<Longrightarrow> isdigit c"
  using isdigit_decimal [of n] by (simp add: list_all_iff)

lemma c_str_decimal: "c_str (decimal n @ rest) = decimal n @ c_str rest"
  unfolding c_str_def by (rule takeWhile_append2) (use decimal_chars digit_range in blast)

lemma scan_decimal:
  assumes "rest = [] \<or> \<not> isdigit (hd rest)" "c_str rest = rest"
  shows "scan_number (decimal n @ rest) = Some (False, n, rest)"
proof -
  obtain d ds where d: "decimal n = d # ds" by (cases "decimal n") auto
  have hd: "isdigit d" using decimal_chars [of d n] d by simp
  have tw: "takeWhile isdigit (decimal n @ rest) = decimal n" "dropWhile isdigit (decimal n @ rest) = rest"
    using assms(1) decimal_chars by (cases rest; simp add: takeWhile_append dropWhile_append)+
  have "dropWhile isspace (decimal n @ rest) = decimal n @ rest" using digit_range [OF hd] by (simp add: d)
  moreover have "hd (decimal n @ rest) \<noteq> 45" "hd (decimal n @ rest) \<noteq> 43" using digit_range [OF hd] by (simp_all add: d)
  ultimately show ?thesis
    by (simp add: scan_number_def Let_def c_str_decimal assms(2) tw digits_decimal)
qed

lemma stoull_decimal: "n < 2 ^ 64 \<Longrightarrow> stoull (decimal n) = Some n"
  using scan_decimal [of "[]" n] by (simp add: stoull_def c_str_def)

lemma version_nibbles: "(word_of_int (push_bit 4 (uint (drop_bit 4 v)) OR uint (v AND 0x0F)) :: byte) = v"
proof -
  have m: "(0x0F :: byte) = mask 4" by (simp add: mask_eq_exp_minus_1)
  show ?thesis unfolding m by (rule bit_word_eqI) (auto simp: bit_simps)
qed

lemma parse_version: "parseHttpVersion (version_text v) = v"
proof -
  let ?a = "unat (drop_bit 4 v)" and ?b = "unat (v AND 0x0F)"
  have small: "?a < 256" "?b < 256" by (rule order_less_le_trans [OF unsigned_less], simp)+
  have h: "take 5 (version_text v) = text_of ''HTTP/''" "drop 5 (version_text v) = decimal ?a @ 46 # decimal ?b"
    by (simp_all add: version_text_def text_of_def)
  have nz: "x \<noteq> 0" if "x \<in> set (decimal n)" for x n using digit_range [OF decimal_chars [OF that]] by blast
  have c: "c_str (decimal ?b) = decimal ?b" "c_str (version_text v) = version_text v"
    unfolding c_str_def takeWhile_eq_all_conv using nz by (auto simp: version_text_def text_of_def)
  have d: "drop 5 (c_str (version_text v)) = decimal ?a @ 46 # decimal ?b" using c h by simp
  have s1: "scan_number (decimal ?a @ 46 # decimal ?b) = Some (False, ?a, 46 # decimal ?b)"
    by (rule scan_decimal) (use c in \<open>simp_all add: isdigit_def c_str_def\<close>)
  have s2: "scan_number (decimal ?b) = Some (False, ?b, [])"
    using scan_decimal [of "[]" ?b] by (simp add: c_str_def)
  have l: "\<not> length (version_text v) < 5" by (simp add: version_text_def text_of_def)
  show ?thesis
    using small by (simp add: parseHttpVersion_def h(1) l d strtol_def s1 s2 min_def version_nibbles)
qed

section \<open>Lines\<close>

context incremental
begin

lemma loop_chars:
  "10 \<notin> set l \<Longrightarrow> \<not> ps_finished p \<Longrightarrow> \<not> hasError p \<Longrightarrow> ps_state p \<noteq> Body \<Longrightarrow>
   length (ps_line p) + length l \<le> MAX_LINE_SIZE \<Longrightarrow>
   execute_loop processLine addBody pos (l @ rest) p =
     execute_loop processLine addBody (pos + length l) rest (p\<lparr> ps_line := ps_line p @ l \<rparr>)"
proof (induction l arbitrary: pos p)
  case (Cons c l)
  let ?p = "p\<lparr> ps_line := ps_line p @ [c] \<rparr>"
  have f: "feed_byte processLine c p = ?p" using Cons.prems by (auto simp: feed_byte_def)
  have "execute_loop processLine addBody (Suc pos) (l @ rest) ?p =
      execute_loop processLine addBody (Suc pos + length l) rest (?p\<lparr> ps_line := ps_line ?p @ l \<rparr>)"
    by (rule Cons.IH) (use Cons.prems in \<open>auto simp: hasError_def\<close>)
  then show ?case using loop_line [of p pos c "l @ rest"] Cons.prems f by simp
qed simp

lemma loop_full_line:
  assumes "10 \<notin> set l" "\<not> ps_finished p" "\<not> hasError p" "ps_state p \<noteq> Body" "ps_line p = []"
    and "length l < MAX_LINE_SIZE"
  shows "execute_loop processLine addBody pos (l @ crlf @ rest) p =
    execute_loop processLine addBody (pos + length (l @ crlf)) rest ((processLine l (p\<lparr> ps_line := l \<rparr>))\<lparr> ps_line := [] \<rparr>)"
proof -
  let ?p = "p\<lparr> ps_line := l @ [13] \<rparr>"
  have "execute_loop processLine addBody pos ((l @ [13]) @ 10 # rest) p =
      execute_loop processLine addBody (pos + length (l @ [13])) (10 # rest) (p\<lparr> ps_line := ps_line p @ (l @ [13]) \<rparr>)"
    by (rule loop_chars) (use assms in auto)
  also have "\<dots> = execute_loop processLine addBody (Suc (pos + length (l @ [13]))) rest (feed_byte processLine 10 ?p)"
    using assms loop_line [of ?p "pos + length (l @ [13])" 10 rest] by (simp add: hasError_def)
  finally show ?thesis by (simp add: crlf_def feed_byte_def)
qed

end

lemma trimLeft_value: "v = [] \<or> hd v \<notin> {32, 9} \<Longrightarrow> trimLeftBlank (32 # v) = v"
  by (cases v) (auto simp: trimLeftBlank_def find_first_not_of_def Let_def)

definition value_ok :: "byte list \<Rightarrow> bool" where
  "value_ok v \<longleftrightarrow> 10 \<notin> set v \<and> (v = [] \<or> hd v \<notin> {32, 9})"

definition header_ok :: "byte list \<times> byte list \<Rightarrow> bool" where
  "header_ok kv \<longleftrightarrow> {10, 58} \<inter> set (fst kv) = {} \<and> value_ok (snd kv) \<and> length (fst kv) + length (snd kv) + 2 < MAX_LINE_SIZE"

definition ready :: "'d parser \<Rightarrow> bool" where
  "ready p \<longleftrightarrow> ps_state p = Headers \<and> ps_line p = [] \<and> \<not> ps_finished p \<and> ps_error p = 0"

lemma header_line_step:
  assumes "ready p" "header_ok (k, v)"
  shows "execute_loop rqp_processLine rq_addBody pos ((k @ text_of '': '' @ v) @ crlf @ rest) p =
    execute_loop rqp_processLine rq_addBody (pos + length ((k @ text_of '': '' @ v) @ crlf)) rest
      (p\<lparr> ps_data := rq_setHeader k v (ps_data p) \<rparr>)"
proof -
  have t: "text_of '': '' = [58, 32]" by (simp add: text_of_def)
  let ?l = "k @ 58 # 32 # v"
  have "find_from 58 ?l 0 = Some (length k)" using assms find_from_hit [of 58 k "[]" "32 # v"] by (auto simp: header_ok_def)
  then have pl: "(rqp_processLine ?l (p\<lparr> ps_line := ?l \<rparr>))\<lparr> ps_line := [] \<rparr> = p\<lparr> ps_data := rq_setHeader k v (ps_data p) \<rparr>"
    using assms by (simp add: rqp_processLine_def rqp_parseHeaderLine_def ready_def substr_def trimLeft_value header_ok_def value_ok_def)
  have "execute_loop rqp_processLine rq_addBody pos (?l @ crlf @ rest) p =
      execute_loop rqp_processLine rq_addBody (pos + length (?l @ crlf)) rest
        ((rqp_processLine ?l (p\<lparr> ps_line := ?l \<rparr>))\<lparr> ps_line := [] \<rparr>)"
    by (rule rqi.loop_full_line) (use assms in \<open>auto simp: ready_def header_ok_def value_ok_def hasError_def\<close>)
  then show ?thesis unfolding pl t by simp
qed

definition set_headers :: "cimap \<Rightarrow> http_request \<Rightarrow> http_request" where
  "set_headers hs d = fold (\<lambda>(k, v). rq_setHeader k v) hs d"

definition plain :: "cimap \<Rightarrow> cimap" where
  "plain m = filter (\<lambda>(a, b). ci_key a \<noteq> text_of ''connection'') m"

lemma header_lines_step:
  "list_all header_ok m \<Longrightarrow> ready p \<Longrightarrow>
   execute_loop rqp_processLine rq_addBody pos (header_lines False m @ rest) p =
   execute_loop rqp_processLine rq_addBody (pos + length (header_lines False m)) rest
     (p\<lparr> ps_data := set_headers (plain m) (ps_data p) \<rparr>)"
proof (induction m arbitrary: pos p)
  case Nil
  then show ?case by (simp add: header_lines_def set_headers_def plain_def)
next
  case (Cons kv m)
  obtain k v where kv: "kv = (k, v)" by (cases kv)
  show ?case
  proof (cases "ci_key k = text_of ''connection''")
    case True
    then have "header_lines False (kv # m) = header_lines False m" "plain (kv # m) = plain m"
      using kv by (simp_all add: header_lines_def plain_def)
    then show ?thesis using Cons by simp
  next
    case False
    let ?p = "p\<lparr> ps_data := rq_setHeader k v (ps_data p) \<rparr>"
    have h: "header_lines False (kv # m) @ rest = (k @ text_of '': '' @ v) @ crlf @ (header_lines False m @ rest)"
      "length (header_lines False (kv # m)) = length ((k @ text_of '': '' @ v) @ crlf) + length (header_lines False m)"
      "set_headers (plain (kv # m)) d = set_headers (plain m) (rq_setHeader k v d)" for d
      using False kv by (simp_all add: header_lines_def plain_def set_headers_def)
    have "ready ?p" using Cons.prems by (simp add: ready_def)
    then show ?thesis
      using header_line_step [of p k v pos "header_lines False m @ rest"] Cons.prems kv
        Cons.IH [of ?p "pos + length ((k @ text_of '': '' @ v) @ crlf)"] unfolding h by (simp add: add.assoc)
  qed
qed

section \<open>The request line\<close>

lemma method_chars:
  "m \<noteq> InvalidMethod \<Longrightarrow> m \<noteq> M_Msearch \<Longrightarrow> 10 \<notin> set (httpMethodToString m) \<and> 32 \<notin> set (httpMethodToString m)"
  by (cases m) (simp_all add: method_defs)

definition target :: "http_request \<Rightarrow> byte list" where
  "target r = rq_path r @ (if rq_query r = [] then [] else 63 # rq_query r)
    @ (if rq_fragment r = [] then [] else 35 # rq_fragment r)"

definition request_line :: "http_request \<Rightarrow> byte list" where
  "request_line r = httpMethodToString (rq_method r) @ 32 # target r @ 32 # version_text (rq_version r)"

text \<open>
  What a request must satisfy for its text to be read back: the method has a name without spaces, the
  parts of the target lack the characters that end them, and every line fits the parser's limit.
\<close>

definition dumpable :: "http_request \<Rightarrow> bool" where
  "dumpable r \<longleftrightarrow>
    rq_method r \<noteq> InvalidMethod \<and> rq_method r \<noteq> M_Msearch \<and> \<not> rq_websocket r \<and>
    {10, 32, 35, 63} \<inter> set (rq_path r) = {} \<and> {10, 32, 35} \<inter> set (rq_query r) = {} \<and>
    {10, 32} \<inter> set (rq_fragment r) = {} \<and> length (request_line r) < MAX_LINE_SIZE \<and>
    cm_ok (rq_headers r) \<and> list_all header_ok (rq_headers r) \<and> length (rq_body r) < 2 ^ 64 \<and>
    (rq_body r = [] \<longrightarrow> cm_find (rq_headers r) (text_of ''content-length'') = None)"

lemma find_from_0:
  "c \<notin> set a \<Longrightarrow> find_from c (a @ c # r) 0 = Some (length a)" "c \<notin> set a \<Longrightarrow> find_from c a 0 = None"
  using find_from_hit [of c a "[]" r] find_from_miss [of c a "[]"] by simp_all

lemma version_chars: "10 \<notin> set (version_text v)"
  using decimal_chars digit_range by (fastforce simp: version_text_def text_of_def)

lemma parse_request_line:
  assumes "dumpable r" "rq_query (ps_data p) = []" "rq_fragment (ps_data p) = []"
  shows "parseRequestLine (request_line r) p =
    p\<lparr> ps_data := (ps_data p)\<lparr> rq_method := rq_method r, rq_version := rq_version r, rq_path := rq_path r,
         rq_query := rq_query r, rq_fragment := rq_fragment r \<rparr>, ps_state := Headers \<rparr>"
proof -
  let ?m = "httpMethodToString (rq_method r)" and ?v = "version_text (rq_version r)"
  have m: "32 \<notin> set ?m" using assms(1) method_chars by (auto simp: dumpable_def)
  have meth: "charsToHttpMethod ?m = rq_method r"
    using method_round_trip [of "rq_method r" "[]"] assms(1) by (simp add: dumpable_def)
  have t: "32 \<notin> set (target r)" using assms(1) by (auto simp: dumpable_def target_def)
  have s1: "find_from 32 (request_line r) 0 = Some (length ?m)" unfolding request_line_def by (rule find_from_0(1) [OF m])
  have s2: "find_from 32 (request_line r) (length ?m + 1) = Some (length ?m + 1 + length (target r))"
    using find_from_hit [OF t, of "?m @ [32]" ?v] by (simp add: request_line_def)
  have u: "substr (request_line r) (length ?m + 1) (length ?m + 1 + length (target r) - length ?m - 1) = target r"
    "drop (length ?m + 1 + length (target r) + 1) (request_line r) = ?v" "substr (request_line r) 0 (length ?m) = ?m"
    by (simp_all add: request_line_def substr_def)
  define q where "q = rq_path r @ (if rq_query r = [] then [] else 63 # rq_query r)"
  have q: "35 \<notin> set q" "63 \<notin> set (rq_path r)" using assms(1) by (auto simp: dumpable_def q_def)
  have tq: "target r = q @ (if rq_fragment r = [] then [] else 35 # rq_fragment r)" by (simp add: target_def q_def)
  have h: "(case find_from 35 (target r) 0 of None \<Rightarrow> (target r, d)
      | Some h \<Rightarrow> (take h (target r), d\<lparr> rq_fragment := drop (h + 1) (target r) \<rparr>)) = (q, d\<lparr> rq_fragment := rq_fragment r \<rparr>)"
    if "rq_fragment d = []" for d
  proof (cases "rq_fragment r = []")
    case True
    then show ?thesis using that find_from_0(2) [OF q(1)] by (cases d) (simp add: tq)
  next
    case False
    then show ?thesis using find_from_0(1) [OF q(1), of "rq_fragment r"] by (simp add: tq)
  qed
  have p: "(case find_from 63 q 0 of None \<Rightarrow> d\<lparr> rq_path := q \<rparr>
      | Some k \<Rightarrow> d\<lparr> rq_query := drop (k + 1) q, rq_path := take k q \<rparr>) = d\<lparr> rq_query := rq_query r, rq_path := rq_path r \<rparr>"
    if "rq_query d = []" for d
  proof (cases "rq_query r = []")
    case True
    then show ?thesis using that find_from_0(2) [OF q(2)] by (cases d) (simp add: q_def)
  next
    case False
    then show ?thesis using find_from_0(1) [OF q(2), of "rq_query r"] by (simp add: q_def)
  qed
  show ?thesis
    unfolding parseRequestLine_def s1 option.case s2 Let_def u meth parse_version
    using assms(2,3) by (simp add: h p)
qed

section \<open>A whole request\<close>

definition conn_value :: "bool \<Rightarrow> byte list" where
  "conn_value close = text_of (if close then ''close'' else ''keep-alive'')"

text \<open>The headers the parser collects from the text of a request.\<close>

definition read_headers :: "http_request \<Rightarrow> cimap" where
  "read_headers r =
    (let hs = fold (\<lambda>(k, v). cm_set k v) (plain (rq_headers r))
                (cm_set (text_of ''connection'') (conn_value (rq_close r)) [])
     in if rq_body r = [] then hs else cm_set (text_of ''content-length'') (decimal (length (rq_body r))) hs)"

definition read_request :: "http_request \<Rightarrow> http_request" where
  "read_request r = (new_HttpRequest 0x11 True)\<lparr> rq_method := rq_method r, rq_version := rq_version r,
     rq_path := rq_path r, rq_query := rq_query r, rq_fragment := rq_fragment r, rq_body := rq_body r,
     rq_headers := read_headers r \<rparr>"

lemma rq_dump_lines:
  "\<not> rq_websocket r \<Longrightarrow> rq_dump r = request_line r @ crlf
     @ (text_of ''connection'' @ text_of '': '' @ conn_value (rq_close r)) @ crlf
     @ header_lines False (rq_headers r) @ body_text (rq_body r)"
  by (simp add: rq_dump_def request_line_def target_def connection_line_def conn_value_def text_of_def)

lemma set_headers_data: "set_headers hs d = d\<lparr> rq_headers := fold (\<lambda>(k, v). cm_set k v) hs (rq_headers d) \<rparr>"
  by (induction hs arbitrary: d) (auto simp: set_headers_def rq_setHeader_def)

lemma find_fold_set:
  "cm_ok hs \<Longrightarrow> cm_find (fold (\<lambda>(k, v). cm_set k v) hs m) k = (case cm_find hs k of None \<Rightarrow> cm_find m k | Some v \<Rightarrow> Some v)"
proof (induction hs arbitrary: m)
  case (Cons p hs)
  obtain a b where p: "p = (a, b)" by (cases p)
  have "ci_key k = ci_key a \<Longrightarrow> cm_find hs k = None"
    using cm_absent [of hs a] Cons.prems cm_find_cong [of k a hs] by (simp add: p cm_ok_Cons)
  then show ?case using Cons p by (auto simp: cm_ok_Cons cm_find_Cons cm_find_set split: option.splits)
qed simp

lemma find_plain: "ci_key k \<noteq> text_of ''connection'' \<Longrightarrow> cm_find (plain m) k = cm_find m k"
  by (induction m) (auto simp: plain_def cm_find_Cons)

lemma cm_ok_plain: "cm_ok m \<Longrightarrow> cm_ok (plain m)"
  by (induction m) (auto simp: plain_def cm_ok_Cons)

lemma name_keys: "ci_key (text_of ''content-length'') = text_of ''content-length''" "ci_key (text_of ''connection'') = text_of ''connection''"
  by (simp_all add: ci_key_def c_str_def toLower_def text_of_def)

lemma plain_no_connection: "cm_find (plain m) (text_of ''connection'') = None"
  by (induction m) (auto simp: plain_def cm_find_Cons name_keys)

lemma length_decimal: "n < 10 ^ Suc k \<Longrightarrow> length (decimal n) \<le> Suc k"
proof (induction k arbitrary: n)
  case 0
  then show ?case by (simp add: decimal.simps [of n])
next
  case (Suc k)
  show ?case
  proof (cases "n < 10")
    case False
    have "n div 10 < 10 ^ Suc k" using Suc.prems by (simp add: less_mult_imp_div_less mult.commute)
    then show ?thesis using Suc.IH [of "n div 10"] False by (simp add: decimal.simps [of n])
  qed (simp add: decimal.simps [of n])
qed

lemma blank_line_step:
  assumes "ready p"
  shows "execute_loop rqp_processLine rq_addBody pos (crlf @ rest) p =
    execute_loop rqp_processLine rq_addBody (pos + 2) rest
      (if 0 < rqp_getContentLength p then p\<lparr> ps_bodyRemaining := rqp_getContentLength p, ps_state := Body \<rparr>
       else p\<lparr> ps_finished := True, ps_state := Done \<rparr>)"
proof -
  have e: "p\<lparr> ps_line := [] \<rparr> = p" using assms by (cases p) (simp add: ready_def)
  have "execute_loop rqp_processLine rq_addBody pos ([] @ crlf @ rest) p =
      execute_loop rqp_processLine rq_addBody (pos + length ([] @ crlf)) rest ((rqp_processLine [] (p\<lparr> ps_line := [] \<rparr>))\<lparr> ps_line := [] \<rparr>)"
    by (rule rqi.loop_full_line) (use assms in \<open>simp_all add: ready_def hasError_def MAX_LINE_SIZE_def\<close>)
  moreover have "(rqp_processLine [] p)\<lparr> ps_line := [] \<rparr> =
      (if 0 < rqp_getContentLength p then p\<lparr> ps_bodyRemaining := rqp_getContentLength p, ps_state := Body \<rparr>
       else p\<lparr> ps_finished := True, ps_state := Done \<rparr>)"
    using assms by (cases p) (simp add: rqp_processLine_def rqp_parseHeaderLine_def ready_def Let_def)
  ultimately show ?thesis unfolding e by (simp add: crlf_def)
qed

lemma decimal_value_ok: "value_ok (decimal n)"
proof -
  have "isdigit (hd (decimal n))" by (rule decimal_chars [of _ n]) simp
  then show ?thesis using decimal_chars [of 10 n] digit_range [of "hd (decimal n)"] digit_range [of 10]
    by (auto simp: value_ok_def isspace_def)
qed

lemma body_step:
  assumes "ready p" "rq_body (ps_data p) = []" "length body < 2 ^ 64"
    and "body = [] \<Longrightarrow> cm_find (rq_headers (ps_data p)) (text_of ''content-length'') = None"
  shows "\<exists>q. execute_loop rqp_processLine rq_addBody pos (body_text body @ extra) p = (pos + length (body_text body), q) \<and>
    ps_finished q \<and> \<not> hasError q \<and>
    ps_data q = (if body = [] then ps_data p
      else (rq_setHeader (text_of ''content-length'') (decimal (length body)) (ps_data p))\<lparr> rq_body := body \<rparr>)"
proof (cases "body = []")
  case True
  have "rqp_getContentLength p = 0" using assms(4) True by (simp add: rqp_getContentLength_def rq_getHeader_def cm_get_def)
  then show ?thesis
    using blank_line_step [OF assms(1), of pos extra] True assms(1)
    by (simp add: body_text_def rqi.loop_stop crlf_def ready_def hasError_def)
next
  case False
  let ?k = "text_of ''content-length''" and ?n = "decimal (length body)"
  let ?p = "p\<lparr> ps_data := rq_setHeader ?k ?n (ps_data p) \<rparr>"
  have n: "length ?n \<le> Suc 19" by (rule length_decimal) (use assms(3) in simp)
  have hok: "header_ok (?k, ?n)"
    using n decimal_value_ok by (simp add: header_ok_def MAX_LINE_SIZE_def text_of_def)
  have r: "ready ?p" using assms(1) by (simp add: ready_def)
  have len: "rqp_getContentLength ?p = length body"
    using stoull_decimal [OF assms(3)] by (simp add: rqp_getContentLength_def rq_getHeader_def cm_get_def rq_setHeader_def cm_find_set)
  let ?b = "?p\<lparr> ps_bodyRemaining := length body, ps_state := Body \<rparr>"
  let ?q = "?b\<lparr> ps_data := rq_addBody body (ps_data ?p), ps_bodyRemaining := 0, ps_finished := True, ps_state := Done \<rparr>"
  have t: "body_text body @ extra = (?k @ text_of '': '' @ ?n) @ crlf @ (crlf @ (body @ extra))"
    "length (body_text body) = length ((?k @ text_of '': '' @ ?n) @ crlf) + 2 + length body"
    using False by (simp_all add: body_text_def text_of_def crlf_def)
  let ?pos = "pos + length ((?k @ text_of '': '' @ ?n) @ crlf)"
  have "execute_loop rqp_processLine rq_addBody pos (body_text body @ extra) p =
      execute_loop rqp_processLine rq_addBody (?pos + 2) (body @ extra) ?b"
    unfolding t header_line_step [OF assms(1) hok] blank_line_step [OF r] len using False by simp
  also have "\<dots> = (?pos + 2 + length body, ?q)"
    using False r by (subst rqi.loop_body) (simp_all add: ready_def hasError_def Let_def)
  finally show ?thesis using t(2) False r assms(2)
    by (intro exI [of _ ?q]) (simp add: ready_def hasError_def rq_addBody_def rq_setHeader_def)
qed

lemma read_request_headers:
  assumes "dumpable r"
  shows "ci_key k \<noteq> text_of ''connection'' \<Longrightarrow> ci_key k \<noteq> text_of ''content-length'' \<Longrightarrow>
      cm_find (read_headers r) k = cm_find (rq_headers r) k"
    and "cm_find (read_headers r) (text_of ''connection'') = Some (conn_value (rq_close r))"
proof -
  have ok: "cm_ok (plain (rq_headers r))" using assms by (simp add: dumpable_def cm_ok_plain)
  show "cm_find (read_headers r) k = cm_find (rq_headers r) k"
    if "ci_key k \<noteq> text_of ''connection''" "ci_key k \<noteq> text_of ''content-length''"
    using that by (simp add: read_headers_def Let_def cm_find_set find_fold_set [OF ok] find_plain cm_find_Cons name_keys split: option.split)
  have "text_of ''connection'' \<noteq> text_of ''content-length''" by (simp add: text_of_def)
  then show "cm_find (read_headers r) (text_of ''connection'') = Some (conn_value (rq_close r))"
    by (simp add: read_headers_def Let_def cm_find_set find_fold_set [OF ok] plain_no_connection cm_find_Cons name_keys)
qed

lemma read_request_init:
  "dumpable r \<Longrightarrow> rq_init (read_request r) = (read_request r)\<lparr> rq_close := rq_close r \<rparr>"
  using read_request_headers(2) [of r]
  by (simp add: rq_init_def rq_getHeader_def cm_get_def read_request_def)
     (simp add: conn_value_def ci_key_def c_str_def toLower_def text_of_def)

lemma connection_ok: "header_ok (text_of ''connection'', conn_value close)"
  by (simp add: header_ok_def value_ok_def conn_value_def text_of_def MAX_LINE_SIZE_def)

text \<open>The text before the body, and the parser after it.\<close>

definition head_text :: "http_request \<Rightarrow> byte list" where
  "head_text r = request_line r @ crlf
     @ (text_of ''connection'' @ text_of '': '' @ conn_value (rq_close r)) @ crlf @ header_lines False (rq_headers r)"

definition head_headers :: "http_request \<Rightarrow> cimap" where
  "head_headers r = fold (\<lambda>(k, v). cm_set k v) (plain (rq_headers r))
      (cm_set (text_of ''connection'') (conn_value (rq_close r)) [])"

definition head_parser :: "http_request \<Rightarrow> http_request parser" where
  "head_parser r = new_HttpRequestParser\<lparr> ps_data := (new_HttpRequest 0x11 True)\<lparr> rq_method := rq_method r,
     rq_version := rq_version r, rq_path := rq_path r, rq_query := rq_query r, rq_fragment := rq_fragment r,
     rq_headers := head_headers r \<rparr>, ps_state := Headers \<rparr>"

lemma new_parser_fields:
  "ps_state new_HttpRequestParser = FirstLine" "ps_line new_HttpRequestParser = []" "\<not> ps_finished new_HttpRequestParser"
  "ps_error new_HttpRequestParser = 0" "ps_data new_HttpRequestParser = new_HttpRequest 0x11 True"
  by (simp_all add: new_HttpRequestParser_def new_parser_def)

lemma rqp_execute_head:
  assumes "dumpable r"
  shows "execute_loop rqp_processLine rq_addBody 0 (head_text r @ rest) new_HttpRequestParser =
    execute_loop rqp_processLine rq_addBody (length (head_text r)) rest (head_parser r)"
proof -
  let ?p0 = new_HttpRequestParser
  let ?d1 = "(new_HttpRequest 0x11 True)\<lparr> rq_method := rq_method r, rq_version := rq_version r, rq_path := rq_path r,
         rq_query := rq_query r, rq_fragment := rq_fragment r \<rparr>"
  let ?p1 = "?p0\<lparr> ps_data := ?d1, ps_state := Headers \<rparr>"
  let ?c = "text_of ''connection'' @ text_of '': '' @ conn_value (rq_close r)"
  let ?p2 = "?p1\<lparr> ps_data := rq_setHeader (text_of ''connection'') (conn_value (rq_close r)) ?d1 \<rparr>"
  let ?hs = "header_lines False (rq_headers r)"
  have ne: "10 \<notin> set (request_line r)"
    using assms method_chars [of "rq_method r"] version_chars [of "rq_version r"]
    by (auto simp: request_line_def target_def dumpable_def)
  have l1: "(rqp_processLine (request_line r) (?p0\<lparr> ps_line := request_line r \<rparr>))\<lparr> ps_line := [] \<rparr> = ?p1"
    using parse_request_line [OF assms, of "?p0\<lparr> ps_line := request_line r \<rparr>"]
    by (simp add: rqp_processLine_def new_HttpRequest_def new_HttpRequestParser_def new_parser_def)
  have "execute_loop rqp_processLine rq_addBody 0 (request_line r @ crlf @ (?c @ crlf @ ?hs @ rest)) ?p0 =
      execute_loop rqp_processLine rq_addBody (0 + length (request_line r @ crlf)) (?c @ crlf @ ?hs @ rest) ?p1"
    unfolding l1 [symmetric]
    by (rule rqi.loop_full_line) (use assms ne new_parser_fields in \<open>simp_all add: dumpable_def hasError_def\<close>)
  also have "\<dots> = execute_loop rqp_processLine rq_addBody (length (request_line r @ crlf) + length (?c @ crlf)) (?hs @ rest) ?p2"
    using header_line_step [OF _ connection_ok, of ?p1 "length (request_line r @ crlf)" "rq_close r" "?hs @ rest"] new_parser_fields
    by (simp add: ready_def)
  also have "\<dots> = execute_loop rqp_processLine rq_addBody (length (request_line r @ crlf) + length (?c @ crlf) + length ?hs) rest
      (?p2\<lparr> ps_data := set_headers (plain (rq_headers r)) (ps_data ?p2) \<rparr>)"
    by (rule header_lines_step) (use assms new_parser_fields in \<open>simp_all add: dumpable_def ready_def\<close>)
  also have "?p2\<lparr> ps_data := set_headers (plain (rq_headers r)) (ps_data ?p2) \<rparr> = head_parser r"
    by (simp add: head_parser_def head_headers_def set_headers_data rq_setHeader_def new_HttpRequest_def)
  finally show ?thesis by (simp add: head_text_def add.assoc)
qed

lemma head_no_length:
  assumes "dumpable r" "rq_body r = []"
  shows "cm_find (head_headers r) (text_of ''content-length'') = None"
proof -
  have "text_of ''connection'' \<noteq> text_of ''content-length''" by (simp add: text_of_def)
  then show ?thesis
    using assms by (simp add: head_headers_def find_fold_set cm_ok_plain find_plain cm_find_Cons name_keys dumpable_def)
qed

lemma rqp_execute_dump:
  assumes "dumpable r"
  shows "\<exists>q. rqp_execute (rq_dump r @ extra) new_HttpRequestParser = (length (rq_dump r), q) \<and>
    ps_finished q \<and> \<not> hasError q \<and> ps_data q = read_request r"
proof -
  have d: "rq_dump r = head_text r @ body_text (rq_body r)"
    using assms by (simp add: rq_dump_lines head_text_def dumpable_def)
  have ready: "ready (head_parser r)" "rq_body (ps_data (head_parser r)) = []" "rq_headers (ps_data (head_parser r)) = head_headers r"
    using new_parser_fields by (simp_all add: head_parser_def ready_def new_HttpRequest_def)
  have "\<exists>q. execute_loop rqp_processLine rq_addBody (length (head_text r)) (body_text (rq_body r) @ extra) (head_parser r) =
        (length (head_text r) + length (body_text (rq_body r)), q) \<and> ps_finished q \<and> \<not> hasError q \<and>
      ps_data q = (if rq_body r = [] then ps_data (head_parser r)
        else (rq_setHeader (text_of ''content-length'') (decimal (length (rq_body r))) (ps_data (head_parser r)))\<lparr> rq_body := rq_body r \<rparr>)"
    by (rule body_step) (use ready assms head_no_length in \<open>simp_all add: dumpable_def\<close>)
  then obtain q where q: "execute_loop rqp_processLine rq_addBody (length (head_text r)) (body_text (rq_body r) @ extra) (head_parser r) =
        (length (head_text r) + length (body_text (rq_body r)), q)" "ps_finished q" "\<not> hasError q"
    and dat: "ps_data q = (if rq_body r = [] then ps_data (head_parser r)
        else (rq_setHeader (text_of ''content-length'') (decimal (length (rq_body r))) (ps_data (head_parser r)))\<lparr> rq_body := rq_body r \<rparr>)"
    by blast
  have "ps_data q = read_request r" unfolding dat
    by (simp add: read_request_def read_headers_def head_parser_def head_headers_def rq_setHeader_def new_HttpRequest_def Let_def)
  then show ?thesis using q by (simp add: rqp_execute_def d rqp_execute_head [OF assms])
qed

section \<open>Properties\<close>

text \<open>
  C13: Parsing is incremental: for every way of cutting the input into pieces and every state of the
  parser, feeding the pieces one after the other ends in the same parser and consumes the same
  number of bytes as feeding the whole input at once, for requests and for responses.
\<close>

theorem http_parse_pieces:
  "foldl (\<lambda>(n, p) s. case rqp_execute s p of (m, p') \<Rightarrow> (n + m, p')) (0, p) pieces = rqp_execute (concat pieces) p \<and>
   foldl (\<lambda>(n, p) s. case rsp_execute s p of (m, p') \<Rightarrow> (n + m, p')) (0, q) pieces = rsp_execute (concat pieces) q"
  unfolding rqp_execute_def rsp_execute_def rqi.loop_chunks rsi.loop_chunks by simp

text \<open>
  C12: A request survives printing and parsing. The text of a request, in whatever pieces and followed
  by whatever bytes, is parsed without an error; exactly its bytes are consumed; and after \<open>init\<close> the
  parsed request has the method, version, path, query, fragment, body and connection mode of the
  original and all its headers except the two that the text form writes itself.
\<close>

theorem http_request_round_trip:
  assumes "dumpable r" "concat pieces = rq_dump r @ extra"
  shows "case foldl (\<lambda>(n, p) s. case rqp_execute s p of (m, p') \<Rightarrow> (n + m, p')) (0, new_HttpRequestParser) pieces of
     (n, p) \<Rightarrow> let q = rq_init (ps_data p) in
       n = length (rq_dump r) \<and> ps_finished p \<and> \<not> hasError p \<and>
       rq_method q = rq_method r \<and> rq_version q = rq_version r \<and> rq_path q = rq_path r \<and> rq_query q = rq_query r \<and>
       rq_fragment q = rq_fragment r \<and> rq_body q = rq_body r \<and> rq_close q = rq_close r \<and>
       (\<forall>k. ci_key k \<noteq> text_of ''connection'' \<longrightarrow> ci_key k \<noteq> text_of ''content-length'' \<longrightarrow>
         rq_hasHeader k q = rq_hasHeader k r)"
proof -
  have f: "foldl (\<lambda>(n, p) s. case rqp_execute s p of (m, p') \<Rightarrow> (n + m, p')) (0, new_HttpRequestParser) pieces =
      rqp_execute (rq_dump r @ extra) new_HttpRequestParser"
    unfolding rqp_execute_def rqi.loop_chunks assms(2) ..
  obtain q where q: "rqp_execute (rq_dump r @ extra) new_HttpRequestParser = (length (rq_dump r), q)"
    "ps_finished q" "\<not> hasError q" "ps_data q = read_request r"
    using rqp_execute_dump [OF assms(1), of extra] by blast
  show ?thesis
    unfolding f q(1) using q(2,3) read_request_headers [OF assms(1)]
    by (simp add: q(4) read_request_init [OF assms(1)] Let_def) (simp add: read_request_def rq_hasHeader_def)
qed

definition request_demo :: http_request where
  "request_demo = (new_HttpRequest 0x11 False)\<lparr> rq_query := [97, 61, 98], rq_body := [1, 2, 10] \<rparr>"

theorem http_request_round_trip_witness:
  "dumpable request_demo \<and>
   rq_body (rq_init (ps_data (snd (foldl (\<lambda>(n, p) s. case rqp_execute s p of (m, p') \<Rightarrow> (n + m, p'))
     (0, new_HttpRequestParser) [rq_dump request_demo])))) = [1, 2, 10]"
proof -
  have d: "dumpable request_demo"
    by (simp add: dumpable_def request_demo_def new_HttpRequest_def request_line_def target_def version_text_def
        decimal.simps MAX_LINE_SIZE_def method_defs)
  have b: "rq_body request_demo = [1, 2, 10]" by (simp add: request_demo_def)
  show ?thesis
    using d http_request_round_trip [OF d, of "[rq_dump request_demo]" "[]"] b
    by (simp only: concat.simps append_Nil2 Let_def split_beta)
qed

end
