(* ===== verification/ByteArray.thy ===== *)
theory ByteArray
  imports Prelude
begin

text \<open>
  The raw buffer of \<open>src/datastruct/bytearray.cpp\<close>: a linked list of chunks of \<open>_baseSize\<close>
  bytes with one cursor for reading and writing. The chain is the list of the chunks'
  contents; the pointer \<open>_cur\<close> is the index of its chunk, and the index \<open>length\<close> of the chain
  stands for the null pointer. Abstractly the buffer is a flat byte sequence with a cursor;
  the locale \<open>byte_store\<close> states that contract and the chunked buffer is shown to meet it.
\<close>

section \<open>State and construction\<close>

datatype endian = LittleEndian | BigEndian

record bytearray =
  ba_baseSize :: nat
  ba_position :: nat
  ba_capacity :: nat
  ba_size :: nat
  ba_endian :: endian
  ba_nodes :: "byte list list"
  ba_cur :: nat

definition new_Node :: "nat \<Rightarrow> byte list" where
  "new_Node s = replicate s 0"

definition new_ByteArray :: "nat \<Rightarrow> bytearray" where
  "new_ByteArray baseSize =
    \<lparr> ba_baseSize = baseSize, ba_position = 0, ba_capacity = baseSize, ba_size = 0,
      ba_endian = BigEndian, ba_nodes = [new_Node baseSize], ba_cur = 0 \<rparr>"

definition setIsLittleEndian :: "bool \<Rightarrow> bytearray \<Rightarrow> bytearray" where
  "setIsLittleEndian val ba = ba\<lparr> ba_endian := (if val then LittleEndian else BigEndian) \<rparr>"

definition isLittleEndian :: "bytearray \<Rightarrow> bool" where
  "isLittleEndian ba \<longleftrightarrow> ba_endian ba = LittleEndian"

definition getReadSize :: "bytearray \<Rightarrow> nat" where
  "getReadSize ba = usub64 (ba_size ba) (ba_position ba)"

definition getCapacity :: "bytearray \<Rightarrow> nat" where
  "getCapacity ba = usub64 (ba_capacity ba) (ba_position ba)"

section \<open>Capacity and position\<close>

definition addCapacity :: "nat \<Rightarrow> bytearray \<Rightarrow> bytearray" where
  "addCapacity sz ba =
    (if sz = 0 then ba
     else let oldCap = getCapacity ba in
       if sz \<le> oldCap then ba
       else let count = ceil_div (sz - oldCap) (ba_baseSize ba);
                first = length (ba_nodes ba) in
         ba\<lparr> ba_nodes := ba_nodes ba @ replicate count (new_Node (ba_baseSize ba)),
             ba_capacity := ba_capacity ba + count * ba_baseSize ba,
             ba_cur := (if oldCap = 0 then first else ba_cur ba) \<rparr>)"

definition ba_clear :: "bytearray \<Rightarrow> bytearray" where
  "ba_clear ba = ba\<lparr> ba_position := 0, ba_size := 0, ba_capacity := ba_baseSize ba,
                  ba_nodes := take 1 (ba_nodes ba), ba_cur := 0 \<rparr>"

text \<open>The walk of \<open>setPosition\<close> along the chain, from chunk \<open>i\<close>.\<close>

fun setPosition_walk :: "byte list list \<Rightarrow> nat \<Rightarrow> nat \<Rightarrow> nat result" where
  "setPosition_walk [] i v = Inl NullDeref"
| "setPosition_walk (n # ns) i v =
    (if length n < v then setPosition_walk ns (Suc i) (v - length n)
     else if v = length n then Inr (Suc i) else Inr i)"

definition setPosition :: "nat \<Rightarrow> bytearray \<Rightarrow> bytearray result" where
  "setPosition v ba =
    (if ba_capacity ba < v then Inl OutOfRange
     else bind_res (setPosition_walk (ba_nodes ba) 0 v) (\<lambda>cur.
       Inr (ba\<lparr> ba_position := v, ba_size := max (ba_size ba) v, ba_cur := cur \<rparr>)))"

section \<open>Raw reads and writes\<close>

function write_loop :: "byte list list \<Rightarrow> nat \<Rightarrow> nat \<Rightarrow> nat \<Rightarrow> nat \<Rightarrow> byte list
    \<Rightarrow> (byte list list \<times> nat \<times> nat) result" where
  "write_loop nodes cur pos nodeOffset nodeAvail buf =
    (if buf = [] then Inr (nodes, cur, pos)
     else if length nodes \<le> cur then Inl NullDeref
     else if length buf \<le> nodeAvail then
       Inr (nodes[cur := overwrite (nodes ! cur) nodeOffset buf],
            (if length (nodes ! cur) = nodeOffset + length buf then Suc cur else cur),
            pos + length buf)
     else if length nodes \<le> Suc cur then Inl NullDeref
     else write_loop (nodes[cur := overwrite (nodes ! cur) nodeOffset (take nodeAvail buf)])
            (Suc cur) (pos + nodeAvail) 0 (length (nodes ! Suc cur)) (drop nodeAvail buf))"
  by pat_completeness auto
termination
  by (relation "measure (\<lambda>(nodes, cur, pos, off, avail, buf). length nodes - cur)") auto

definition ba_write :: "byte list \<Rightarrow> bytearray \<Rightarrow> bytearray result" where
  "ba_write buf ba0 =
    (if buf = [] then Inr ba0
     else let ba = addCapacity (length buf) ba0 in
       if ba_baseSize ba = 0 then Inl DivByZero
       else if length (ba_nodes ba) \<le> ba_cur ba then Inl NullDeref
       else let nodeOffset = ba_position ba mod ba_baseSize ba;
                nodeAvail = usub64 (length (ba_nodes ba ! ba_cur ba)) nodeOffset in
         bind_res (write_loop (ba_nodes ba) (ba_cur ba) (ba_position ba) nodeOffset nodeAvail buf)
           (\<lambda>(nodes, cur, pos).
             Inr (ba\<lparr> ba_nodes := nodes, ba_cur := cur, ba_position := pos,
                      ba_size := max (ba_size ba) pos \<rparr>)))"

function read_loop :: "byte list list \<Rightarrow> nat \<Rightarrow> nat \<Rightarrow> nat \<Rightarrow> nat \<Rightarrow> nat
    \<Rightarrow> (byte list \<times> nat \<times> nat) result" where
  "read_loop nodes cur pos nodeOffset nodeAvail sz =
    (if sz = 0 then Inr ([], cur, pos)
     else if length nodes \<le> cur then Inl NullDeref
     else if sz \<le> nodeAvail then
       Inr (take sz (drop nodeOffset (nodes ! cur)),
            (if length (nodes ! cur) = nodeOffset + sz then Suc cur else cur),
            pos + sz)
     else if length nodes \<le> Suc cur then Inl NullDeref
     else bind_res (read_loop nodes (Suc cur) (pos + nodeAvail) 0 (length (nodes ! Suc cur))
                      (sz - nodeAvail))
            (\<lambda>(bs, cur', pos'). Inr (take nodeAvail (drop nodeOffset (nodes ! cur)) @ bs, cur', pos')))"
  by pat_completeness auto
termination
  by (relation "measure (\<lambda>(nodes, cur, pos, off, avail, sz). length nodes - cur)") auto

definition ba_read :: "nat \<Rightarrow> bytearray \<Rightarrow> (byte list \<times> bytearray) result" where
  "ba_read sz ba =
    (if getReadSize ba < sz then Inl OutOfRange
     else if ba_baseSize ba = 0 then Inl DivByZero
     else if length (ba_nodes ba) \<le> ba_cur ba then Inl NullDeref
     else let nodeOffset = ba_position ba mod ba_baseSize ba;
              nodeAvail = usub64 (length (ba_nodes ba ! ba_cur ba)) nodeOffset in
       bind_res (read_loop (ba_nodes ba) (ba_cur ba) (ba_position ba) nodeOffset nodeAvail sz)
         (\<lambda>(bs, cur, pos). Inr (bs, ba\<lparr> ba_cur := cur, ba_position := pos \<rparr>)))"

text \<open>The \<open>const\<close> overload that reads at a position of the caller's and leaves the cursor alone.\<close>

definition ba_read_at :: "nat \<Rightarrow> nat \<Rightarrow> bytearray \<Rightarrow> byte list result" where
  "ba_read_at sz position ba =
    (if usub64 (ba_size ba) position < sz then Inl OutOfRange
     else if ba_baseSize ba = 0 then Inl DivByZero
     else let nodeOffset = position mod ba_baseSize ba;
              cur = position div ba_baseSize ba in
       if length (ba_nodes ba) \<le> cur then Inl NullDeref
       else let nodeAvail = usub64 (length (ba_nodes ba ! cur)) nodeOffset in
         bind_res (read_loop (ba_nodes ba) cur position nodeOffset nodeAvail sz)
           (\<lambda>(bs, cur', pos'). Inr bs))"

definition ba_toString :: "bytearray \<Rightarrow> byte list result" where
  "ba_toString ba =
    (if getReadSize ba = 0 then Inr [] else ba_read_at (getReadSize ba) (ba_position ba) ba)"

section \<open>Scatter and gather lists\<close>

text \<open>An \<open>iovec\<close> names a range of one chunk: its index, the offset in it and a length.\<close>

type_synonym iovec = "nat \<times> nat \<times> nat"

function iov_loop :: "byte list list \<Rightarrow> nat \<Rightarrow> nat \<Rightarrow> nat \<Rightarrow> nat \<Rightarrow> iovec list result" where
  "iov_loop nodes cur nodeOffset nodeAvail len =
    (if len = 0 then Inr []
     else if length nodes \<le> cur then Inl NullDeref
     else if len \<le> nodeAvail then Inr [(cur, nodeOffset, len)]
     else if length nodes \<le> Suc cur then Inl NullDeref
     else bind_res (iov_loop nodes (Suc cur) 0 (length (nodes ! Suc cur)) (len - nodeAvail))
            (\<lambda>iovs. Inr ((cur, nodeOffset, nodeAvail) # iovs)))"
  by pat_completeness auto
termination
  by (relation "measure (\<lambda>(nodes, cur, off, avail, len). length nodes - cur)") auto

definition iov_from :: "bytearray \<Rightarrow> nat \<Rightarrow> nat \<Rightarrow> nat \<Rightarrow> iovec list result" where
  "iov_from ba cur position len =
    (if ba_baseSize ba = 0 then Inl DivByZero
     else if length (ba_nodes ba) \<le> cur then Inl NullDeref
     else let nodeOffset = position mod ba_baseSize ba in
       iov_loop (ba_nodes ba) cur nodeOffset
         (usub64 (length (ba_nodes ba ! cur)) nodeOffset) len)"

definition getReadBuffers :: "nat \<Rightarrow> bytearray \<Rightarrow> (nat \<times> iovec list) result" where
  "getReadBuffers len0 ba =
    (let len = min len0 (getReadSize ba) in
     if len = 0 then Inr (0, [])
     else bind_res (iov_from ba (ba_cur ba) (ba_position ba) len) (\<lambda>iovs. Inr (len, iovs)))"

definition getReadBuffers_at :: "nat \<Rightarrow> nat \<Rightarrow> bytearray \<Rightarrow> (nat \<times> iovec list) result" where
  "getReadBuffers_at len0 position ba =
    (let len = min len0 (getReadSize ba) in
     if len = 0 then Inr (0, [])
     else if ba_baseSize ba = 0 then Inl DivByZero
     else bind_res (iov_from ba (position div ba_baseSize ba) position len)
            (\<lambda>iovs. Inr (len, iovs)))"

definition getWriteBuffers :: "nat \<Rightarrow> bytearray \<Rightarrow> (nat \<times> iovec list \<times> bytearray) result" where
  "getWriteBuffers len ba0 =
    (if len = 0 then Inr (0, [], ba0)
     else let ba = addCapacity len ba0 in
       bind_res (iov_from ba (ba_cur ba) (ba_position ba) len) (\<lambda>iovs. Inr (len, iovs, ba)))"

text \<open>What \<open>readv\<close> and \<open>writev\<close> see behind an \<open>iovec\<close> list.\<close>

definition iov_bytes :: "byte list list \<Rightarrow> iovec list \<Rightarrow> byte list" where
  "iov_bytes nodes iovs = concat (map (\<lambda>(i, off, len). take len (drop off (nodes ! i))) iovs)"


section \<open>File input and output\<close>

text \<open>
  \<open>writeToFile\<close> writes to a stream that was opened, or not; its result is the bytes that
  reach the file. A negative count breaks the precondition of \<open>std::ostream::write\<close>.
\<close>

fun writeToFile_loop :: "nat \<Rightarrow> byte list list \<Rightarrow> int \<Rightarrow> int \<Rightarrow> byte list result" where
  "writeToFile_loop baseSize nodes pos readSize =
    (if readSize \<le> 0 then Inr []
     else case nodes of
       [] \<Rightarrow> Inl NullDeref
     | n # ns \<Rightarrow>
         let diff = pos mod int baseSize;
             len = (if int baseSize < readSize then int baseSize else readSize) - diff in
         if len < 0 then Inl InvalidArgument
         else bind_res (writeToFile_loop baseSize ns (pos + len) (readSize - len))
                (\<lambda>bs. Inr (take (nat len) (drop (nat diff) n) @ bs)))"

definition writeToFile :: "bool \<Rightarrow> bytearray \<Rightarrow> byte list option result" where
  "writeToFile opened ba =
    (if \<not> opened then Inr None
     else bind_res (writeToFile_loop (ba_baseSize ba) (drop (ba_cur ba) (ba_nodes ba))
                      (int (ba_position ba)) (int (getReadSize ba)))
            (\<lambda>bs. Inr (Some bs)))"

text \<open>
  The loop of \<open>readFromFile\<close>, on the part of the file that is still to be read: the stream is
  at its end once a read returned less than it was asked for. None is the loop that never ends.
\<close>

partial_function (option) readFromFile_loop ::
    "byte list \<Rightarrow> bytearray \<Rightarrow> bytearray result option" where
  "readFromFile_loop content ba =
    (case ba_write (take (ba_baseSize ba) content) ba of
       Inl e \<Rightarrow> Some (Inl e)
     | Inr ba' \<Rightarrow>
         if length content < ba_baseSize ba then Some (Inr ba')
         else readFromFile_loop (drop (ba_baseSize ba) content) ba')"

definition readFromFile :: "byte list option \<Rightarrow> bytearray \<Rightarrow> (bool \<times> bytearray) result option" where
  "readFromFile file ba =
    (case file of
       None \<Rightarrow> Some (Inr (False, ba))
     | Some content \<Rightarrow>
         map_option (\<lambda>r. bind_res r (\<lambda>ba'. Inr (True, ba'))) (readFromFile_loop content ba))"

section \<open>Well-formedness\<close>

definition ba_wf :: "bytearray \<Rightarrow> bool" where
  "ba_wf ba \<longleftrightarrow>
     0 < ba_baseSize ba \<and> ba_nodes ba \<noteq> [] \<and> chunked (ba_baseSize ba) (ba_nodes ba) \<and>
     ba_capacity ba = ba_baseSize ba * length (ba_nodes ba) \<and>
     ba_position ba \<le> ba_size ba \<and> ba_size ba \<le> ba_capacity ba \<and>
     ba_cur ba = ba_position ba div ba_baseSize ba"

text \<open>The valid bytes, as one flat sequence.\<close>

definition ba_data :: "bytearray \<Rightarrow> byte list" where
  "ba_data ba = take (ba_size ba) (concat (ba_nodes ba))"

declare writeToFile_loop.simps [simp del]
declare write_loop.simps [simp del] read_loop.simps [simp del] iov_loop.simps [simp del]

lemma ba_wfD:
  assumes "ba_wf ba"
  shows "0 < ba_baseSize ba" "ba_nodes ba \<noteq> []" "chunked (ba_baseSize ba) (ba_nodes ba)"
    "ba_capacity ba = ba_baseSize ba * length (ba_nodes ba)"
    "ba_position ba \<le> ba_size ba" "ba_size ba \<le> ba_capacity ba"
    "ba_cur ba = ba_position ba div ba_baseSize ba"
  using assms by (simp_all add: ba_wf_def)

lemma ba_wf_length_concat [simp]:
  "ba_wf ba \<Longrightarrow> length (concat (ba_nodes ba)) = ba_capacity ba"
  using ba_wfD(3,4) length_concat_chunked by metis

lemma length_ba_data [simp]: "ba_wf ba \<Longrightarrow> length (ba_data ba) = ba_size ba"
  using ba_wfD(6) by (simp add: ba_data_def)

lemma getReadSize_wf [simp]: "ba_wf ba \<Longrightarrow> getReadSize ba = ba_size ba - ba_position ba"
  by (simp add: getReadSize_def ba_wf_def)

lemma getCapacity_wf: "ba_wf ba \<Longrightarrow> getCapacity ba = ba_capacity ba - ba_position ba"
  by (simp add: getCapacity_def ba_wf_def)

lemma ba_wf_new: "0 < b \<Longrightarrow> ba_wf (new_ByteArray b)"
  by (simp add: ba_wf_def new_ByteArray_def new_Node_def)

lemma ba_data_new [simp]: "ba_data (new_ByteArray b) = []"
  by (simp add: ba_data_def new_ByteArray_def)

lemma ba_wf_setIsLittleEndian [simp]: "ba_wf (setIsLittleEndian v ba) = ba_wf ba"
  by (simp add: ba_wf_def setIsLittleEndian_def)

lemma ba_wf_clear: "ba_wf ba \<Longrightarrow> ba_wf (ba_clear ba)"
  by (cases "ba_nodes ba") (auto simp: ba_wf_def ba_clear_def)

lemma ba_data_clear [simp]: "ba_data (ba_clear ba) = []"
  by (simp add: ba_data_def ba_clear_def)

subsection \<open>Capacity\<close>

lemma addCapacity_fields [simp]:
  "ba_baseSize (addCapacity n ba) = ba_baseSize ba"
  "ba_position (addCapacity n ba) = ba_position ba"
  "ba_size (addCapacity n ba) = ba_size ba"
  "ba_endian (addCapacity n ba) = ba_endian ba"
  by (simp_all add: addCapacity_def Let_def)

lemma addCapacity_grows:
  assumes "ba_wf ba" "0 < n"
  shows "ba_position ba + n \<le> ba_capacity (addCapacity n ba)"
proof (cases "n \<le> getCapacity ba")
  case True
  then show ?thesis using assms by (auto simp: addCapacity_def getCapacity_wf ba_wf_def)
next
  case False
  let ?c = "ceil_div (n - getCapacity ba) (ba_baseSize ba)"
  have "n - getCapacity ba \<le> ?c * ba_baseSize ba"
    using assms by (intro ceil_div_covers) (simp add: ba_wf_def)
  then show ?thesis
    using False assms ba_wfD(5,6) [OF assms(1)]
    by (simp add: addCapacity_def Let_def getCapacity_wf)
qed

lemma ba_wf_addCapacity:
  assumes "ba_wf ba"
  shows "ba_wf (addCapacity n ba)"
proof (cases "n = 0 \<or> n \<le> getCapacity ba")
  case False
  have "ba_capacity ba = ba_position ba \<Longrightarrow> ba_position ba div ba_baseSize ba = length (ba_nodes ba)"
    using assms by (simp add: ba_wf_def)
  then show ?thesis
    using False assms
    by (auto simp: addCapacity_def getCapacity_wf Let_def new_Node_def)
      (auto simp: ba_wf_def algebra_simps)
qed (use assms in \<open>auto simp: addCapacity_def\<close>)

lemma ba_data_addCapacity [simp]:
  assumes "ba_wf ba"
  shows "ba_data (addCapacity n ba) = ba_data ba"
proof -
  have "ba_size ba \<le> length (concat (ba_nodes ba))"
    using assms ba_wfD(6) by simp
  then show ?thesis
    by (simp add: ba_data_def addCapacity_def Let_def)
qed

lemma addCapacity_cur:
  assumes "ba_wf ba" "0 < n"
  shows "ba_cur (addCapacity n ba) < length (ba_nodes (addCapacity n ba))"
proof -
  let ?a = "addCapacity n ba"
  have w: "ba_wf ?a" using assms ba_wf_addCapacity by blast
  have "ba_position ?a < ba_baseSize ?a * length (ba_nodes ?a)"
    using addCapacity_grows [OF assms] assms w by (simp add: ba_wf_def)
  then show ?thesis
    using w by (simp add: ba_wf_def less_mult_imp_div_less mult.commute)
qed

subsection \<open>The loops over the chunks\<close>

lemma div_chunk_step:
  "off < (b::nat) \<Longrightarrow> (if b = off + k then Suc i else i) = (b * i + off + k) div b" if "off + k \<le> b"
proof (cases "b = off + k")
  assume off: "off < b"
  case True
  have eq: "b * i + off + k = b * Suc i" using True by simp
  show ?thesis by (subst eq) (use True off in \<open>simp del: mult_Suc_right\<close>)
next
  assume off: "off < b"
  case False
  then have "off + k < b" using that by simp
  then have "(b * i + (off + k)) div b = i" using off by simp
  then show ?thesis using False by (simp add: add.assoc)
qed

lemma write_loop_correct:
  assumes "chunked b nodes" "cur < length nodes" "off < b" "avail = b - off"
    "pos = b * cur + off" "pos + length buf \<le> b * length nodes"
  shows "\<exists>nodes'. write_loop nodes cur pos off avail buf
            = Inr (nodes', (pos + length buf) div b, pos + length buf) \<and>
          chunked b nodes' \<and> length nodes' = length nodes \<and>
          concat nodes' = overwrite (concat nodes) pos buf"
  using assms
proof (induction nodes cur pos off avail buf rule: write_loop.induct)
  case (1 nodes cur pos off avail buf)
  have n: "length (nodes ! cur) = b" using chunked_nth [OF "1.prems"(1,2)] .
  consider "buf = []" | "buf \<noteq> []" "length buf \<le> avail" | "avail < length buf" by fastforce
  then show ?case
  proof cases
    case 1
    then show ?thesis using "1.prems" by (simp add: write_loop.simps [of _ _ _ _ _ "[]"])
  next
    case 2
    have le: "off + length buf \<le> b" using 2 "1.prems" by simp
    have cur': "(if b = off + length buf then Suc cur else cur) = (pos + length buf) div b"
      using div_chunk_step [OF le "1.prems"(3), of cur] "1.prems"(5) by simp
    show ?thesis
      using 2 "1.prems" le n cur'
      by (subst write_loop.simps) (simp add: overwrite_chunk)
  next
    case 3
    let ?nodes = "nodes[cur := overwrite (nodes ! cur) off (take avail buf)]"
    have av: "off + length (take avail buf) = b" "length (take avail buf) = avail"
      using 3 "1.prems" by simp_all
    have pos': "pos + avail = b * Suc cur" using "1.prems" by simp
    have more: "Suc cur < length nodes"
    proof -
      have "b * Suc cur < b * length nodes" using 3 "1.prems"(6) pos' by linarith
      then show ?thesis using mult_less_cancel1 by blast
    qed
    have ch: "chunked b ?nodes" using "1.prems"(1) n av by simp
    have flat: "concat ?nodes = overwrite (concat nodes) pos (take avail buf)"
      using overwrite_chunk [OF "1.prems"(1,2)] av "1.prems"(5) by simp
    have "\<exists>nodes'. write_loop ?nodes (Suc cur) (pos + avail) 0 (length (nodes ! Suc cur))
              (drop avail buf) = Inr (nodes', (pos + length buf) div b, pos + length buf) \<and>
            chunked b nodes' \<and> length nodes' = length nodes \<and>
            concat nodes' = overwrite (concat ?nodes) (pos + avail) (drop avail buf)"
      using "1.IH" 3 "1.prems" more ch pos' chunked_nth [OF "1.prems"(1) more]
      by (cases "buf = []") (simp_all add: ac_simps)
    moreover have "overwrite (concat nodes) pos buf
        = overwrite (concat ?nodes) (pos + avail) (drop avail buf)"
      using overwrite_split [of pos "concat nodes" "take avail buf" "drop avail buf"]
        "1.prems" 3 av flat by simp
    ultimately show ?thesis
      using 3 more "1.prems"(2) by (subst write_loop.simps) auto
  qed
qed

lemma read_loop_correct:
  assumes "chunked b nodes" "cur < length nodes" "off < b" "avail = b - off"
    "pos = b * cur + off" "pos + n \<le> b * length nodes"
  shows "read_loop nodes cur pos off avail n
            = Inr (take n (drop pos (concat nodes)), (pos + n) div b, pos + n)"
  using assms
proof (induction nodes cur pos off avail n rule: read_loop.induct)
  case (1 nodes cur pos off avail n)
  have l: "length (nodes ! cur) = b" using chunked_nth [OF "1.prems"(1,2)] .
  have dr: "drop pos (concat nodes) = drop off (nodes ! cur) @ concat (drop (Suc cur) nodes)"
    using drop_concat_chunk [OF "1.prems"(1,2), of off] "1.prems"(3,5) by simp
  consider "n = 0" | "n \<noteq> 0" "n \<le> avail" | "avail < n" by fastforce
  then show ?case
  proof cases
    case 1
    then show ?thesis using "1.prems" by (simp add: read_loop.simps [of _ _ _ _ _ 0])
  next
    case 2
    have le: "off + n \<le> b" using 2 "1.prems" by simp
    have "(if b = off + n then Suc cur else cur) = (pos + n) div b"
      using div_chunk_step [OF le "1.prems"(3), of cur] "1.prems"(5) by simp
    then show ?thesis
      using 2 "1.prems" le l dr by (subst read_loop.simps) simp
  next
    case 3
    have pos': "pos + avail = b * Suc cur" using "1.prems" by simp
    have more: "Suc cur < length nodes"
    proof -
      have "b * Suc cur < b * length nodes" using 3 "1.prems"(6) pos' by linarith
      then show ?thesis using mult_less_cancel1 by blast
    qed
    have "read_loop nodes (Suc cur) (pos + avail) 0 (length (nodes ! Suc cur)) (n - avail)
        = Inr (take (n - avail) (drop (pos + avail) (concat nodes)), (pos + n) div b, pos + n)"
      using "1.IH" 3 "1.prems" more pos' chunked_nth [OF "1.prems"(1) more]
      by (simp add: ac_simps)
    moreover have "take n (drop pos (concat nodes)) = take avail (drop off (nodes ! cur)) @
        take (n - avail) (drop (pos + avail) (concat nodes))"
    proof -
      have "take n (drop pos (concat nodes)) = take avail (drop pos (concat nodes)) @
          take (n - avail) (drop avail (drop pos (concat nodes)))"
        using 3 by (metis take_add le_add_diff_inverse less_imp_le)
      then show ?thesis using dr l "1.prems" by (simp add: add.commute)
    qed
    ultimately show ?thesis
      using 3 more "1.prems"(2) by (subst read_loop.simps) simp
  qed
qed

lemma setPosition_walk_correct:
  assumes "chunked b nodes" "0 < b" "v \<le> b * length nodes" "nodes \<noteq> []"
  shows "setPosition_walk nodes i v = Inr (i + v div b)"
  using assms
proof (induction nodes i v rule: setPosition_walk.induct)
  case (2 n ns i v)
  show ?case
  proof (cases "b < v")
    case True
    moreover have "ns \<noteq> []" using 2 True by auto
    moreover have "v div b = Suc ((v - b) div b)" using True 2 by (simp add: le_div_geq)
    ultimately show ?thesis using 2 by simp
  next
    case False
    then show ?thesis using 2 by auto
  qed
qed simp

subsection \<open>Each operation on the flat sequence\<close>

lemma ba_write_correct:
  assumes wf: "ba_wf ba"
  shows "\<exists>ba'. ba_write buf ba = Inr ba' \<and> ba_wf ba' \<and>
          ba_data ba' = overwrite (ba_data ba) (ba_position ba) buf \<and>
          ba_position ba' = ba_position ba + length buf \<and>
          ba_endian ba' = ba_endian ba \<and> ba_baseSize ba' = ba_baseSize ba"
proof (cases "buf = []")
  case True
  then show ?thesis using wf by (simp add: ba_write_def)
next
  case False
  let ?a = "addCapacity (length buf) ba" and ?p = "ba_position ba" and ?b = "ba_baseSize ba"
  have a: "ba_wf ?a" using wf ba_wf_addCapacity by blast
  have cur: "ba_cur ?a < length (ba_nodes ?a)" using addCapacity_cur wf False by simp
  have fits: "?p + length buf \<le> ?b * length (ba_nodes ?a)"
    using addCapacity_grows [OF wf, of "length buf"] False ba_wfD(4) [OF a] by simp
  have b: "0 < ?b" using ba_wfD(1) [OF wf] .
  have node: "length (ba_nodes ?a ! ba_cur ?a) = ?b"
    using chunked_nth [OF ba_wfD(3) [OF a] cur] by simp
  obtain nodes' where loop: "write_loop (ba_nodes ?a) (ba_cur ?a) ?p (?p mod ?b) (?b - ?p mod ?b) buf
        = Inr (nodes', (?p + length buf) div ?b, ?p + length buf)"
      and ch: "chunked ?b nodes'" and len: "length nodes' = length (ba_nodes ?a)"
      and flat: "concat nodes' = overwrite (concat (ba_nodes ?a)) ?p buf"
    using write_loop_correct [of ?b "ba_nodes ?a" "ba_cur ?a" "?p mod ?b" "?b - ?p mod ?b" ?p buf]
      ba_wfD(3,7) [OF a] cur b fits by auto
  let ?ba' = "?a\<lparr> ba_nodes := nodes', ba_cur := (?p + length buf) div ?b,
                  ba_position := ?p + length buf, ba_size := max (ba_size ba) (?p + length buf) \<rparr>"
  have res: "ba_write buf ba = Inr ?ba'"
    using False b cur node loop by (simp add: ba_write_def Let_def less_imp_le)
  have nonempty: "nodes' \<noteq> []" using len ba_wfD(2) [OF a] by auto
  have "ba_wf ?ba'"
    using ba_wfD [OF a] ch len fits nonempty by (simp add: ba_wf_def)
  moreover have "ba_data ?ba' = overwrite (ba_data ba) ?p buf"
  proof -
    have "length (concat (ba_nodes ?a)) = ?b * length (ba_nodes ?a)"
      using ba_wf_length_concat [OF a] ba_wfD(4) [OF a] by simp
    then have "take (max (ba_size ba) (?p + length buf)) (concat nodes')
        = overwrite (take (ba_size ba) (concat (ba_nodes ?a))) ?p buf"
      using overwrite_take [of ?p "ba_size ba" buf "concat (ba_nodes ?a)"]
        ba_wfD(5) [OF wf] fits flat by simp
    then show ?thesis
      using ba_data_addCapacity [OF wf, of "length buf"] by (simp add: ba_data_def)
  qed
  ultimately show ?thesis using res by simp
qed

lemma ba_read_correct:
  assumes wf: "ba_wf ba" and n: "0 < n" "ba_position ba + n \<le> ba_size ba"
  shows "ba_read n ba = Inr (take n (drop (ba_position ba) (ba_data ba)),
            ba\<lparr> ba_cur := (ba_position ba + n) div ba_baseSize ba,
                ba_position := ba_position ba + n \<rparr>)"
proof -
  let ?p = "ba_position ba" and ?b = "ba_baseSize ba"
  note w = ba_wfD [OF wf]
  have "?p < ?b * length (ba_nodes ba)" using w n by linarith
  then have cur: "ba_cur ba < length (ba_nodes ba)"
    using w(7) by (simp add: less_mult_imp_div_less mult.commute)
  have "read_loop (ba_nodes ba) (ba_cur ba) ?p (?p mod ?b) (?b - ?p mod ?b) n
      = Inr (take n (drop ?p (concat (ba_nodes ba))), (?p + n) div ?b, ?p + n)"
    using w n cur by (intro read_loop_correct) auto
  moreover have "take n (drop ?p (ba_data ba)) = take n (drop ?p (concat (ba_nodes ba)))"
    using n by (simp add: ba_data_def drop_take)
  moreover have "length (ba_nodes ba ! ba_cur ba) = ?b" using chunked_nth [OF w(3) cur] .
  ultimately show ?thesis
    using n w cur wf by (simp add: ba_read_def Let_def less_imp_le)
qed

lemma ba_read_short: "ba_size ba - ba_position ba < n \<Longrightarrow> ba_wf ba \<Longrightarrow> ba_read n ba = Inl OutOfRange"
  by (simp add: ba_read_def)

lemma ba_wf_after_read:
  "ba_wf ba \<Longrightarrow> ba_position ba + n \<le> ba_size ba \<Longrightarrow>
   ba_wf (ba\<lparr> ba_cur := (ba_position ba + n) div ba_baseSize ba, ba_position := ba_position ba + n \<rparr>)"
  by (simp add: ba_wf_def)

lemma ba_read_at_correct:
  assumes wf: "ba_wf ba" and p: "p + n \<le> ba_size ba" "0 < n"
  shows "ba_read_at n p ba = Inr (take n (drop p (ba_data ba)))"
proof -
  let ?b = "ba_baseSize ba"
  note w = ba_wfD [OF wf]
  have "p < ?b * length (ba_nodes ba)" using w p by linarith
  then have cur: "p div ?b < length (ba_nodes ba)"
    by (simp add: less_mult_imp_div_less mult.commute)
  have "read_loop (ba_nodes ba) (p div ?b) p (p mod ?b) (?b - p mod ?b) n
      = Inr (take n (drop p (concat (ba_nodes ba))), (p + n) div ?b, p + n)"
    using w p cur by (intro read_loop_correct) auto
  moreover have "take n (drop p (ba_data ba)) = take n (drop p (concat (ba_nodes ba)))"
    using p by (simp add: ba_data_def drop_take)
  moreover have "length (ba_nodes ba ! (p div ?b)) = ?b" using chunked_nth [OF w(3) cur] .
  ultimately show ?thesis
    using p w cur by (simp add: ba_read_at_def Let_def less_imp_le)
qed

lemma ba_toString_correct:
  assumes "ba_wf ba"
  shows "ba_toString ba = Inr (drop (ba_position ba) (ba_data ba))"
proof (cases "ba_position ba = ba_size ba")
  case True
  then show ?thesis using assms by (simp add: ba_toString_def)
next
  case False
  then show ?thesis
    using assms ba_wfD(5) [OF assms] by (simp add: ba_toString_def ba_read_at_correct)
qed

lemma setPosition_correct:
  assumes wf: "ba_wf ba" and v: "v \<le> ba_capacity ba"
  shows "setPosition v ba = Inr (ba\<lparr> ba_position := v, ba_size := max (ba_size ba) v,
                                     ba_cur := v div ba_baseSize ba \<rparr>)"
  using setPosition_walk_correct [of "ba_baseSize ba" "ba_nodes ba" v 0] ba_wfD [OF wf] v
  by (simp add: setPosition_def)

lemma ba_wf_after_setPosition:
  "ba_wf ba \<Longrightarrow> v \<le> ba_capacity ba \<Longrightarrow>
   ba_wf (ba\<lparr> ba_position := v, ba_size := max (ba_size ba) v, ba_cur := v div ba_baseSize ba \<rparr>)"
  by (simp add: ba_wf_def)

section \<open>The contract of a byte store\<close>

text \<open>
  What the typed layer relies on: a flat sequence with a cursor, written and read at the
  cursor, and a configuration (the byte order) that raw I/O leaves alone.
\<close>

locale byte_store =
  fixes put :: "byte list \<Rightarrow> 'b \<Rightarrow> 'b result"
    and get :: "nat \<Rightarrow> 'b \<Rightarrow> (byte list \<times> 'b) result"
    and seek :: "nat \<Rightarrow> 'b \<Rightarrow> 'b result"
    and inv :: "'b \<Rightarrow> bool"
    and contents :: "'b \<Rightarrow> byte list"
    and pos :: "'b \<Rightarrow> nat"
    and cfg :: "'b \<Rightarrow> 'c"
  assumes pos_le: "inv b \<Longrightarrow> pos b \<le> length (contents b)"
    and put_law: "inv b \<Longrightarrow> \<exists>b'. put bs b = Inr b' \<and> inv b' \<and> cfg b' = cfg b \<and>
          contents b' = overwrite (contents b) (pos b) bs \<and> pos b' = pos b + length bs"
    and get_law: "inv b \<Longrightarrow> 0 < n \<Longrightarrow> pos b + n \<le> length (contents b) \<Longrightarrow>
          \<exists>b'. get n b = Inr (take n (drop (pos b) (contents b)), b') \<and> inv b' \<and>
            cfg b' = cfg b \<and> contents b' = contents b \<and> pos b' = pos b + n"
    and get_short: "inv b \<Longrightarrow> length (contents b) - pos b < n \<Longrightarrow> get n b = Inl OutOfRange"
    and seek_law: "inv b \<Longrightarrow> p \<le> length (contents b) \<Longrightarrow>
          \<exists>b'. seek p b = Inr b' \<and> inv b' \<and> cfg b' = cfg b \<and> contents b' = contents b \<and> pos b' = p"
begin

definition upcoming :: "'b \<Rightarrow> byte list \<Rightarrow> bool" where
  "upcoming b bs \<longleftrightarrow> inv b \<and> (\<exists>rest. drop (pos b) (contents b) = bs @ rest)"

lemma upcoming_inv: "upcoming b bs \<Longrightarrow> inv b"
  by (simp add: upcoming_def)

lemma put_then_seek:
  assumes "inv b"
  shows "\<exists>b1 b2. put bs b = Inr b1 \<and> seek (pos b) b1 = Inr b2 \<and> upcoming b2 bs \<and>
           pos b2 = pos b \<and> cfg b2 = cfg b \<and> pos b1 = pos b + length bs \<and>
           contents b1 = overwrite (contents b) (pos b) bs \<and> contents b2 = contents b1 \<and> inv b1"
proof -
  obtain b1 where b1: "put bs b = Inr b1" "inv b1" "cfg b1 = cfg b"
      "contents b1 = overwrite (contents b) (pos b) bs" "pos b1 = pos b + length bs"
    using put_law [OF assms] by blast
  have "pos b \<le> length (contents b1)" using pos_le [OF b1(2)] b1(5) by simp
  then obtain b2 where b2: "seek (pos b) b1 = Inr b2" "inv b2" "cfg b2 = cfg b1"
      "contents b2 = contents b1" "pos b2 = pos b"
    using seek_law [OF b1(2)] by blast
  have "drop (pos b2) (contents b2) = bs @ drop (pos b + length bs) (contents b)"
    using pos_le [OF assms] b2 b1 by (simp add: overwrite_def)
  then show ?thesis using b1 b2 unfolding upcoming_def by auto
qed

lemma get_upcoming:
  assumes "upcoming b (xs @ ys)" "xs \<noteq> []"
  shows "\<exists>b'. get (length xs) b = Inr (xs, b') \<and> upcoming b' ys \<and> cfg b' = cfg b \<and>
           contents b' = contents b \<and> pos b' = pos b + length xs"
proof -
  obtain rest where d: "drop (pos b) (contents b) = (xs @ ys) @ rest" and i: "inv b"
    using assms by (auto simp: upcoming_def)
  have "length (contents b) - pos b = length ((xs @ ys) @ rest)"
    using d by (metis length_drop)
  then have "pos b + length xs \<le> length (contents b)" using pos_le [OF i] by simp
  then obtain b' where "get (length xs) b = Inr (xs, b')" "inv b'" "cfg b' = cfg b"
      "contents b' = contents b" "pos b' = pos b + length xs"
    using get_law [OF i, of "length xs"] assms(2) d by auto
  moreover have "drop (pos b + length xs) (contents b) = ys @ rest"
    using d by (metis add.commute append.assoc append_eq_conv_conj drop_drop)
  ultimately show ?thesis by (auto simp: upcoming_def)
qed

lemma put_put:
  assumes "inv b"
  shows "\<exists>b1 b2. put xs b = Inr b1 \<and> put ys b1 = Inr b2 \<and> inv b2 \<and> cfg b2 = cfg b \<and>
           contents b2 = overwrite (contents b) (pos b) (xs @ ys) \<and>
           pos b2 = pos b + length (xs @ ys)"
proof -
  obtain b1 where b1: "put xs b = Inr b1" "inv b1" "cfg b1 = cfg b"
      "contents b1 = overwrite (contents b) (pos b) xs" "pos b1 = pos b + length xs"
    using put_law [OF assms] by blast
  obtain b2 where b2: "put ys b1 = Inr b2" "inv b2" "cfg b2 = cfg b1"
      "contents b2 = overwrite (contents b1) (pos b1) ys" "pos b2 = pos b1 + length ys"
    using put_law [OF b1(2)] by blast
  show ?thesis
    using b1 b2 overwrite_split [OF pos_le [OF assms], of xs ys] by auto
qed

text \<open>Bytes outside the written range keep their values.\<close>

lemma put_frame:
  assumes "inv b" "put bs b = Inr b'"
  shows "take (pos b) (contents b') = take (pos b) (contents b)"
    and "drop (pos b + length bs) (contents b') = drop (pos b + length bs) (contents b)"
  using put_law [OF assms(1), of bs] assms(2) pos_le [OF assms(1)] by (auto simp: drop_overwrite)

end

interpretation ba: byte_store ba_write ba_read setPosition ba_wf ba_data ba_position ba_endian
proof unfold_locales
  fix b :: bytearray and bs n p
  assume wf: "ba_wf b"
  show "ba_position b \<le> length (ba_data b)" using wf ba_wfD(5) by simp
  show "\<exists>b'. ba_write bs b = Inr b' \<and> ba_wf b' \<and> ba_endian b' = ba_endian b \<and>
      ba_data b' = overwrite (ba_data b) (ba_position b) bs \<and>
      ba_position b' = ba_position b + length bs"
    using ba_write_correct [OF wf, of bs] by auto
  show "\<exists>b'. ba_read n b = Inr (take n (drop (ba_position b) (ba_data b)), b') \<and> ba_wf b' \<and>
      ba_endian b' = ba_endian b \<and> ba_data b' = ba_data b \<and> ba_position b' = ba_position b + n"
    if "0 < n" "ba_position b + n \<le> length (ba_data b)"
    using ba_read_correct [OF wf, of n] ba_wf_after_read [OF wf, of n] that wf
    by (simp add: ba_data_def)
  show "ba_read n b = Inl OutOfRange" if "length (ba_data b) - ba_position b < n"
    using that wf ba_read_short by simp
  show "\<exists>b'. setPosition p b = Inr b' \<and> ba_wf b' \<and> ba_endian b' = ba_endian b \<and>
      ba_data b' = ba_data b \<and> ba_position b' = p" if "p \<le> length (ba_data b)"
  proof -
    have "p \<le> ba_size b" "p \<le> ba_capacity b" using that wf ba_wfD(6) [OF wf] by simp_all
    then show ?thesis
      using setPosition_correct [OF wf, of p] ba_wf_after_setPosition [OF wf, of p]
      by (simp add: ba_data_def max_def)
  qed
qed

section \<open>Scatter and gather lists name the bytes of the flat sequence\<close>

lemma iov_loop_correct:
  assumes "chunked b nodes" "cur < length nodes" "off < b" "avail = b - off"
    "b * cur + off + n \<le> b * length nodes"
  shows "\<exists>iovs. iov_loop nodes cur off avail n = Inr iovs \<and>
           iov_bytes nodes iovs = take n (drop (b * cur + off) (concat nodes)) \<and>
           (\<forall>(i, o', l) \<in> set iovs. i < length nodes \<and> 0 < l \<and> o' + l \<le> b)"
  using assms
proof (induction nodes cur off avail n rule: iov_loop.induct)
  case (1 nodes cur off avail n)
  have l: "length (nodes ! cur) = b" using chunked_nth [OF "1.prems"(1,2)] .
  have dr: "drop (b * cur + off) (concat nodes) = drop off (nodes ! cur) @ concat (drop (Suc cur) nodes)"
    using drop_concat_chunk [OF "1.prems"(1,2), of off] "1.prems"(3) by simp
  show ?case
  proof (cases "n \<le> avail")
    case True
    then show ?thesis
      using "1.prems" l dr by (subst iov_loop.simps) (auto simp: iov_bytes_def)
  next
    case False
    have "b * Suc cur < b * length nodes" using False "1.prems" by simp
    then have more: "Suc cur < length nodes" using mult_less_cancel1 by blast
    have nxt: "length (nodes ! Suc cur) = b" using chunked_nth [OF "1.prems"(1) more] .
    obtain iovs where rec: "iov_loop nodes (Suc cur) 0 b (n - avail) = Inr iovs"
      and bytes: "iov_bytes nodes iovs = take (n - avail) (drop (b * Suc cur) (concat nodes))"
      and rng: "\<forall>(i, o', l) \<in> set iovs. i < length nodes \<and> 0 < l \<and> o' + l \<le> b"
      using "1.IH" False "1.prems" more nxt by auto
    have res: "iov_loop nodes cur off avail n = Inr ((cur, off, avail) # iovs)"
      using False more "1.prems"(2) rec nxt by (subst iov_loop.simps) simp
    have "iov_bytes nodes ((cur, off, avail) # iovs)
        = take n (drop (b * cur + off) (concat nodes))"
    proof -
      have "concat (drop (Suc cur) nodes) = drop (b * Suc cur) (concat nodes)"
        using drop_concat_chunk [OF "1.prems"(1) more, of 0] more
        by (simp add: Cons_nth_drop_Suc flip: concat.simps(2))
      then show ?thesis
        using bytes dr l "1.prems"(3,4) False by (simp add: iov_bytes_def)
    qed
    then show ?thesis using res rng "1.prems"(2,3,4) by auto
  qed
qed

lemma iov_from_correct:
  assumes wf: "ba_wf ba" and n: "0 < n" "p + n \<le> ba_capacity ba"
  shows "\<exists>iovs. iov_from ba (p div ba_baseSize ba) p n = Inr iovs \<and>
           iov_bytes (ba_nodes ba) iovs = take n (drop p (concat (ba_nodes ba))) \<and>
           (\<forall>(i, off, l) \<in> set iovs. i < length (ba_nodes ba) \<and> 0 < l \<and> off + l \<le> ba_baseSize ba)"
proof -
  let ?b = "ba_baseSize ba"
  note w = ba_wfD [OF wf]
  have "p < ?b * length (ba_nodes ba)" using n w by linarith
  then have cur: "p div ?b < length (ba_nodes ba)"
    by (simp add: less_mult_imp_div_less mult.commute)
  have "length (ba_nodes ba ! (p div ?b)) = ?b" using chunked_nth [OF w(3) cur] .
  then have "iov_from ba (p div ?b) p n
      = iov_loop (ba_nodes ba) (p div ?b) (p mod ?b) (?b - p mod ?b) n"
    using cur w(1) by (simp add: iov_from_def Let_def less_imp_le)
  then show ?thesis
    using iov_loop_correct [OF w(3) cur, of "p mod ?b" "?b - p mod ?b" n] w n by simp
qed

lemma getReadBuffers_correct:
  assumes wf: "ba_wf ba"
  shows "\<exists>iovs. getReadBuffers len ba = Inr (min len (ba_size ba - ba_position ba), iovs) \<and>
           iov_bytes (ba_nodes ba) iovs = take len (drop (ba_position ba) (ba_data ba))"
proof (cases "min len (ba_size ba - ba_position ba) = 0")
  case True
  then show ?thesis
    using wf by (auto simp: getReadBuffers_def iov_bytes_def min_def split: if_splits)
next
  case False
  let ?n = "min len (ba_size ba - ba_position ba)"
  have cap: "ba_position ba + ?n \<le> ba_capacity ba" and pos: "0 < ?n"
    using False ba_wfD(5,6) [OF wf] by linarith+
  obtain iovs where "iov_from ba (ba_cur ba) (ba_position ba) ?n = Inr iovs"
      "iov_bytes (ba_nodes ba) iovs = take ?n (drop (ba_position ba) (concat (ba_nodes ba)))"
    using iov_from_correct [OF wf pos cap] ba_wfD(7) [OF wf] by auto
  then show ?thesis
    using False wf by (auto simp: getReadBuffers_def Let_def ba_data_def drop_take min.commute)
qed

lemma getWriteBuffers_correct:
  assumes wf: "ba_wf ba" and len: "0 < len"
  shows "\<exists>iovs ba'. getWriteBuffers len ba = Inr (len, iovs, ba') \<and> ba_wf ba' \<and>
           ba_data ba' = ba_data ba \<and> ba_position ba' = ba_position ba \<and>
           length (iov_bytes (ba_nodes ba') iovs) = len \<and>
           (\<forall>(i, off, l) \<in> set iovs. i < length (ba_nodes ba') \<and> 0 < l \<and> off + l \<le> ba_baseSize ba')"
proof -
  let ?a = "addCapacity len ba"
  have a: "ba_wf ?a" using ba_wf_addCapacity [OF wf] .
  have cap: "ba_position ?a + len \<le> ba_capacity ?a" using addCapacity_grows [OF wf len] by simp
  obtain iovs where "iov_from ?a (ba_cur ?a) (ba_position ?a) len = Inr iovs"
      "iov_bytes (ba_nodes ?a) iovs = take len (drop (ba_position ?a) (concat (ba_nodes ?a)))"
      "\<forall>(i, off, l) \<in> set iovs. i < length (ba_nodes ?a) \<and> 0 < l \<and> off + l \<le> ba_baseSize ?a"
    using iov_from_correct [OF a len cap] ba_wfD(7) [OF a] by auto
  then show ?thesis
    using a wf len cap by (auto simp: getWriteBuffers_def Let_def)
qed

section \<open>File input and output on the flat sequence\<close>

lemma writeToFile_loop_aligned:
  assumes "chunked b ns" "0 < b" "pos mod int b = 0" "rs \<le> b * length ns"
  shows "writeToFile_loop b ns pos (int rs) = Inr (take rs (concat ns))"
  using assms
proof (induction ns arbitrary: pos rs)
  case (Cons n ns)
  show ?case
  proof (cases "b < rs")
    case True
    have "writeToFile_loop b ns (pos + int b) (int (rs - b)) = Inr (take (rs - b) (concat ns))"
      using Cons True by (intro Cons.IH) (auto simp: mod_add_self2)
    then show ?thesis
      using Cons.prems True by (subst writeToFile_loop.simps) (simp add: Let_def of_nat_diff)
  next
    case False
    have "writeToFile_loop b ns (pos + int rs) 0 = Inr []"
      by (subst writeToFile_loop.simps) simp
    then show ?thesis
      using Cons.prems False by (subst writeToFile_loop.simps) (simp add: Let_def)
  qed
qed (subst writeToFile_loop.simps, simp)

lemma drop_chunks: "chunked b xss \<Longrightarrow> i \<le> length xss \<Longrightarrow> concat (drop i xss) = drop (b * i) (concat xss)"
proof -
  assume a: "chunked b xss" "i \<le> length xss"
  have "concat xss = concat (take i xss) @ concat (drop i xss)"
    by (metis append_take_drop_id concat_append)
  then show ?thesis using length_concat_take [OF a] by simp
qed

lemma readFromFile_loop_correct:
  assumes "ba_wf ba"
  shows "\<exists>ba'. readFromFile_loop xs ba = Some (Inr ba') \<and> ba_wf ba' \<and>
           ba_data ba' = overwrite (ba_data ba) (ba_position ba) xs \<and>
           ba_position ba' = ba_position ba + length xs"
  using assms
proof (induction "length xs" arbitrary: xs ba rule: less_induct)
  case less
  let ?b = "ba_baseSize ba"
  have b: "0 < ?b" and p: "ba_position ba \<le> length (ba_data ba)"
    using ba_wfD(1,5) [OF less.prems] less.prems by simp_all
  obtain ba1 where w: "ba_write (take ?b xs) ba = Inr ba1" "ba_wf ba1"
      "ba_data ba1 = overwrite (ba_data ba) (ba_position ba) (take ?b xs)"
      "ba_position ba1 = ba_position ba + length (take ?b xs)" "ba_baseSize ba1 = ?b"
    using ba_write_correct [OF less.prems, of "take ?b xs"] by auto
  show ?case
  proof (cases "length xs < ?b")
    case True
    then show ?thesis using w by (subst readFromFile_loop.simps) simp
  next
    case False
    then have "length (drop ?b xs) < length xs" using b by simp
    then obtain ba2 where r: "readFromFile_loop (drop ?b xs) ba1 = Some (Inr ba2)" "ba_wf ba2"
        "ba_data ba2 = overwrite (ba_data ba1) (ba_position ba1) (drop ?b xs)"
        "ba_position ba2 = ba_position ba1 + length (drop ?b xs)"
      using less.hyps [of "drop ?b xs" ba1] w(2) by blast
    have "ba_data ba2 = overwrite (ba_data ba) (ba_position ba) xs"
      using overwrite_split [OF p, of "take ?b xs" "drop ?b xs"] r(3) w(3,4) by simp
    then show ?thesis
      using r w False by (subst readFromFile_loop.simps) simp
  qed
qed

section \<open>Sequences of raw operations\<close>

datatype ba_op = OpWrite "byte list" | OpRead nat | OpSeek nat | OpClear

text \<open>A call on the chunked buffer; one that throws returns the fault and leaves the buffer as it was.\<close>

fun ba_step :: "ba_op \<Rightarrow> bytearray \<Rightarrow> byte list result \<times> bytearray" where
  "ba_step (OpWrite bs) ba = (case ba_write bs ba of Inl e \<Rightarrow> (Inl e, ba) | Inr ba' \<Rightarrow> (Inr [], ba'))"
| "ba_step (OpRead n) ba = (case ba_read n ba of Inl e \<Rightarrow> (Inl e, ba) | Inr (bs, ba') \<Rightarrow> (Inr bs, ba'))"
| "ba_step (OpSeek p) ba = (case setPosition p ba of Inl e \<Rightarrow> (Inl e, ba) | Inr ba' \<Rightarrow> (Inr [], ba'))"
| "ba_step OpClear ba = (Inr [], ba_clear ba)"

fun ba_run :: "ba_op list \<Rightarrow> bytearray \<Rightarrow> byte list result list" where
  "ba_run [] ba = []"
| "ba_run (x # xs) ba = (let (r, ba') = ba_step x ba in r # ba_run xs ba')"

text \<open>The same calls on the specification: one byte sequence and a cursor.\<close>

fun flat_step :: "ba_op \<Rightarrow> byte list \<times> nat \<Rightarrow> byte list result \<times> byte list \<times> nat" where
  "flat_step (OpWrite bs) (d, p) = (Inr [], overwrite d p bs, p + length bs)"
| "flat_step (OpRead n) (d, p) =
    (if length d - p < n then (Inl OutOfRange, d, p) else (Inr (take n (drop p d)), d, p + n))"
| "flat_step (OpSeek q) (d, p) = (Inr [], d, q)"
| "flat_step OpClear (d, p) = (Inr [], [], 0)"

fun flat_run :: "ba_op list \<Rightarrow> byte list \<times> nat \<Rightarrow> byte list result list" where
  "flat_run [] s = []"
| "flat_run (x # xs) s = (let (r, s') = flat_step x s in r # flat_run xs s')"

text \<open>Reads ask for at least one byte and the cursor stays within the valid bytes.\<close>

fun legal_run :: "ba_op list \<Rightarrow> byte list \<times> nat \<Rightarrow> bool" where
  "legal_run [] s = True"
| "legal_run (x # xs) s =
    ((case x of OpRead n \<Rightarrow> 0 < n | OpSeek q \<Rightarrow> q \<le> length (fst s) | _ \<Rightarrow> True) \<and>
     legal_run xs (snd (flat_step x s)))"

lemma ba_step_refines:
  assumes "ba_wf ba" "legal_run [x] (ba_data ba, ba_position ba)"
  shows "\<exists>ba'. ba_step x ba = (fst (flat_step x (ba_data ba, ba_position ba)), ba') \<and> ba_wf ba' \<and>
           (ba_data ba', ba_position ba') = snd (flat_step x (ba_data ba, ba_position ba))"
proof (cases x)
  case (OpWrite bs)
  then show ?thesis using ba.put_law [OF assms(1), of bs] by auto
next
  case (OpRead n)
  show ?thesis
  proof (cases "length (ba_data ba) - ba_position ba < n")
    case True
    then show ?thesis using OpRead ba.get_short [OF assms(1), of n] assms(1) by simp
  next
    case False
    then have "ba_position ba + n \<le> length (ba_data ba)" "0 < n"
      using ba.pos_le [OF assms(1)] assms(2) OpRead by simp_all
    then show ?thesis using OpRead False ba.get_law [OF assms(1), of n] by auto
  qed
next
  case (OpSeek q)
  then show ?thesis using ba.seek_law [OF assms(1), of q] assms by auto
next
  case OpClear
  then show ?thesis using ba_wf_clear [OF assms(1)] by simp (simp add: ba_clear_def)
qed

lemma ba_run_refines:
  "ba_wf ba \<Longrightarrow> legal_run xs (ba_data ba, ba_position ba) \<Longrightarrow>
   ba_run xs ba = flat_run xs (ba_data ba, ba_position ba)"
proof (induction xs arbitrary: ba)
  case (Cons x xs)
  obtain ba' where s: "ba_step x ba = (fst (flat_step x (ba_data ba, ba_position ba)), ba')" "ba_wf ba'"
      "(ba_data ba', ba_position ba') = snd (flat_step x (ba_data ba, ba_position ba))"
    using ba_step_refines [OF Cons.prems(1), of x] Cons.prems(2) by auto
  then show ?case
    using Cons.IH [OF s(2)] Cons.prems(2) by (simp add: case_prod_beta)
qed simp



text \<open>the gather list that \<open>getReadBuffers\<close> hands to \<open>writev\<close> covers exactly the next
  \<open>len\<close> readable bytes (all of them when fewer are left), and agrees with \<open>toString\<close>.\<close>

theorem getReadBuffers_gathers:
  assumes "ba_wf ba"
  shows "\<exists>iovs s. getReadBuffers len ba = Inr (min len (ba_size ba - ba_position ba), iovs) \<and>
           ba_toString ba = Inr s \<and> iov_bytes (ba_nodes ba) iovs = take len s"
  using getReadBuffers_correct [OF assms, of len] ba_toString_correct [OF assms] by auto

definition ba_example :: bytearray where
  "ba_example = \<lparr> ba_baseSize = 2, ba_position = 1, ba_capacity = 6, ba_size = 5,
     ba_endian = BigEndian, ba_nodes = [[1, 2], [3, 4], [5, 0]], ba_cur = 0 \<rparr>"

lemma ba_wf_example: "ba_wf ba_example"
  by (simp add: ba_wf_def ba_example_def)

theorem getReadBuffers_gathers_witness:
  "\<exists>iovs s. getReadBuffers 3 ba_example = Inr (3, iovs) \<and> ba_toString ba_example = Inr s \<and>
     iov_bytes (ba_nodes ba_example) iovs = take 3 s"
  using getReadBuffers_gathers [OF ba_wf_example, of 3] by (simp add: ba_example_def)



lemma writeToFile_loop_first:
  assumes "d < b" "b \<le> r" "int p mod int b = int d"
  shows "writeToFile_loop b (n # ns) (int p) (int r) =
    bind_res (writeToFile_loop b ns (int (p + (b - d))) (int (r - (b - d))))
      (\<lambda>bs. Inr (take (b - d) (drop d n) @ bs))"
proof -
  have len: "(if int b < int r then int b else int r) - int d = int (b - d)" using assms by simp
  have "int p + int (b - d) = int (p + (b - d))" "int r - int (b - d) = int (r - (b - d))"
    using assms by simp_all
  then show ?thesis
    using assms by (subst writeToFile_loop.simps) (simp only: list.case Let_def assms(3) len nat_int, simp)
qed

lemma writeToFile_loop_misaligned:
  assumes "0 < d" "d < b" "0 < rs" "rs < b" "pos mod int b = int d"
  shows "\<exists>e. writeToFile_loop b ns pos (int rs) = Inl e"
proof (cases ns)
  case Nil
  then show ?thesis using assms by (subst writeToFile_loop.simps) simp
next
  case (Cons n ns')
  have step: "writeToFile_loop b ns pos (int rs) =
      (if int rs < int d then Inl InvalidArgument
       else bind_res (writeToFile_loop b ns' (pos + (int rs - int d)) (int d))
              (\<lambda>bs. Inr (take (nat (int rs - int d)) (drop d n) @ bs)))"
    using assms Cons by (subst writeToFile_loop.simps) (simp add: Let_def)
  have stuck: "\<exists>e. writeToFile_loop b ms q (int d) = Inl e" if "q mod int b = int rs" "d \<le> rs" for ms q
    using that
  proof (induction ms arbitrary: q)
    case (Cons m ms)
    show ?case
    proof (cases "d = rs")
      case True
      then obtain e where "writeToFile_loop b ms q (int d) = Inl e" using Cons by blast
      then show ?thesis using True Cons.prems assms by (subst writeToFile_loop.simps) (simp add: Let_def)
    qed (use Cons.prems assms in \<open>subst writeToFile_loop.simps, simp add: Let_def\<close>)
  qed (use assms in \<open>subst writeToFile_loop.simps, simp\<close>)
  have "(pos + (int rs - int d)) mod int b = int rs" if "d \<le> rs"
  proof -
    have "(pos + (int rs - int d)) mod int b = (pos mod int b + (int rs - int d)) mod int b"
      by (simp add: mod_add_left_eq)
    then show ?thesis using assms by simp
  qed
  then show ?thesis using step stuck [of "pos + (int rs - int d)" ns'] by (cases "d \<le> rs") auto
qed

text \<open>C20: \<open>writeToFile\<close> writes exactly the readable bytes when the cursor is at a chunk boundary,
  when at least one whole chunk of bytes is left, or when nothing is left; in every other state
  it never succeeds: the length it computes is short by the cursor's offset in its chunk, and the
  loop then runs off the chain or asks for a negative count.\<close>

theorem writeToFile_exact:
  assumes wf: "ba_wf ba"
  shows "(if ba_position ba mod ba_baseSize ba = 0 \<or> ba_baseSize ba \<le> getReadSize ba
             \<or> getReadSize ba = 0
          then writeToFile True ba = Inr (Some (drop (ba_position ba) (ba_data ba)))
          else \<exists>e. writeToFile True ba = Inl e)"
proof -
  let ?b = "ba_baseSize ba" and ?p = "ba_position ba" and ?r = "ba_size ba - ba_position ba"
  let ?ns = "drop (ba_cur ba) (ba_nodes ba)" and ?d = "ba_position ba mod ba_baseSize ba"
  note w = ba_wfD [OF wf]
  have pd: "?b * ba_cur ba + ?d = ?p" using w by simp
  have ch: "chunked ?b ?ns" using w(3) by (auto simp: chunked_def dest: in_set_dropD)
  have curle: "ba_cur ba \<le> length (ba_nodes ba)"
    using w div_le_mono [of ?p "?b * length (ba_nodes ba)" ?b] by simp
  have flat: "concat ?ns = drop (?b * ba_cur ba) (concat (ba_nodes ba))"
    using drop_chunks [OF w(3) curle] .
  have data: "drop ?p (ba_data ba) = take ?r (drop ?d (concat ?ns))"
    using pd flat by (simp add: ba_data_def drop_take add.commute)
  have room: "?d + ?r \<le> ?b * length ?ns"
  proof -
    have "?b * ba_cur ba + (?d + ?r) \<le> ?b * length (ba_nodes ba)" using pd w(4,5,6) by linarith
    then show ?thesis by (simp add: diff_mult_distrib2)
  qed
  have m: "int ?p mod int ?b = int ?d" by (simp add: zmod_int)
  consider "?r = 0" | "?r \<noteq> 0" "?d = 0" | "?d \<noteq> 0" "?b \<le> ?r" | "?r \<noteq> 0" "?d \<noteq> 0" "?r < ?b"
    by linarith
  then show ?thesis
  proof cases
    case 1
    then show ?thesis using wf by (simp add: writeToFile_def writeToFile_loop.simps)
  next
    case 2
    have "writeToFile_loop ?b ?ns (int ?p) (int ?r) = Inr (take ?r (concat ?ns))"
      using w ch room m 2 by (intro writeToFile_loop_aligned) simp_all
    then show ?thesis using 2 wf data by (simp add: writeToFile_def)
  next
    case 3
    have rpos: "0 < ?r" and dlt: "?d < ?b" using 3 w(1) by simp_all
    obtain n ns' where ns: "?ns = n # ns'" using room rpos by (cases ?ns) auto
    have ln: "length n = ?b" using ch ns by simp
    have eq: "?p + (?b - ?d) = ?b * Suc (ba_cur ba)"
      unfolding mult_Suc_right using pd dlt by linarith
    have al: "int (?p + (?b - ?d)) mod int ?b = 0"
      unfolding eq of_nat_mult by (rule mod_mult_self1_is_0)
    have "writeToFile_loop ?b ns' (int (?p + (?b - ?d))) (int (?r - (?b - ?d)))
        = Inr (take (?r - (?b - ?d)) (concat ns'))"
      using w(1) ch ns room 3 al by (intro writeToFile_loop_aligned) auto
    then have "writeToFile_loop ?b ?ns (int ?p) (int ?r)
        = Inr (take (?b - ?d) (drop ?d n) @ take (?r - (?b - ?d)) (concat ns'))"
      unfolding ns writeToFile_loop_first [OF dlt 3(2) m] by simp
    moreover have "take ?r (drop ?d (concat ?ns))
        = take (?b - ?d) (drop ?d n) @ take (?r - (?b - ?d)) (concat ns')"
      using ns ln 3 dlt by simp
    ultimately show ?thesis using 3 wf data by (simp add: writeToFile_def)
  next
    case 4
    then show ?thesis
      using writeToFile_loop_misaligned [of ?d ?b ?r "int ?p" ?ns] w(1) m wf
      by (auto simp: writeToFile_def)
  qed
qed

theorem writeToFile_exact_witness:
  "writeToFile True ba_example = Inr (Some [2, 3, 4, 5]) \<and>
   (\<exists>e. writeToFile True (ba_example\<lparr> ba_position := 3, ba_size := 4, ba_cur := 1 \<rparr>) = Inl e)"
  using writeToFile_exact [OF ba_wf_example]
    writeToFile_exact [of "ba_example\<lparr> ba_position := 3, ba_size := 4, ba_cur := 1 \<rparr>"]
  by (simp add: ba_example_def ba_wf_def ba_data_def getReadSize_def)

lemma read_loop_not_OutOfRange: "read_loop nodes cur pos off avail n \<noteq> Inl OutOfRange"
proof (induction nodes cur pos off avail n rule: read_loop.induct)
  case (1 nodes cur pos off avail n)
  then show ?case
    by (subst read_loop.simps) (auto simp: bind_res_eq_Inl)
qed

text \<open>the positioned \<open>read\<close> returns the \<open>n\<close> bytes at \<open>p\<close> when they are all valid, and throws
  when \<open>p\<close> is valid but the range is not. For a position past the end the unsigned
  difference \<open>_size - position\<close> wraps around, the check passes, and the call goes on to read
  chunks that hold no valid data or do not exist.\<close>

theorem ba_read_at_bounds:
  assumes "ba_wf ba" "0 < n"
  shows "(p + n \<le> ba_size ba \<longrightarrow> ba_read_at n p ba = Inr (take n (drop p (ba_data ba)))) \<and>
         (p \<le> ba_size ba \<and> ba_size ba < p + n \<longrightarrow> ba_read_at n p ba = Inl OutOfRange) \<and>
         (ba_size ba < p \<and> p + n \<le> 2 ^ 64 \<longrightarrow> ba_read_at n p ba \<noteq> Inl OutOfRange)"
proof -
  have "ba_read_at n p ba \<noteq> Inl OutOfRange" if "ba_size ba < p" "p + n \<le> 2 ^ 64"
  proof -
    have "n \<le> usub64 (ba_size ba) p" unfolding usub64_wrap [OF that(1)] using that by linarith
    then show ?thesis
      using read_loop_not_OutOfRange
      by (auto simp: ba_read_at_def Let_def bind_res_eq_Inl)
  qed
  moreover have "ba_read_at n p ba = Inl OutOfRange" if "p \<le> ba_size ba" "ba_size ba < p + n"
  proof -
    have "usub64 (ba_size ba) p < n" using that by simp
    then show ?thesis by (simp add: ba_read_at_def)
  qed
  ultimately show ?thesis using assms ba_read_at_correct [OF assms(1)] by blast
qed

theorem ba_read_at_bounds_witness:
  "ba_read_at 2 1 ba_example = Inr [2, 3] \<and> ba_read_at 2 4 ba_example = Inl OutOfRange \<and>
   ba_read_at 2 6 ba_example \<noteq> Inl OutOfRange"
  using ba_read_at_bounds [OF ba_wf_example, of 2 1] ba_read_at_bounds [OF ba_wf_example, of 2 4]
    ba_read_at_bounds [OF ba_wf_example, of 2 6]
  by (simp add: ba_example_def ba_data_def)

end
