(* ===== verification/ByteCodec.thy ===== *)
theory ByteCodec
  imports ByteArray
begin

text \<open>
  The typed layer of \<open>include/datastruct/bytearray.h\<close> over the raw buffer: fixed-width
  integers in either byte order, base-128 variable-length integers, ZigZag for signed ones,
  and strings with each kind of length prefix. A \<open>sizeof(T)\<close>-byte integer is a word; the
  host is little-endian, as in the build the sources target.
\<close>

section \<open>Integers in memory\<close>

definition sizeof_word :: "'a::len word \<Rightarrow> nat" where
  "sizeof_word v = LENGTH('a) div 8"

text \<open>The bytes of an integer in the memory of a little-endian host, and back.\<close>

definition le_bytes :: "'a::len word \<Rightarrow> byte list" where
  "le_bytes v = map (\<lambda>i. ucast (drop_bit (8 * i) v)) [0..<sizeof_word v]"

fun of_le_bytes :: "byte list \<Rightarrow> 'a::len word" where
  "of_le_bytes [] = 0"
| "of_le_bytes (b # bs) = ucast b OR push_bit 8 (of_le_bytes bs)"

definition byteswap :: "'a::len word \<Rightarrow> 'a word" where
  "byteswap v = of_le_bytes (rev (le_bytes v))"

definition host_order :: endian where
  "host_order = LittleEndian"

section \<open>Fixed-width integers\<close>

definition write_int :: "'a::len word \<Rightarrow> bytearray \<Rightarrow> bytearray result" where
  "write_int value ba =
    (let v = (if 1 < sizeof_word value \<and> ba_endian ba \<noteq> host_order then byteswap value else value)
     in ba_write (le_bytes v) ba)"

definition read_int :: "bytearray \<Rightarrow> ('a::len word \<times> bytearray) result" where
  "read_int ba =
    bind_res (ba_read (LENGTH('a) div 8) ba) (\<lambda>(bs, ba').
      let v = of_le_bytes bs in
      Inr (if 1 < sizeof_word (v :: 'a word) \<and> ba_endian ba \<noteq> host_order then byteswap v else v,
           ba'))"

section \<open>Variable-length integers\<close>

text \<open>The bytes that the loops of \<open>writeVaruint32\<close> and \<open>writeVaruint64\<close> put into their local array.\<close>

function varuint32_bytes :: "u32 \<Rightarrow> byte list" where
  "varuint32_bytes v =
    (if 0x80 \<le> v then ucast ((v AND 0x7F) OR 0x80) # varuint32_bytes (drop_bit 7 v) else [ucast v])"
  by pat_completeness auto
termination
proof (relation "measure unat")
  fix v :: u32
  assume "0x80 \<le> v"
  then have "0x80 \<le> unat v" by (simp add: word_le_nat_alt)
  then show "(drop_bit 7 v, v) \<in> measure unat" by (simp add: drop_bit_eq_div unat_div)
qed simp

function varuint64_bytes :: "u64 \<Rightarrow> byte list" where
  "varuint64_bytes v =
    (if 0x80 \<le> v then ucast ((v AND 0x7F) OR 0x80) # varuint64_bytes (drop_bit 7 v) else [ucast v])"
  by pat_completeness auto
termination
proof (relation "measure unat")
  fix v :: u64
  assume "0x80 \<le> v"
  then have "0x80 \<le> unat v" by (simp add: word_le_nat_alt)
  then show "(drop_bit 7 v, v) \<in> measure unat" by (simp add: drop_bit_eq_div unat_div)
qed simp

definition writeVaruint32 :: "u32 \<Rightarrow> bytearray \<Rightarrow> bytearray result" where
  "writeVaruint32 value ba = ba_write (varuint32_bytes value) ba"

definition writeVaruint64 :: "u64 \<Rightarrow> bytearray \<Rightarrow> bytearray result" where
  "writeVaruint64 value ba = ba_write (varuint64_bytes value) ba"

function readVaruint32_loop :: "nat \<Rightarrow> u32 \<Rightarrow> bytearray \<Rightarrow> (u32 \<times> bytearray) result" where
  "readVaruint32_loop i acc ba =
    (if i < 32 then
       bind_res (ba_read 1 ba) (\<lambda>(bs, ba').
         let b = hd bs in
         if b < 0x80 then Inr (acc OR push_bit i (ucast b), ba')
         else readVaruint32_loop (i + 7) (acc OR push_bit i (ucast (b AND 0x7f))) ba')
     else Inr (acc, ba))"
  by pat_completeness auto
termination by (relation "measure (\<lambda>(i, acc, ba). 32 - i)") auto

definition readVaruint32 :: "bytearray \<Rightarrow> (u32 \<times> bytearray) result" where
  "readVaruint32 ba = readVaruint32_loop 0 0 ba"

function readVaruint64_loop :: "nat \<Rightarrow> u64 \<Rightarrow> bytearray \<Rightarrow> (u64 \<times> bytearray) result" where
  "readVaruint64_loop i acc ba =
    (if i < 64 then
       bind_res (ba_read 1 ba) (\<lambda>(bs, ba').
         let b = hd bs in
         if b < 0x80 then Inr (acc OR push_bit i (ucast b), ba')
         else readVaruint64_loop (i + 7) (acc OR push_bit i (ucast (b AND 0x7f))) ba')
     else Inr (acc, ba))"
  by pat_completeness auto
termination by (relation "measure (\<lambda>(i, acc, ba). 64 - i)") auto

definition readVaruint64 :: "bytearray \<Rightarrow> (u64 \<times> bytearray) result" where
  "readVaruint64 ba = readVaruint64_loop 0 0 ba"

text \<open>
  ZigZag. Negating the least value of the signed type overflows, which the language leaves
  undefined.
\<close>

definition encodeZigzag32 :: "u32 \<Rightarrow> u32 result" where
  "encodeZigzag32 v =
    (if v = 0x80000000 then Inl SignedOverflow
     else Inr (if v <s 0 then (- v) * 2 - 1 else v * 2))"

definition encodeZigzag64 :: "u64 \<Rightarrow> u64 result" where
  "encodeZigzag64 v =
    (if v = 0x8000000000000000 then Inl SignedOverflow
     else Inr (if v <s 0 then (- v) * 2 - 1 else v * 2))"

definition decodeZigzag32 :: "u32 \<Rightarrow> u32" where
  "decodeZigzag32 v = drop_bit 1 v XOR - (v AND 1)"

definition decodeZigzag64 :: "u64 \<Rightarrow> u64" where
  "decodeZigzag64 v = drop_bit 1 v XOR - (v AND 1)"

text \<open>The \<open>Varint\<close> branches of the templates, for a type of at most 32 bits and a wider one.\<close>

definition write_varint :: "bool \<Rightarrow> 'a::len word \<Rightarrow> bytearray \<Rightarrow> bytearray result" where
  "write_varint is_signed value ba =
    (if is_signed then
       (if sizeof_word value \<le> 4
        then bind_res (encodeZigzag32 (scast value)) (\<lambda>v. writeVaruint32 v ba)
        else bind_res (encodeZigzag64 (scast value)) (\<lambda>v. writeVaruint64 v ba))
     else
       (if sizeof_word value \<le> 4 then writeVaruint32 (ucast value) ba
        else writeVaruint64 (ucast value) ba))"

definition read_varint :: "bool \<Rightarrow> bytearray \<Rightarrow> ('a::len word \<times> bytearray) result" where
  "read_varint is_signed ba =
    (if LENGTH('a) div 8 \<le> 4
     then bind_res (readVaruint32 ba) (\<lambda>(v, ba').
            Inr (ucast (if is_signed then decodeZigzag32 v else v), ba'))
     else bind_res (readVaruint64 ba) (\<lambda>(v, ba').
            Inr (ucast (if is_signed then decodeZigzag64 v else v), ba')))"

section \<open>Strings\<close>

datatype ByteSize = Auto | U8 | U16 | U32 | U64 | Varint

definition write_prefix :: "ByteSize \<Rightarrow> nat \<Rightarrow> bytearray \<Rightarrow> bytearray result" where
  "write_prefix sz len ba =
    (case sz of
       U16 \<Rightarrow> write_int (word_of_nat len :: u16) ba
     | U32 \<Rightarrow> write_int (word_of_nat len :: u32) ba
     | U64 \<Rightarrow> write_int (word_of_nat len :: u64) ba
     | Varint \<Rightarrow> write_varint False (word_of_nat len :: u64) ba
     | _ \<Rightarrow> Inr ba)"

definition write_string :: "ByteSize \<Rightarrow> byte list \<Rightarrow> bytearray \<Rightarrow> bytearray result" where
  "write_string sz value ba =
    bind_res (write_prefix sz (length value) ba) (\<lambda>ba'.
      if value \<noteq> [] then ba_write value ba' else Inr ba')"

definition read_prefix :: "ByteSize \<Rightarrow> bytearray \<Rightarrow> (nat \<times> bytearray) result" where
  "read_prefix sz ba =
    (case sz of
       U16 \<Rightarrow> bind_res (read_int ba) (\<lambda>(v :: u16, ba'). Inr (unat v, ba'))
     | U32 \<Rightarrow> bind_res (read_int ba) (\<lambda>(v :: u32, ba'). Inr (unat v, ba'))
     | U64 \<Rightarrow> bind_res (read_int ba) (\<lambda>(v :: u64, ba'). Inr (unat v, ba'))
     | Varint \<Rightarrow> bind_res (read_varint False ba) (\<lambda>(v :: u64, ba'). Inr (unat v, ba'))
     | _ \<Rightarrow> Inr (getReadSize ba, ba))"

definition read_string :: "ByteSize \<Rightarrow> bytearray \<Rightarrow> (byte list \<times> bytearray) result" where
  "read_string sz ba =
    bind_res (read_prefix sz ba) (\<lambda>(len, ba').
      if 0 < len then ba_read len ba' else Inr ([], ba'))"

declare varuint32_bytes.simps [simp del] varuint64_bytes.simps [simp del]
declare readVaruint32_loop.simps [simp del] readVaruint64_loop.simps [simp del]

section \<open>Bytes of a word\<close>

lemma length_le_bytes [simp]: "length (le_bytes (v :: 'a::len word)) = LENGTH('a) div 8"
  by (simp add: le_bytes_def sizeof_word_def)

lemma bit_of_le_bytes:
  "bit (of_le_bytes bs :: 'a::len word) i \<longleftrightarrow>
     i < LENGTH('a) \<and> i < 8 * length bs \<and> bit (bs ! (i div 8)) (i mod 8)"
proof (induction bs arbitrary: i)
  case (Cons b bs)
  show ?case
  proof (cases "i < 8")
    case True
    then show ?thesis by (auto simp: bit_or_iff bit_push_bit_iff bit_ucast_iff)
  next
    case False
    then obtain j where j: "i = j + 8" by (metis add.commute le_add_diff_inverse not_less)
    have "\<not> bit b i" using False bit_imp_le_length [of b i] by auto
    moreover have "i div 8 = Suc (j div 8)" using j by simp
    ultimately show ?thesis
      using Cons.IH [of j] j by (auto simp: bit_or_iff bit_push_bit_iff bit_ucast_iff)
  qed
qed simp

lemma of_le_bytes_le_bytes [simp]:
  assumes "8 dvd LENGTH('a)"
  shows "of_le_bytes (le_bytes (v :: 'a::len word)) = v"
proof (rule bit_word_eqI)
  fix i assume "i < LENGTH('a)"
  moreover have "i div 8 < LENGTH('a) div 8" if "i < LENGTH('a)"
    using that assms by (metis div_less_iff_less_mult dvd_mult_div_cancel mult.commute zero_less_numeral)
  moreover have "8 * (i div 8) + i mod 8 = i" by simp
  ultimately show "bit (of_le_bytes (le_bytes v) :: 'a word) i = bit v i"
    using assms
    by (simp add: bit_of_le_bytes le_bytes_def sizeof_word_def bit_ucast_iff bit_drop_bit_eq)
qed

lemma le_bytes_of_le_bytes:
  assumes "8 dvd LENGTH('a)" "length bs = LENGTH('a) div 8"
  shows "le_bytes (of_le_bytes bs :: 'a::len word) = bs"
proof (rule nth_equalityI)
  show "length (le_bytes (of_le_bytes bs :: 'a word)) = length bs" using assms by simp
  fix i assume "i < length (le_bytes (of_le_bytes bs :: 'a word))"
  then have i: "i < LENGTH('a) div 8" by simp
  have "8 * i + k < LENGTH('a)" if "k < 8" for k
    using i assms(1) that by auto
  then have "(ucast (drop_bit (8 * i) (of_le_bytes bs :: 'a word)) :: byte) = bs ! i"
    using i assms by (intro bit_word_eqI)
      (auto simp: bit_ucast_iff bit_drop_bit_eq bit_of_le_bytes)
  then show "le_bytes (of_le_bytes bs :: 'a word) ! i = bs ! i"
    using i by (simp add: le_bytes_def sizeof_word_def)
qed

lemma le_bytes_byteswap:
  "8 dvd LENGTH('a) \<Longrightarrow> le_bytes (byteswap (v :: 'a::len word)) = rev (le_bytes v)"
  by (simp add: byteswap_def le_bytes_of_le_bytes)

lemma byteswap_byteswap:
  "8 dvd LENGTH('a) \<Longrightarrow> byteswap (byteswap (v :: 'a::len word)) = v"
  unfolding byteswap_def [of "byteswap v"] by (simp add: le_bytes_byteswap)

section \<open>The contract of a codec\<close>

text \<open>
  A codec writes the bytes it stands for at the cursor, in the buffer's byte order, and reads
  them back from there, whatever follows them.
\<close>

locale byte_codec =
  fixes wr :: "'v \<Rightarrow> bytearray \<Rightarrow> bytearray result"
    and rd :: "bytearray \<Rightarrow> ('v \<times> bytearray) result"
    and enc :: "endian \<Rightarrow> 'v \<Rightarrow> byte list"
    and ok :: "'v \<Rightarrow> bool"
  assumes wr_law: "ok v \<Longrightarrow> ba_wf ba \<Longrightarrow> \<exists>ba'. wr v ba = Inr ba' \<and> ba_wf ba' \<and>
        ba_endian ba' = ba_endian ba \<and> ba_position ba' = ba_position ba + length (enc (ba_endian ba) v) \<and>
        ba_data ba' = overwrite (ba_data ba) (ba_position ba) (enc (ba_endian ba) v)"
    and rd_law: "ok v \<Longrightarrow> ba.upcoming ba (enc (ba_endian ba) v @ ys) \<Longrightarrow> \<exists>ba'. rd ba = Inr (v, ba') \<and>
        ba.upcoming ba' ys \<and> ba_endian ba' = ba_endian ba \<and> ba_data ba' = ba_data ba \<and>
        ba_position ba' = ba_position ba + length (enc (ba_endian ba) v)"
begin

lemma round_trip:
  assumes v: "ok v" and wf: "ba_wf ba"
  shows "\<exists>ba1 ba2 ba3. wr v ba = Inr ba1 \<and> setPosition (ba_position ba) ba1 = Inr ba2 \<and>
           rd ba2 = Inr (v, ba3) \<and> ba_position ba3 = ba_position ba1 \<and> ba_data ba3 = ba_data ba1"
proof -
  let ?p = "ba_position ba" and ?bs = "enc (ba_endian ba) v"
  obtain ba1 where b1: "wr v ba = Inr ba1" "ba_wf ba1" "ba_endian ba1 = ba_endian ba"
      "ba_position ba1 = ?p + length ?bs" "ba_data ba1 = overwrite (ba_data ba) ?p ?bs"
    using wr_law [OF v wf] by blast
  have "?p \<le> length (ba_data ba1)" using ba.pos_le [OF b1(2)] b1(4) by simp
  then obtain ba2 where b2: "setPosition ?p ba1 = Inr ba2" "ba_wf ba2" "ba_endian ba2 = ba_endian ba1"
      "ba_data ba2 = ba_data ba1" "ba_position ba2 = ?p"
    using ba.seek_law [OF b1(2)] by blast
  have "drop ?p (ba_data ba2) = ?bs @ drop (?p + length ?bs) (ba_data ba)"
    using ba.pos_le [OF wf] b1(5) b2(4) by (simp add: overwrite_def)
  then have "ba.upcoming ba2 (enc (ba_endian ba2) v @ [])"
    using b1 b2 by (auto simp: ba.upcoming_def)
  then obtain ba3 where "rd ba2 = Inr (v, ba3)" "ba_data ba3 = ba_data ba2"
      "ba_position ba3 = ba_position ba2 + length (enc (ba_endian ba2) v)"
    using rd_law [OF v] by blast
  then show ?thesis using b1 b2 by auto
qed

end

section \<open>Fixed-width integers\<close>

definition int_bytes :: "endian \<Rightarrow> 'a::len word \<Rightarrow> byte list" where
  "int_bytes e v = (if e = host_order then le_bytes v else rev (le_bytes v))"

lemma length_int_bytes [simp]: "length (int_bytes e (v :: 'a::len word)) = LENGTH('a) div 8"
  by (simp add: int_bytes_def)

lemma rev_single: "length xs \<le> Suc 0 \<Longrightarrow> rev xs = xs"
  by (cases xs) auto

lemma write_int_bytes:
  fixes v :: "'a::len word"
  assumes "8 dvd LENGTH('a)"
  shows "write_int v ba = ba_write (int_bytes (ba_endian ba) v) ba"
proof (cases "1 < sizeof_word v")
  case True
  then show ?thesis using assms by (simp add: write_int_def int_bytes_def le_bytes_byteswap)
next
  case False
  then have "rev (le_bytes v) = le_bytes v" by (intro rev_single) (simp add: sizeof_word_def)
  then show ?thesis using False by (simp add: write_int_def int_bytes_def)
qed

lemma read_int_bytes:
  fixes v :: "'a::len word"
  assumes l: "8 dvd LENGTH('a)" and up: "ba.upcoming ba (int_bytes (ba_endian ba) v @ ys)"
  shows "\<exists>ba'. read_int ba = Inr (v, ba') \<and> ba.upcoming ba' ys \<and> ba_endian ba' = ba_endian ba \<and>
           ba_data ba' = ba_data ba \<and> ba_position ba' = ba_position ba + length (int_bytes (ba_endian ba) v)"
proof -
  let ?bs = "int_bytes (ba_endian ba) v"
  have ne: "?bs \<noteq> []"
  proof -
    have "8 \<le> LENGTH('a)" using l by (simp add: dvd_imp_le)
    then have "0 < length ?bs" by (simp add: div_greater_zero_iff)
    then show ?thesis by (rule length_greater_0_conv [THEN iffD1])
  qed
  obtain ba' where g: "ba_read (length ?bs) ba = Inr (?bs, ba')" "ba.upcoming ba' ys"
      "ba_endian ba' = ba_endian ba" "ba_data ba' = ba_data ba"
      "ba_position ba' = ba_position ba + length ?bs"
    using ba.get_upcoming [OF up ne] by blast
  have "of_le_bytes (rev (le_bytes v)) = byteswap v" by (simp add: byteswap_def)
  moreover have "byteswap v = v" if "\<not> 1 < sizeof_word v"
    using that l rev_single [of "le_bytes v"] by (simp add: byteswap_def sizeof_word_def)
  moreover have "ba_read (LENGTH('a) div 8) ba = Inr (?bs, ba')" using g(1) by simp
  ultimately have "read_int ba = Inr (v, ba')"
    using l by (simp add: read_int_def Let_def sizeof_word_def)
      (simp add: int_bytes_def byteswap_byteswap)
  then show ?thesis using g by blast
qed

lemma int_codec: "8 dvd LENGTH('a::len) \<Longrightarrow> byte_codec (write_int :: 'a word \<Rightarrow> _) read_int int_bytes (\<lambda>_. True)"
proof (unfold_locales, goal_cases)
  case (1 v ba)
  then show ?case
    using ba.put_law [of ba "int_bytes (ba_endian ba) v"] by (auto simp: write_int_bytes)
next
  case (2 v ba ys)
  then show ?case using read_int_bytes by blast
qed

interpretation fx8: byte_codec "write_int :: 8 word \<Rightarrow> _" read_int int_bytes "\<lambda>_. True"
  by (rule int_codec) simp

interpretation fx16: byte_codec "write_int :: u16 \<Rightarrow> _" read_int int_bytes "\<lambda>_. True"
  by (rule int_codec) simp

interpretation fx32: byte_codec "write_int :: u32 \<Rightarrow> _" read_int int_bytes "\<lambda>_. True"
  by (rule int_codec) simp

interpretation fx64: byte_codec "write_int :: u64 \<Rightarrow> _" read_int int_bytes "\<lambda>_. True"
  by (rule int_codec) simp

section \<open>Variable-length integers\<close>

text \<open>
  One step of the encoding splits off the low seven bits; one step of the decoding puts them
  back at their place.
\<close>

lemma split_low7:
  fixes w :: "'a::len word"
  shows "push_bit i (w AND 0x7F) OR push_bit (i + 7) (drop_bit 7 w) = push_bit i w"
proof -
  have m: "(0x7F :: 'a word) = mask 7" by (simp add: mask_eq_exp_minus_1)
  show ?thesis
    unfolding m
  proof (rule bit_word_eqI)
    fix n assume "n < LENGTH('a)"
    moreover have "7 + (n - (i + 7)) = n - i" if "i + 7 \<le> n" using that by simp
    ultimately show "bit (push_bit i (w AND mask 7) OR push_bit (i + 7) (drop_bit 7 w)) n
        = bit (push_bit i w) n"
      by (cases "i + 7 \<le> n") (auto simp: bit_simps)
  qed
qed

lemma bit_0x80: "bit (0x80 :: 'a::len word) n \<longleftrightarrow> n = 7 \<and> 7 < LENGTH('a)"
proof -
  have "(0x80 :: 'a word) = 2 ^ 7" by simp
  moreover have "bit (2 ^ 7 :: 'a word) n \<longleftrightarrow> n = 7 \<and> 7 < LENGTH('a)"
    unfolding bit_exp_iff by auto
  ultimately show ?thesis by (simp only:)
qed

lemma byte_lt_0x80: "(b :: byte) < 0x80 \<longleftrightarrow> \<not> bit b 7"
proof -
  have "bit b 7 \<longleftrightarrow> bit (unat b) 7" by (simp add: bit_unsigned_iff)
  then have "bit b 7 \<longleftrightarrow> odd (unat b div 128)" by (simp add: bit_iff_odd)
  moreover have "unat b < 256" using unsigned_less [of b] by simp
  moreover have "128 \<le> unat b \<Longrightarrow> unat b < 256 \<Longrightarrow> unat b div 128 = 1"
    by (intro div_nat_eqI) simp_all
  ultimately have "bit b 7 \<longleftrightarrow> 128 \<le> unat b" by (cases "128 \<le> unat b") auto
  then show ?thesis by (auto simp: word_less_nat_alt)
qed

lemma varint_byte:
  fixes w :: "'a::len word"
  assumes "8 \<le> LENGTH('a)"
  defines "b \<equiv> ucast ((w AND 0x7F) OR 0x80) :: byte"
  shows "\<not> b < 0x80" and "(ucast (b AND 0x7f) :: 'a word) = w AND 0x7F"
proof -
  have m: "(0x7F :: 'a word) = mask 7" "(0x7f :: byte) = mask 7"
    by (simp_all add: mask_eq_exp_minus_1)
  obtain h :: "'a word" where h: "h = 0x80" by simp
  have hb: "bit h n \<longleftrightarrow> n = 7" for n using assms(1) bit_0x80 [of n, where 'a = 'a] h by simp
  show "\<not> b < 0x80"
    unfolding byte_lt_0x80 b_def m h [symmetric] using assms(1) by (auto simp: bit_simps hb)
  show "(ucast (b AND 0x7f) :: 'a word) = w AND 0x7F"
    unfolding b_def m h [symmetric] using assms(1) by (intro bit_word_eqI) (auto simp: bit_simps hb)
qed

lemma varint_last_byte:
  fixes w :: "'a::len word"
  assumes "8 \<le> LENGTH('a)" "w < 0x80"
  shows "(ucast w :: byte) < 0x80" and "ucast (ucast w :: byte) = w"
proof -
  have u: "(128 :: nat) < 2 ^ LENGTH('a)"
    using assms(1) power_increasing [of 8 "LENGTH('a)" "2::nat"] by simp
  have lt: "unat w < 128"
    using assms(2) u by (simp add: word_less_nat_alt unat_numeral take_bit_eq_mod)
  have un: "unat (ucast w :: byte) = unat w" using lt by (simp add: unsigned_ucast_eq take_bit_eq_mod)
  show "(ucast w :: byte) < 0x80" using un lt by (simp add: word_less_nat_alt)
  show "ucast (ucast w :: byte) = w"
    unfolding word_unat_eq_iff
    by (subst unsigned_ucast_eq) (use un lt u in \<open>simp add: take_bit_eq_mod\<close>)
qed

lemma readVaruint32_loop_correct:
  assumes "ba.upcoming ba (varuint32_bytes w @ ys)" "i < 32" "unat w < 2 ^ (32 - i)"
  shows "\<exists>ba'. readVaruint32_loop i acc ba = Inr (acc OR push_bit i w, ba') \<and> ba.upcoming ba' ys \<and>
           ba_endian ba' = ba_endian ba \<and> ba_data ba' = ba_data ba \<and>
           ba_position ba' = ba_position ba + length (varuint32_bytes w)"
  using assms
proof (induction w arbitrary: i acc ba rule: varuint32_bytes.induct)
  case (1 w)
  show ?case
  proof (cases "0x80 \<le> w")
    case True
    let ?b = "ucast ((w AND 0x7F) OR 0x80) :: byte" and ?w = "drop_bit 7 w"
    have vb: "varuint32_bytes w = [?b] @ varuint32_bytes ?w"
      using True by (subst varuint32_bytes.simps) simp
    have "2 ^ 7 \<le> unat w" using True by (simp add: word_le_nat_alt)
    then have lt: "(2::nat) ^ 7 < 2 ^ (32 - i)" using "1.prems"(3) by linarith
    then have i: "i + 7 < 32" using power_less_imp_less_exp [of "2::nat" 7 "32 - i"] by simp
    have w': "unat ?w < 2 ^ (32 - (i + 7))"
    proof -
      have "32 - i = (32 - (i + 7)) + 7" using i by simp
      then have "unat w < 2 ^ (32 - (i + 7)) * 2 ^ 7"
        using "1.prems"(3) by (metis power_add)
      then show ?thesis by (simp add: drop_bit_eq_div unat_div less_mult_imp_div_less)
    qed
    obtain ba1 where g: "ba_read 1 ba = Inr ([?b], ba1)" "ba.upcoming ba1 (varuint32_bytes ?w @ ys)"
        "ba_endian ba1 = ba_endian ba" "ba_data ba1 = ba_data ba" "ba_position ba1 = ba_position ba + 1"
      using ba.get_upcoming [of ba "[?b]" "varuint32_bytes ?w @ ys"] "1.prems"(1) vb by auto
    have step: "readVaruint32_loop i acc ba
        = readVaruint32_loop (i + 7) (acc OR push_bit i (w AND 0x7F)) ba1"
      using g(1) varint_byte [of w] "1.prems"(2) by (subst readVaruint32_loop.simps) (simp add: Let_def)
    show ?thesis
      using "1.IH" [OF True g(2) i w', of "acc OR push_bit i (w AND 0x7F)"] g step vb
        split_low7 [of i w] by (auto simp: or.assoc)
  next
    case False
    let ?b = "ucast w :: byte"
    have vb: "varuint32_bytes w = [?b]" using False by (subst varuint32_bytes.simps) simp
    obtain ba1 where g: "ba_read 1 ba = Inr ([?b], ba1)" "ba.upcoming ba1 ys"
        "ba_endian ba1 = ba_endian ba" "ba_data ba1 = ba_data ba" "ba_position ba1 = ba_position ba + 1"
      using ba.get_upcoming [of ba "[?b]" ys] "1.prems"(1) vb by auto
    have "readVaruint32_loop i acc ba = Inr (acc OR push_bit i w, ba1)"
      using g(1) varint_last_byte [of w] False "1.prems"(2)
      by (subst readVaruint32_loop.simps) (simp add: Let_def)
    then show ?thesis using g vb by simp
  qed
qed

lemma readVaruint64_loop_correct:
  assumes "ba.upcoming ba (varuint64_bytes w @ ys)" "i < 64" "unat w < 2 ^ (64 - i)"
  shows "\<exists>ba'. readVaruint64_loop i acc ba = Inr (acc OR push_bit i w, ba') \<and> ba.upcoming ba' ys \<and>
           ba_endian ba' = ba_endian ba \<and> ba_data ba' = ba_data ba \<and>
           ba_position ba' = ba_position ba + length (varuint64_bytes w)"
  using assms
proof (induction w arbitrary: i acc ba rule: varuint64_bytes.induct)
  case (1 w)
  show ?case
  proof (cases "0x80 \<le> w")
    case True
    let ?b = "ucast ((w AND 0x7F) OR 0x80) :: byte" and ?w = "drop_bit 7 w"
    have vb: "varuint64_bytes w = [?b] @ varuint64_bytes ?w"
      using True by (subst varuint64_bytes.simps) simp
    have "2 ^ 7 \<le> unat w" using True by (simp add: word_le_nat_alt)
    then have lt: "(2::nat) ^ 7 < 2 ^ (64 - i)" using "1.prems"(3) by linarith
    then have i: "i + 7 < 64" using power_less_imp_less_exp [of "2::nat" 7 "64 - i"] by simp
    have w': "unat ?w < 2 ^ (64 - (i + 7))"
    proof -
      have "64 - i = (64 - (i + 7)) + 7" using i by simp
      then have "unat w < 2 ^ (64 - (i + 7)) * 2 ^ 7"
        using "1.prems"(3) by (metis power_add)
      then show ?thesis by (simp add: drop_bit_eq_div unat_div less_mult_imp_div_less)
    qed
    obtain ba1 where g: "ba_read 1 ba = Inr ([?b], ba1)" "ba.upcoming ba1 (varuint64_bytes ?w @ ys)"
        "ba_endian ba1 = ba_endian ba" "ba_data ba1 = ba_data ba" "ba_position ba1 = ba_position ba + 1"
      using ba.get_upcoming [of ba "[?b]" "varuint64_bytes ?w @ ys"] "1.prems"(1) vb by auto
    have step: "readVaruint64_loop i acc ba
        = readVaruint64_loop (i + 7) (acc OR push_bit i (w AND 0x7F)) ba1"
      using g(1) varint_byte [of w] "1.prems"(2) by (subst readVaruint64_loop.simps) (simp add: Let_def)
    show ?thesis
      using "1.IH" [OF True g(2) i w', of "acc OR push_bit i (w AND 0x7F)"] g step vb
        split_low7 [of i w] by (auto simp: or.assoc)
  next
    case False
    let ?b = "ucast w :: byte"
    have vb: "varuint64_bytes w = [?b]" using False by (subst varuint64_bytes.simps) simp
    obtain ba1 where g: "ba_read 1 ba = Inr ([?b], ba1)" "ba.upcoming ba1 ys"
        "ba_endian ba1 = ba_endian ba" "ba_data ba1 = ba_data ba" "ba_position ba1 = ba_position ba + 1"
      using ba.get_upcoming [of ba "[?b]" ys] "1.prems"(1) vb by auto
    have "readVaruint64_loop i acc ba = Inr (acc OR push_bit i w, ba1)"
      using g(1) varint_last_byte [of w] False "1.prems"(2)
      by (subst readVaruint64_loop.simps) (simp add: Let_def)
    then show ?thesis using g vb by simp
  qed
qed

text \<open>The encoding of a 32-bit (64-bit) value fits the local array of 5 (10) bytes.\<close>

lemma length_varuint32: "unat w < 2 ^ (7 * k) \<Longrightarrow> 0 < k \<Longrightarrow> length (varuint32_bytes w) \<le> k"
proof (induction w arbitrary: k rule: varuint32_bytes.induct)
  case (1 w)
  show ?case
  proof (cases "0x80 \<le> w")
    case True
    then have "128 \<le> unat w" by (simp add: word_le_nat_alt)
    then obtain j where j: "k = Suc j" "0 < j"
      using "1.prems" by (cases k; cases "k - 1") auto
    have "unat (drop_bit 7 w) < 2 ^ (7 * j)"
      using "1.prems"(1) j by (simp add: drop_bit_eq_div unat_div power_add less_mult_imp_div_less)
    then show ?thesis using "1.IH" [OF True, of j] j True by (subst varuint32_bytes.simps) simp
  qed (use "1.prems" in \<open>subst varuint32_bytes.simps, simp\<close>)
qed

lemma length_varuint64: "unat w < 2 ^ (7 * k) \<Longrightarrow> 0 < k \<Longrightarrow> length (varuint64_bytes w) \<le> k"
proof (induction w arbitrary: k rule: varuint64_bytes.induct)
  case (1 w)
  show ?case
  proof (cases "0x80 \<le> w")
    case True
    then have "128 \<le> unat w" by (simp add: word_le_nat_alt)
    then obtain j where j: "k = Suc j" "0 < j"
      using "1.prems" by (cases k; cases "k - 1") auto
    have "unat (drop_bit 7 w) < 2 ^ (7 * j)"
      using "1.prems"(1) j by (simp add: drop_bit_eq_div unat_div power_add less_mult_imp_div_less)
    then show ?thesis using "1.IH" [OF True, of j] j True by (subst varuint64_bytes.simps) simp
  qed (use "1.prems" in \<open>subst varuint64_bytes.simps, simp\<close>)
qed

section \<open>ZigZag\<close>

lemma bit_times2: "bit (v * 2 :: 'a::len word) (Suc n) \<longleftrightarrow> Suc n < LENGTH('a) \<and> bit v n"
  using bit_push_bit_iff [of 1 v "Suc n"] by simp

lemma zigzag_nonneg:
  fixes v :: "'a::len word"
  assumes "\<not> bit v (LENGTH('a) - 1)"
  shows "drop_bit 1 (v * 2) XOR - (v * 2 AND 1) = v"
proof -
  have "v * 2 = push_bit 1 v" by (simp add: push_bit_eq_mult)
  moreover have "push_bit 1 v AND 1 = 0" by (simp add: and_one_eq mod_2_eq_odd)
  moreover have "drop_bit 1 (push_bit 1 v) = v"
  proof (rule bit_word_eqI)
    fix n assume "n < LENGTH('a)"
    then show "bit (drop_bit 1 (push_bit 1 v)) n = bit v n"
      using assms by (cases "n = LENGTH('a) - 1") (auto simp: bit_simps bit_times2)
  qed
  ultimately show ?thesis by simp
qed

lemma zigzag_neg:
  fixes v :: "'a::len word"
  assumes "bit v (LENGTH('a) - 1)"
  shows "drop_bit 1 ((- v) * 2 - 1) XOR - (((- v) * 2 - 1) AND 1) = v"
proof -
  let ?e = "push_bit 1 (NOT v) OR 1"
  have "push_bit 1 (NOT v) AND 1 = 0" by (simp add: and_one_eq mod_2_eq_odd)
  then have "?e = push_bit 1 (NOT v) + 1" by (simp add: disjunctive_add_eq_or)
  also have "\<dots> = (- v) * 2 - 1" by (simp add: push_bit_eq_mult not_eq_complement algebra_simps)
  finally have e: "(- v) * 2 - 1 = ?e" ..
  have d: "drop_bit 1 ?e = NOT v"
  proof (rule bit_word_eqI)
    fix n assume "n < LENGTH('a)"
    then show "bit (drop_bit 1 ?e) n = bit (NOT v) n"
      using assms by (cases "n = LENGTH('a) - 1") (auto simp: bit_simps bit_times2)
  qed
  have a: "?e AND 1 = 1" by (rule bit_word_eqI) (auto simp: bit_simps)
  show ?thesis unfolding e d a by (rule bit_word_eqI) (simp add: bit_simps)
qed

lemma sless_0_bit: "(v :: 'a::len word) <s 0 \<longleftrightarrow> bit v (LENGTH('a) - 1)"
  by (simp add: word_sless_alt bit_last_iff)

lemma decode_encode_zigzag32: "encodeZigzag32 v = Inr e \<Longrightarrow> decodeZigzag32 e = v"
  using zigzag_nonneg [of v] zigzag_neg [of v]
  by (auto simp: encodeZigzag32_def decodeZigzag32_def sless_0_bit split: if_splits)

lemma decode_encode_zigzag64: "encodeZigzag64 v = Inr e \<Longrightarrow> decodeZigzag64 e = v"
  using zigzag_nonneg [of v] zigzag_neg [of v]
  by (auto simp: encodeZigzag64_def decodeZigzag64_def sless_0_bit split: if_splits)

section \<open>The codecs of variable-length integers and strings\<close>

lemma put_bytes:
  "ba_wf ba \<Longrightarrow> \<exists>ba'. ba_write bs ba = Inr ba' \<and> ba_wf ba' \<and> ba_endian ba' = ba_endian ba \<and>
     ba_position ba' = ba_position ba + length bs \<and>
     ba_data ba' = overwrite (ba_data ba) (ba_position ba) bs"
  using ba.put_law [of ba bs] by blast

lemma readVaruint32_correct:
  assumes "ba.upcoming ba (varuint32_bytes w @ ys)"
  shows "\<exists>ba'. readVaruint32 ba = Inr (w, ba') \<and> ba.upcoming ba' ys \<and>
           ba_endian ba' = ba_endian ba \<and> ba_data ba' = ba_data ba \<and>
           ba_position ba' = ba_position ba + length (varuint32_bytes w)"
  using readVaruint32_loop_correct [OF assms, of 0 0] unsigned_less [of w]
  by (simp add: readVaruint32_def)

lemma readVaruint64_correct:
  assumes "ba.upcoming ba (varuint64_bytes w @ ys)"
  shows "\<exists>ba'. readVaruint64 ba = Inr (w, ba') \<and> ba.upcoming ba' ys \<and>
           ba_endian ba' = ba_endian ba \<and> ba_data ba' = ba_data ba \<and>
           ba_position ba' = ba_position ba + length (varuint64_bytes w)"
  using readVaruint64_loop_correct [OF assms, of 0 0] unsigned_less [of w]
  by (simp add: readVaruint64_def)

definition zigzag32_bytes :: "u32 \<Rightarrow> byte list" where
  "zigzag32_bytes v = (case encodeZigzag32 v of Inl _ \<Rightarrow> [] | Inr e \<Rightarrow> varuint32_bytes e)"

definition zigzag64_bytes :: "u64 \<Rightarrow> byte list" where
  "zigzag64_bytes v = (case encodeZigzag64 v of Inl _ \<Rightarrow> [] | Inr e \<Rightarrow> varuint64_bytes e)"

interpretation vu32: byte_codec "write_varint False :: u32 \<Rightarrow> _" "read_varint False"
  "\<lambda>_. varuint32_bytes" "\<lambda>_. True"
proof (unfold_locales, goal_cases)
  case (1 v ba)
  then show ?case
    using put_bytes [of ba "varuint32_bytes v"]
    by (simp add: write_varint_def writeVaruint32_def sizeof_word_def)
next
  case (2 v ba ys)
  then show ?case using readVaruint32_correct [of ba v ys] by (auto simp: read_varint_def)
qed

interpretation vu64: byte_codec "write_varint False :: u64 \<Rightarrow> _" "read_varint False"
  "\<lambda>_. varuint64_bytes" "\<lambda>_. True"
proof (unfold_locales, goal_cases)
  case (1 v ba)
  then show ?case
    using put_bytes [of ba "varuint64_bytes v"]
    by (simp add: write_varint_def writeVaruint64_def sizeof_word_def)
next
  case (2 v ba ys)
  then show ?case using readVaruint64_correct [of ba v ys] by (auto simp: read_varint_def)
qed

interpretation vs32: byte_codec "write_varint True :: u32 \<Rightarrow> _" "read_varint True"
  "\<lambda>_. zigzag32_bytes" "\<lambda>v. v \<noteq> 0x80000000"
proof (unfold_locales, goal_cases)
  case (1 v ba)
  then obtain e where "encodeZigzag32 v = Inr e" by (simp add: encodeZigzag32_def)
  then show ?case
    using put_bytes [OF 1(2), of "varuint32_bytes e"]
    by (simp add: write_varint_def writeVaruint32_def sizeof_word_def zigzag32_bytes_def)
next
  case (2 v ba ys)
  then obtain e where e: "encodeZigzag32 v = Inr e" by (simp add: encodeZigzag32_def)
  then show ?case
    using readVaruint32_correct [of ba e ys] 2(2) decode_encode_zigzag32 [OF e]
    by (auto simp: read_varint_def zigzag32_bytes_def)
qed

interpretation vs64: byte_codec "write_varint True :: u64 \<Rightarrow> _" "read_varint True"
  "\<lambda>_. zigzag64_bytes" "\<lambda>v. v \<noteq> 0x8000000000000000"
proof (unfold_locales, goal_cases)
  case (1 v ba)
  then obtain e where "encodeZigzag64 v = Inr e" by (simp add: encodeZigzag64_def)
  then show ?case
    using put_bytes [OF 1(2), of "varuint64_bytes e"]
    by (simp add: write_varint_def writeVaruint64_def sizeof_word_def zigzag64_bytes_def)
next
  case (2 v ba ys)
  then obtain e where e: "encodeZigzag64 v = Inr e" by (simp add: encodeZigzag64_def)
  then show ?case
    using readVaruint64_correct [of ba e ys] 2(2) decode_encode_zigzag64 [OF e]
    by (auto simp: read_varint_def zigzag64_bytes_def)
qed

text \<open>The length prefixes, as codecs of natural numbers below the width's bound.\<close>

lemma unat_word_of_nat: "n < 2 ^ LENGTH('a) \<Longrightarrow> unat (word_of_nat n :: 'a::len word) = n"
  by (simp add: unat_of_nat take_bit_nat_eq_self_iff)

interpretation p16: byte_codec "write_prefix U16" "read_prefix U16"
  "\<lambda>e n. int_bytes e (word_of_nat n :: u16)" "\<lambda>n. n < 2 ^ 16"
proof (unfold_locales, goal_cases)
  case (1 n ba)
  then show ?case using fx16.wr_law [of ba "word_of_nat n"] by (simp add: write_prefix_def)
next
  case (2 n ba ys)
  then show ?case
    using fx16.rd_law [OF TrueI 2(2)] unat_word_of_nat [of n, where 'a = 16]
    by (auto simp: read_prefix_def)
qed

interpretation p32: byte_codec "write_prefix U32" "read_prefix U32"
  "\<lambda>e n. int_bytes e (word_of_nat n :: u32)" "\<lambda>n. n < 2 ^ 32"
proof (unfold_locales, goal_cases)
  case (1 n ba)
  then show ?case using fx32.wr_law [of ba "word_of_nat n"] by (simp add: write_prefix_def)
next
  case (2 n ba ys)
  then show ?case
    using fx32.rd_law [OF TrueI 2(2)] unat_word_of_nat [of n, where 'a = 32]
    by (auto simp: read_prefix_def)
qed

interpretation p64: byte_codec "write_prefix U64" "read_prefix U64"
  "\<lambda>e n. int_bytes e (word_of_nat n :: u64)" "\<lambda>n. n < 2 ^ 64"
proof (unfold_locales, goal_cases)
  case (1 n ba)
  then show ?case using fx64.wr_law [of ba "word_of_nat n"] by (simp add: write_prefix_def)
next
  case (2 n ba ys)
  then show ?case
    using fx64.rd_law [OF TrueI 2(2)] unat_word_of_nat [of n, where 'a = 64]
    by (auto simp: read_prefix_def)
qed

interpretation pvar: byte_codec "write_prefix Varint" "read_prefix Varint"
  "\<lambda>e n. varuint64_bytes (word_of_nat n)" "\<lambda>n. n < 2 ^ 64"
proof (unfold_locales, goal_cases)
  case (1 n ba)
  then show ?case using vu64.wr_law [of ba "word_of_nat n"] by (simp add: write_prefix_def)
next
  case (2 n ba ys)
  then show ?case
    using vu64.rd_law [OF TrueI 2(2)] unat_word_of_nat [of n, where 'a = 64]
    by (auto simp: read_prefix_def)
qed

lemma string_codec:
  assumes "byte_codec (write_prefix sz) (read_prefix sz) enc ok"
  shows "byte_codec (write_string sz) (read_string sz) (\<lambda>e s. enc e (length s) @ s) (\<lambda>s. ok (length s))"
proof -
  note wr = byte_codec.wr_law [OF assms] and rd = byte_codec.rd_law [OF assms]
  show ?thesis
  proof (unfold_locales, goal_cases)
    case (1 s ba)
    let ?p = "enc (ba_endian ba) (length s)"
    obtain ba1 where b1: "write_prefix sz (length s) ba = Inr ba1" "ba_wf ba1"
        "ba_endian ba1 = ba_endian ba" "ba_position ba1 = ba_position ba + length ?p"
        "ba_data ba1 = overwrite (ba_data ba) (ba_position ba) ?p"
      using wr [OF 1] by blast
    obtain ba2 where "ba_write s ba1 = Inr ba2" "ba_wf ba2" "ba_endian ba2 = ba_endian ba1"
        "ba_position ba2 = ba_position ba1 + length s"
        "ba_data ba2 = overwrite (ba_data ba1) (ba_position ba1) s"
      using put_bytes [OF b1(2), of s] by blast
    then show ?case
      using b1 overwrite_split [OF ba.pos_le [OF 1(2)], of ?p s]
      by (cases "s = []") (auto simp: write_string_def)
  next
    case (2 s ba ys)
    then obtain ba1 where b1: "read_prefix sz ba = Inr (length s, ba1)" "ba.upcoming ba1 (s @ ys)"
        "ba_endian ba1 = ba_endian ba" "ba_data ba1 = ba_data ba"
        "ba_position ba1 = ba_position ba + length (enc (ba_endian ba) (length s))"
      using rd [OF 2(1), of ba "s @ ys"] by auto
    show ?case
    proof (cases "s = []")
      case False
      then show ?thesis
        using b1 ba.get_upcoming [OF b1(2) False] by (auto simp: read_string_def)
    qed (use b1 in \<open>simp add: read_string_def\<close>)
  qed
qed

interpretation str16: byte_codec "write_string U16" "read_string U16"
  "\<lambda>e s. int_bytes e (word_of_nat (length s) :: u16) @ s" "\<lambda>s. length s < 2 ^ 16"
  by (rule string_codec) (rule p16.byte_codec_axioms)

interpretation str32: byte_codec "write_string U32" "read_string U32"
  "\<lambda>e s. int_bytes e (word_of_nat (length s) :: u32) @ s" "\<lambda>s. length s < 2 ^ 32"
  by (rule string_codec) (rule p32.byte_codec_axioms)

interpretation str64: byte_codec "write_string U64" "read_string U64"
  "\<lambda>e s. int_bytes e (word_of_nat (length s) :: u64) @ s" "\<lambda>s. length s < 2 ^ 64"
  by (rule string_codec) (rule p64.byte_codec_axioms)

interpretation strv: byte_codec "write_string Varint" "read_string Varint"
  "\<lambda>e s. varuint64_bytes (word_of_nat (length s)) @ s" "\<lambda>s. length s < 2 ^ 64"
  by (rule string_codec) (rule pvar.byte_codec_axioms)

section \<open>Messages: sequences of typed fields\<close>

text \<open>A field with the template arguments it is written with; a reader names the same arguments.\<close>

datatype field =
    FInt8 byte | FInt16 u16 | FInt32 u32 | FInt64 u64
  | FVaru32 u32 | FVaru64 u64 | FVars32 u32 | FVars64 u64
  | FString ByteSize "byte list"

datatype kind = KInt8 | KInt16 | KInt32 | KInt64 | KVaru32 | KVaru64 | KVars32 | KVars64 | KString ByteSize

fun field_kind :: "field \<Rightarrow> kind" where
  "field_kind (FInt8 _) = KInt8"
| "field_kind (FInt16 _) = KInt16"
| "field_kind (FInt32 _) = KInt32"
| "field_kind (FInt64 _) = KInt64"
| "field_kind (FVaru32 _) = KVaru32"
| "field_kind (FVaru64 _) = KVaru64"
| "field_kind (FVars32 _) = KVars32"
| "field_kind (FVars64 _) = KVars64"
| "field_kind (FString sz _) = KString sz"

fun write_field :: "field \<Rightarrow> bytearray \<Rightarrow> bytearray result" where
  "write_field (FInt8 v) ba = write_int v ba"
| "write_field (FInt16 v) ba = write_int v ba"
| "write_field (FInt32 v) ba = write_int v ba"
| "write_field (FInt64 v) ba = write_int v ba"
| "write_field (FVaru32 v) ba = write_varint False v ba"
| "write_field (FVaru64 v) ba = write_varint False v ba"
| "write_field (FVars32 v) ba = write_varint True v ba"
| "write_field (FVars64 v) ba = write_varint True v ba"
| "write_field (FString sz s) ba = write_string sz s ba"

definition map_fst_res :: "('a \<Rightarrow> 'c) \<Rightarrow> ('a \<times> 'b) result \<Rightarrow> ('c \<times> 'b) result" where
  "map_fst_res f m = bind_res m (\<lambda>(x, y). Inr (f x, y))"

fun read_field :: "kind \<Rightarrow> bytearray \<Rightarrow> (field \<times> bytearray) result" where
  "read_field KInt8 ba = map_fst_res FInt8 (read_int ba)"
| "read_field KInt16 ba = map_fst_res FInt16 (read_int ba)"
| "read_field KInt32 ba = map_fst_res FInt32 (read_int ba)"
| "read_field KInt64 ba = map_fst_res FInt64 (read_int ba)"
| "read_field KVaru32 ba = map_fst_res FVaru32 (read_varint False ba)"
| "read_field KVaru64 ba = map_fst_res FVaru64 (read_varint False ba)"
| "read_field KVars32 ba = map_fst_res FVars32 (read_varint True ba)"
| "read_field KVars64 ba = map_fst_res FVars64 (read_varint True ba)"
| "read_field (KString sz) ba = map_fst_res (FString sz) (read_string sz ba)"

fun write_fields :: "field list \<Rightarrow> bytearray \<Rightarrow> bytearray result" where
  "write_fields [] ba = Inr ba"
| "write_fields (f # fs) ba = bind_res (write_field f ba) (write_fields fs)"

fun read_fields :: "kind list \<Rightarrow> bytearray \<Rightarrow> (field list \<times> bytearray) result" where
  "read_fields [] ba = Inr ([], ba)"
| "read_fields (k # ks) ba =
    bind_res (read_field k ba) (\<lambda>(f, ba'). map_fst_res ((#) f) (read_fields ks ba'))"

text \<open>
  Fields that can be read back: the least signed values are excluded, a string carries a
  length prefix, and its length fits the prefix.
\<close>

fun field_ok :: "field \<Rightarrow> bool" where
  "field_ok (FVars32 v) = (v \<noteq> 0x80000000)"
| "field_ok (FVars64 v) = (v \<noteq> 0x8000000000000000)"
| "field_ok (FString U16 s) = (length s < 2 ^ 16)"
| "field_ok (FString U32 s) = (length s < 2 ^ 32)"
| "field_ok (FString U64 s) = (length s < 2 ^ 64)"
| "field_ok (FString Varint s) = (length s < 2 ^ 64)"
| "field_ok (FString _ s) = False"
| "field_ok _ = True"

fun field_bytes :: "endian \<Rightarrow> field \<Rightarrow> byte list" where
  "field_bytes e (FInt8 v) = int_bytes e v"
| "field_bytes e (FInt16 v) = int_bytes e v"
| "field_bytes e (FInt32 v) = int_bytes e v"
| "field_bytes e (FInt64 v) = int_bytes e v"
| "field_bytes e (FVaru32 v) = varuint32_bytes v"
| "field_bytes e (FVaru64 v) = varuint64_bytes v"
| "field_bytes e (FVars32 v) = zigzag32_bytes v"
| "field_bytes e (FVars64 v) = zigzag64_bytes v"
| "field_bytes e (FString U16 s) = int_bytes e (word_of_nat (length s) :: u16) @ s"
| "field_bytes e (FString U32 s) = int_bytes e (word_of_nat (length s) :: u32) @ s"
| "field_bytes e (FString U64 s) = int_bytes e (word_of_nat (length s) :: u64) @ s"
| "field_bytes e (FString Varint s) = varuint64_bytes (word_of_nat (length s)) @ s"
| "field_bytes e (FString _ s) = s"

lemma map_fst_res_Inr: "m = Inr (x, y) \<Longrightarrow> map_fst_res g m = Inr (g x, y)"
  by (simp add: map_fst_res_def)

lemmas string_wr_laws = str16.wr_law str32.wr_law str64.wr_law strv.wr_law

lemma write_field_law:
  assumes "field_ok f" "ba_wf ba"
  shows "\<exists>ba'. write_field f ba = Inr ba' \<and> ba_wf ba' \<and> ba_endian ba' = ba_endian ba \<and>
    ba_position ba' = ba_position ba + length (field_bytes (ba_endian ba) f) \<and>
    ba_data ba' = overwrite (ba_data ba) (ba_position ba) (field_bytes (ba_endian ba) f)"
proof (cases f)
  case (FInt8 v)
  then show ?thesis using fx8.wr_law [OF TrueI assms(2), of v] by (simp del: length_int_bytes)
next
  case (FInt16 v)
  then show ?thesis using fx16.wr_law [OF TrueI assms(2), of v] by (simp del: length_int_bytes)
next
  case (FInt32 v)
  then show ?thesis using fx32.wr_law [OF TrueI assms(2), of v] by (simp del: length_int_bytes)
next
  case (FInt64 v)
  then show ?thesis using fx64.wr_law [OF TrueI assms(2), of v] by (simp del: length_int_bytes)
next
  case (FVaru32 v)
  then show ?thesis using vu32.wr_law [OF TrueI assms(2), of v] by (simp del: length_int_bytes)
next
  case (FVaru64 v)
  then show ?thesis using vu64.wr_law [OF TrueI assms(2), of v] by (simp del: length_int_bytes)
next
  case (FVars32 v)
  then show ?thesis using vs32.wr_law [OF _ assms(2), of v] assms(1) by simp
next
  case (FVars64 v)
  then show ?thesis using vs64.wr_law [OF _ assms(2), of v] assms(1) by simp
next
  case (FString sz s)
  then show ?thesis
    using assms string_wr_laws [OF _ assms(2), of s] by (cases sz) simp_all
qed

lemma read_field_law:
  assumes "field_ok f" "ba.upcoming ba (field_bytes (ba_endian ba) f @ ys)"
  shows "\<exists>ba'. read_field (field_kind f) ba = Inr (f, ba') \<and> ba.upcoming ba' ys \<and>
    ba_endian ba' = ba_endian ba \<and> ba_data ba' = ba_data ba \<and>
    ba_position ba' = ba_position ba + length (field_bytes (ba_endian ba) f)"
proof (cases f)
  case (FInt8 v)
  then show ?thesis
    using fx8.rd_law [OF TrueI, of ba v ys] assms(2)
    by (auto simp: map_fst_res_def simp del: length_int_bytes)
next
  case (FInt16 v)
  then show ?thesis
    using fx16.rd_law [OF TrueI, of ba v ys] assms(2)
    by (auto simp: map_fst_res_def simp del: length_int_bytes)
next
  case (FInt32 v)
  then show ?thesis
    using fx32.rd_law [OF TrueI, of ba v ys] assms(2)
    by (auto simp: map_fst_res_def simp del: length_int_bytes)
next
  case (FInt64 v)
  then show ?thesis
    using fx64.rd_law [OF TrueI, of ba v ys] assms(2)
    by (auto simp: map_fst_res_def simp del: length_int_bytes)
next
  case (FVaru32 v)
  then show ?thesis
    using vu32.rd_law [OF TrueI, of ba v ys] assms(2)
    by (auto simp: map_fst_res_def simp del: length_int_bytes)
next
  case (FVaru64 v)
  then show ?thesis
    using vu64.rd_law [OF TrueI, of ba v ys] assms(2)
    by (auto simp: map_fst_res_def simp del: length_int_bytes)
next
  case (FVars32 v)
  then show ?thesis using vs32.rd_law [of v ba ys] assms by (auto simp: map_fst_res_def)
next
  case (FVars64 v)
  then show ?thesis using vs64.rd_law [of v ba ys] assms by (auto simp: map_fst_res_def)
next
  case (FString sz s)
  show ?thesis
  proof (cases sz)
    case U16
    then show ?thesis
      using str16.rd_law [of s ba ys] assms FString by (auto simp: map_fst_res_def)
  next
    case U32
    then show ?thesis
      using str32.rd_law [of s ba ys] assms FString by (auto simp: map_fst_res_def)
  next
    case U64
    then show ?thesis
      using str64.rd_law [of s ba ys] assms FString by (auto simp: map_fst_res_def)
  next
    case Varint
    then show ?thesis
      using strv.rd_law [of s ba ys] assms FString by (auto simp: map_fst_res_def)
  qed (use assms(1) FString in simp_all)
qed

lemma write_fields_law:
  assumes "list_all field_ok fs" "ba_wf ba"
  shows "\<exists>ba'. write_fields fs ba = Inr ba' \<and> ba_wf ba' \<and> ba_endian ba' = ba_endian ba \<and>
    ba_position ba' = ba_position ba + length (concat (map (field_bytes (ba_endian ba)) fs)) \<and>
    ba_data ba' = overwrite (ba_data ba) (ba_position ba) (concat (map (field_bytes (ba_endian ba)) fs))"
  using assms
proof (induction fs arbitrary: ba)
  case (Cons f fs)
  let ?e = "field_bytes (ba_endian ba)"
  obtain ba1 where b1: "write_field f ba = Inr ba1" "ba_wf ba1" "ba_endian ba1 = ba_endian ba"
      "ba_position ba1 = ba_position ba + length (?e f)"
      "ba_data ba1 = overwrite (ba_data ba) (ba_position ba) (?e f)"
    using write_field_law [of f ba] Cons.prems by auto
  obtain ba2 where "write_fields fs ba1 = Inr ba2" "ba_wf ba2" "ba_endian ba2 = ba_endian ba1"
      "ba_position ba2 = ba_position ba1 + length (concat (map ?e fs))"
      "ba_data ba2 = overwrite (ba_data ba1) (ba_position ba1) (concat (map ?e fs))"
    using Cons.IH [of ba1] Cons.prems b1(2,3) by auto
  then show ?case
    using b1 overwrite_split [OF ba.pos_le [OF Cons.prems(2)], of "?e f" "concat (map ?e fs)"] by auto
qed simp

lemma read_fields_law:
  assumes "list_all field_ok fs" "ba.upcoming ba (concat (map (field_bytes (ba_endian ba)) fs) @ ys)"
  shows "\<exists>ba'. read_fields (map field_kind fs) ba = Inr (fs, ba') \<and> ba.upcoming ba' ys \<and>
    ba_endian ba' = ba_endian ba \<and> ba_data ba' = ba_data ba \<and>
    ba_position ba' = ba_position ba + length (concat (map (field_bytes (ba_endian ba)) fs))"
  using assms
proof (induction fs arbitrary: ba)
  case (Cons f fs)
  let ?e = "field_bytes (ba_endian ba)"
  obtain ba1 where b1: "read_field (field_kind f) ba = Inr (f, ba1)"
      "ba.upcoming ba1 (concat (map ?e fs) @ ys)" "ba_endian ba1 = ba_endian ba"
      "ba_data ba1 = ba_data ba" "ba_position ba1 = ba_position ba + length (?e f)"
    using read_field_law [of f ba "concat (map ?e fs) @ ys"] Cons.prems by auto
  obtain ba2 where "read_fields (map field_kind fs) ba1 = Inr (fs, ba2)" "ba.upcoming ba2 ys"
      "ba_endian ba2 = ba_endian ba1" "ba_data ba2 = ba_data ba1"
      "ba_position ba2 = ba_position ba1 + length (concat (map ?e fs))"
    using Cons.IH [of ba1] Cons.prems b1(2,3) by auto
  then show ?case using b1 by (auto simp: map_fst_res_def)
qed simp

section \<open>Properties of the typed layer\<close>

text \<open>C2: a message of any typed fields, written at the cursor of a well-formed buffer in either
  byte order, reads back field by field after seeking to where it began: every value is
  recovered, the cursor ends where the writer left it, and bytes before the message are
  untouched. The fields exclude the least signed 32- and 64-bit values in ZigZag form and
  strings longer than their length prefix can say.\<close>

theorem message_round_trip:
  assumes ok: "list_all field_ok fs" and wf: "ba_wf ba"
  shows "\<exists>ba1 ba2 ba3. write_fields fs ba = Inr ba1 \<and> setPosition (ba_position ba) ba1 = Inr ba2 \<and>
           read_fields (map field_kind fs) ba2 = Inr (fs, ba3) \<and>
           ba_position ba3 = ba_position ba1 \<and> ba_data ba3 = ba_data ba1 \<and>
           take (ba_position ba) (ba_data ba3) = take (ba_position ba) (ba_data ba)"
proof -
  let ?bs = "concat (map (field_bytes (ba_endian ba)) fs)" and ?p = "ba_position ba"
  obtain ba1 where b1: "write_fields fs ba = Inr ba1" "ba_wf ba1" "ba_endian ba1 = ba_endian ba"
      "ba_position ba1 = ?p + length ?bs" "ba_data ba1 = overwrite (ba_data ba) ?p ?bs"
    using write_fields_law [OF ok wf] by blast
  have "?p \<le> length (ba_data ba1)" using ba.pos_le [OF b1(2)] b1(4) by simp
  then obtain ba2 where b2: "setPosition ?p ba1 = Inr ba2" "ba_wf ba2" "ba_endian ba2 = ba_endian ba1"
      "ba_data ba2 = ba_data ba1" "ba_position ba2 = ?p"
    using ba.seek_law [OF b1(2)] by blast
  have "drop ?p (ba_data ba2) = ?bs @ drop (?p + length ?bs) (ba_data ba)"
    using ba.pos_le [OF wf] b1(5) b2(4) by (simp add: overwrite_def)
  then have "ba.upcoming ba2 (concat (map (field_bytes (ba_endian ba2)) fs) @ [])"
    using b1 b2 by (auto simp: ba.upcoming_def)
  then obtain ba3 where "read_fields (map field_kind fs) ba2 = Inr (fs, ba3)"
      "ba_data ba3 = ba_data ba2"
      "ba_position ba3 = ba_position ba2 + length (concat (map (field_bytes (ba_endian ba2)) fs))"
    using read_fields_law [OF ok] by blast
  then show ?thesis using b1 b2 ba.pos_le [OF wf] by auto
qed

theorem message_round_trip_witness:
  "\<exists>ba1 ba2 ba3.
     write_fields [FInt16 0x1234, FVars32 (- 3), FString U16 [104, 105]] (new_ByteArray 4) = Inr ba1 \<and>
     setPosition 0 ba1 = Inr ba2 \<and>
     read_fields [KInt16, KVars32, KString U16] ba2
       = Inr ([FInt16 0x1234, FVars32 (- 3), FString U16 [104, 105]], ba3)"
  using message_round_trip [of "[FInt16 0x1234, FVars32 (- 3), FString U16 [104, 105]]"
      "new_ByteArray 4", OF _ ba_wf_new]
  by (auto simp: new_ByteArray_def)

text \<open>the variable-length encodings stay within the 5 and 10 bytes of the local arrays that
  \<open>writeVaruint32\<close> and \<open>writeVaruint64\<close> fill.\<close>

theorem varuint_buffer_bounds:
  "length (varuint32_bytes v) \<le> 5 \<and> length (varuint64_bytes w) \<le> 10"
proof -
  have "unat v < 2 ^ LENGTH(32)" "unat w < 2 ^ LENGTH(64)" by (rule unsigned_less)+
  then have "unat v < 2 ^ (7 * 5)" "unat w < 2 ^ (7 * 10)" by simp_all
  then show ?thesis
    using length_varuint32 [of v 5] length_varuint64 [of w 10] by simp
qed

text \<open>ZigZag decoding inverts encoding on every 32- and 64-bit value but the least one,
  the only one the encoder does not accept because its negation overflows.\<close>

theorem zigzag_round_trip:
  "(case encodeZigzag32 v of Inl e \<Rightarrow> v = 0x80000000 \<and> e = SignedOverflow
                           | Inr x \<Rightarrow> decodeZigzag32 x = v) \<and>
   (case encodeZigzag64 w of Inl e \<Rightarrow> w = 0x8000000000000000 \<and> e = SignedOverflow
                           | Inr y \<Rightarrow> decodeZigzag64 y = w)"
  using decode_encode_zigzag32 [of v] decode_encode_zigzag64 [of w]
  by (auto simp: encodeZigzag32_def encodeZigzag64_def split: sum.splits)

end
