(* ===== verification/SocketStream.thy ===== *)
theory SocketStream
  imports ByteCodec
begin

text \<open>
  Byte streams: \<open>Socket\<close> (\<open>src/socket.cpp\<close>, the connected stream socket's send, receive and
  close), \<open>SocketStream\<close> (\<open>src/streams/socket_stream.cpp\<close>) and the exact-length transfers of
  \<open>Stream\<close> (\<open>src/stream.cpp\<close>), into flat buffers and into a \<open>ByteArray\<close>.

  The kernel is a script in the socket: the bytes the peer sends, and one answer for every
  \<open>recv\<close> and \<open>send\<close> call. An answer is what the call may transfer at most; a transfer is also
  bounded by the length asked for, by what has arrived and by the kernel's own limit for one
  call, and an answer that is not positive is returned as it is (0 for an orderly shutdown,
  -1 for an error). A script that has run out reports the shutdown.
\<close>

section \<open>Sockets\<close>

record socket =
  sk_sock :: int
  sk_isConnected :: bool
  sk_rx :: "byte list"
  sk_rxans :: "int list"
  sk_tx :: "byte list"
  sk_txans :: "int list"

definition MAX_RW_COUNT :: nat where
  "MAX_RW_COUNT = 0x7ffff000"

definition kernel_recv :: "nat \<Rightarrow> socket \<Rightarrow> int \<times> byte list \<times> socket" where
  "kernel_recv len s =
    (case sk_rxans s of
       [] \<Rightarrow> (0, [], s)
     | a # as \<Rightarrow>
         if a \<le> 0 then (a, [], s\<lparr> sk_rxans := as \<rparr>)
         else let n = min (min (nat a) MAX_RW_COUNT) (min len (length (sk_rx s))) in
           (int n, take n (sk_rx s), s\<lparr> sk_rx := drop n (sk_rx s), sk_rxans := as \<rparr>))"

definition kernel_send :: "byte list \<Rightarrow> socket \<Rightarrow> int \<times> socket" where
  "kernel_send bs s =
    (case sk_txans s of
       [] \<Rightarrow> (0, s)
     | a # as \<Rightarrow>
         if a \<le> 0 then (a, s\<lparr> sk_txans := as \<rparr>)
         else let n = min (min (nat a) MAX_RW_COUNT) (length bs) in
           (int n, s\<lparr> sk_tx := sk_tx s @ take n bs, sk_txans := as \<rparr>))"

definition socket_recv :: "nat \<Rightarrow> socket \<Rightarrow> int \<times> byte list \<times> socket" where
  "socket_recv len s = (if sk_isConnected s then kernel_recv len s else (-1, [], s))"

definition socket_send :: "byte list \<Rightarrow> socket \<Rightarrow> int \<times> socket" where
  "socket_send bs s = (if sk_isConnected s then kernel_send bs s else (-1, s))"

definition socket_close :: "socket \<Rightarrow> bool \<times> socket" where
  "socket_close s =
    (if \<not> sk_isConnected s \<and> sk_sock s = -1 then (True, s)
     else (False, s\<lparr> sk_isConnected := False, sk_sock := -1 \<rparr>))"

text \<open>\<open>recvmsg\<close> fills the ranges of a scatter list in order.\<close>

fun scatter :: "byte list list \<Rightarrow> iovec list \<Rightarrow> byte list \<Rightarrow> byte list list" where
  "scatter nodes [] bs = nodes"
| "scatter nodes ((i, off, l) # iovs) bs =
    scatter (nodes[i := overwrite (nodes ! i) off (take l bs)]) iovs (drop l bs)"

definition iov_total :: "iovec list \<Rightarrow> nat" where
  "iov_total iovs = sum_list (map (\<lambda>(i, off, l). l) iovs)"

definition socket_recv_iov ::
    "iovec list \<Rightarrow> byte list list \<Rightarrow> socket \<Rightarrow> int \<times> byte list list \<times> socket" where
  "socket_recv_iov iovs nodes s =
    (let (rt, bs, s') = socket_recv (iov_total iovs) s in (rt, scatter nodes iovs bs, s'))"

definition socket_send_iov :: "iovec list \<Rightarrow> byte list list \<Rightarrow> socket \<Rightarrow> int \<times> socket" where
  "socket_send_iov iovs nodes s = socket_send (iov_bytes nodes iovs) s"

section \<open>Socket streams\<close>

record sockstream =
  ss_socket :: "socket option"
  ss_owner :: bool

definition ss_isConnected :: "sockstream \<Rightarrow> bool" where
  "ss_isConnected ss = (case ss_socket ss of None \<Rightarrow> False | Some s \<Rightarrow> sk_isConnected s)"

definition ss_read :: "nat \<Rightarrow> sockstream \<Rightarrow> int \<times> byte list \<times> sockstream" where
  "ss_read len ss =
    (case ss_socket ss of
       None \<Rightarrow> (-1, [], ss)
     | Some s \<Rightarrow>
         if \<not> ss_isConnected ss then (-1, [], ss)
         else let (rt, bs, s') = socket_recv len s in (rt, bs, ss\<lparr> ss_socket := Some s' \<rparr>))"

definition ss_write :: "byte list \<Rightarrow> sockstream \<Rightarrow> int \<times> sockstream" where
  "ss_write bs ss =
    (case ss_socket ss of
       None \<Rightarrow> (-1, ss)
     | Some s \<Rightarrow>
         if \<not> ss_isConnected ss then (-1, ss)
         else let (rt, s') = socket_send bs s in (rt, ss\<lparr> ss_socket := Some s' \<rparr>))"

definition ss_read_ba ::
    "nat \<Rightarrow> bytearray \<times> sockstream \<Rightarrow> (int \<times> bytearray \<times> sockstream) result" where
  "ss_read_ba len = (\<lambda>(ba, ss).
    (case ss_socket ss of
       None \<Rightarrow> Inr (-1, ba, ss)
     | Some s \<Rightarrow>
         if \<not> ss_isConnected ss then Inr (-1, ba, ss)
         else bind_res (getWriteBuffers len ba) (\<lambda>(_, iovs, ba1).
           let (rt, nodes, s') = socket_recv_iov iovs (ba_nodes ba1) s;
               ba2 = ba1\<lparr> ba_nodes := nodes \<rparr>;
               ss' = ss\<lparr> ss_socket := Some s' \<rparr> in
           if 0 < rt
           then bind_res (setPosition (ba_position ba2 + nat rt) ba2) (\<lambda>ba3. Inr (rt, ba3, ss'))
           else Inr (rt, ba2, ss'))))"

definition ss_write_ba ::
    "nat \<Rightarrow> bytearray \<times> sockstream \<Rightarrow> (int \<times> bytearray \<times> sockstream) result" where
  "ss_write_ba len = (\<lambda>(ba, ss).
    (case ss_socket ss of
       None \<Rightarrow> Inr (-1, ba, ss)
     | Some s \<Rightarrow>
         if \<not> ss_isConnected ss then Inr (-1, ba, ss)
         else bind_res (getReadBuffers len ba) (\<lambda>(_, iovs).
           let (rt, s') = socket_send_iov iovs (ba_nodes ba) s;
               ss' = ss\<lparr> ss_socket := Some s' \<rparr> in
           if 0 < rt
           then bind_res (setPosition (ba_position ba + nat rt) ba) (\<lambda>ba'. Inr (rt, ba', ss'))
           else Inr (rt, ba, ss'))))"

definition ss_close :: "sockstream \<Rightarrow> sockstream" where
  "ss_close ss =
    (case ss_socket ss of
       None \<Rightarrow> ss
     | Some s \<Rightarrow> ss\<lparr> ss_socket := Some (snd (socket_close s)) \<rparr>)"

definition delete_SocketStream :: "sockstream \<Rightarrow> sockstream" where
  "delete_SocketStream ss = (if ss_owner ss \<and> ss_socket ss \<noteq> None then ss_close ss else ss)"

section \<open>Exact-length transfers\<close>

text \<open>
  The loops of \<open>readFixSize\<close> and \<open>writeFixSize\<close>, over the virtual \<open>read\<close> and \<open>write\<close>. The
  first component is \<open>Some e\<close> when the loop returned early with a count that is not positive.
  A length is a \<open>size_t\<close>, the counter an \<open>int64_t\<close> and the result an \<open>int\<close>.
\<close>

definition to_int64 :: "nat \<Rightarrow> int" where
  "to_int64 n = sint (of_nat n :: u64)"

definition to_int32 :: "nat \<Rightarrow> int" where
  "to_int32 n = sint (of_nat n :: u32)"

definition fix_result :: "nat \<Rightarrow> int option \<Rightarrow> int" where
  "fix_result len r = (case r of None \<Rightarrow> to_int32 len | Some e \<Rightarrow> e)"

function readFix_loop ::
    "(nat \<Rightarrow> 's \<Rightarrow> int \<times> byte list \<times> 's) \<Rightarrow> int \<Rightarrow> 's \<Rightarrow> int option \<times> byte list \<times> 's" where
  "readFix_loop rd left s =
    (if left \<le> 0 then (None, [], s)
     else let (len, bs, s') = rd (nat left) s in
       if len \<le> 0 then (Some len, [], s')
       else let (r, bs', s'') = readFix_loop rd (left - len) s' in (r, bs @ bs', s''))"
  by pat_completeness auto
termination
  by (relation "measure (\<lambda>(rd, left, s). nat left)") auto

definition readFixSize ::
    "(nat \<Rightarrow> 's \<Rightarrow> int \<times> byte list \<times> 's) \<Rightarrow> nat \<Rightarrow> 's \<Rightarrow> int \<times> byte list \<times> 's" where
  "readFixSize rd len s =
    (let (r, bs, s') = readFix_loop rd (to_int64 len) s in (fix_result len r, bs, s'))"

function writeFix_loop ::
    "(byte list \<Rightarrow> 's \<Rightarrow> int \<times> 's) \<Rightarrow> byte list \<Rightarrow> int \<Rightarrow> 's \<Rightarrow> int option \<times> 's" where
  "writeFix_loop wr bs left s =
    (if left \<le> 0 then (None, s)
     else let (len, s') = wr (take (nat left) bs) s in
       if len \<le> 0 then (Some len, s')
       else writeFix_loop wr (drop (nat len) bs) (left - len) s')"
  by pat_completeness auto
termination
  by (relation "measure (\<lambda>(wr, bs, left, s). nat left)") auto

definition writeFixSize :: "(byte list \<Rightarrow> 's \<Rightarrow> int \<times> 's) \<Rightarrow> byte list \<Rightarrow> 's \<Rightarrow> int \<times> 's" where
  "writeFixSize wr bs s =
    (let (r, s') = writeFix_loop wr bs (to_int64 (length bs)) s in (fix_result (length bs) r, s'))"

text \<open>The loops that move a \<open>ByteArray\<close>, whose operations can throw, share one shape.\<close>

function fixBa_loop ::
    "(nat \<Rightarrow> 'b \<times> 's \<Rightarrow> (int \<times> 'b \<times> 's) result) \<Rightarrow> int \<Rightarrow> 'b \<times> 's \<Rightarrow> (int option \<times> 'b \<times> 's) result" where
  "fixBa_loop step left bas =
    (if left \<le> 0 then Inr (None, bas)
     else case step (nat left) bas of
       Inl e \<Rightarrow> Inl e
     | Inr (len, bas') \<Rightarrow>
         if len \<le> 0 then Inr (Some len, bas') else fixBa_loop step (left - len) bas')"
  by pat_completeness auto
termination
  by (relation "measure (\<lambda>(step, left, bas). nat left)") auto

definition readFixSize_ba ::
    "(nat \<Rightarrow> 'b \<times> 's \<Rightarrow> (int \<times> 'b \<times> 's) result) \<Rightarrow> nat \<Rightarrow> 'b \<times> 's \<Rightarrow> (int \<times> 'b \<times> 's) result" where
  "readFixSize_ba rd len bas =
    bind_res (fixBa_loop rd (to_int64 len) bas) (\<lambda>(r, bas'). Inr (fix_result len r, bas'))"

definition writeFixSize_ba ::
    "(nat \<Rightarrow> 'b \<times> 's \<Rightarrow> (int \<times> 'b \<times> 's) result) \<Rightarrow> nat \<Rightarrow> 'b \<times> 's \<Rightarrow> (int \<times> 'b \<times> 's) result" where
  "writeFixSize_ba wr len bas =
    bind_res (fixBa_loop wr (to_int64 len) bas) (\<lambda>(r, bas'). Inr (fix_result len r, bas'))"

declare readFix_loop.simps [simp del] writeFix_loop.simps [simp del] fixBa_loop.simps [simp del]

section \<open>Widths\<close>

lemma to_int64_small: "n < 2 ^ 63 \<Longrightarrow> to_int64 n = int n"
  by (simp add: to_int64_def sint_uint signed_take_bit_int_eq_self_iff unsigned_of_nat take_bit_nat_eq_self)

lemma to_int32_small: "n < 2 ^ 31 \<Longrightarrow> to_int32 n = int n"
  by (simp add: to_int32_def sint_uint signed_take_bit_int_eq_self_iff unsigned_of_nat take_bit_nat_eq_self)

section \<open>The contract of a stream\<close>

text \<open>
  What the exact-length transfers rely on. \<open>pend\<close> is the input still to be delivered and
  \<open>sent\<close> the output delivered so far; a stream is \<open>rready\<close> when it delivers all its pending
  input without a failure, and \<open>wready m\<close> when it accepts \<open>m\<close> more bytes.
\<close>

locale byte_stream =
  fixes rd :: "nat \<Rightarrow> 's \<Rightarrow> int \<times> byte list \<times> 's"
    and wr :: "byte list \<Rightarrow> 's \<Rightarrow> int \<times> 's"
    and pend :: "'s \<Rightarrow> byte list"
    and sent :: "'s \<Rightarrow> byte list"
    and rready :: "'s \<Rightarrow> bool"
    and wready :: "nat \<Rightarrow> 's \<Rightarrow> bool"
  assumes rd_law: "0 < n \<Longrightarrow> rd n s = (r, bs, s') \<Longrightarrow>
          r \<le> int n \<and> length bs = nat r \<and> pend s = bs @ pend s' \<and> sent s' = sent s"
    and rd_ready: "0 < n \<Longrightarrow> rd n s = (r, bs, s') \<Longrightarrow> rready s \<Longrightarrow>
          rready s' \<and> (pend s \<noteq> [] \<longrightarrow> 0 < r)"
    and rd_wready: "rd n s = (r, bs, s') \<Longrightarrow> wready m s \<Longrightarrow> wready m s'"
    and wr_law: "bs \<noteq> [] \<Longrightarrow> wr bs s = (r, s') \<Longrightarrow>
          r \<le> int (length bs) \<and> sent s' = sent s @ take (nat r) bs \<and> pend s' = pend s"
    and wr_ready: "bs \<noteq> [] \<Longrightarrow> wr bs s = (r, s') \<Longrightarrow> wready m s \<Longrightarrow> length bs \<le> m \<Longrightarrow>
          0 < r \<and> wready (m - nat r) s'"
    and wr_rready: "wr bs s = (r, s') \<Longrightarrow> rready s \<Longrightarrow> rready s'"
begin

lemma readFix_loop_law:
  "readFix_loop rd left s = (r, bs, s') \<Longrightarrow>
   pend s = bs @ pend s' \<and> sent s' = sent s \<and>
   (case r of None \<Rightarrow> length bs = nat left | Some e \<Rightarrow> e \<le> 0 \<and> length bs < nat left)"
proof (induction "nat left" arbitrary: left s r bs s' rule: less_induct)
  case less
  show ?case
  proof (cases "left \<le> 0")
    case True
    then show ?thesis using less.prems by (simp add: readFix_loop.simps)
  next
    case False
    obtain l bs1 s1 where q: "rd (nat left) s = (l, bs1, s1)" by (cases "rd (nat left) s")
    have law: "l \<le> int (nat left)" "length bs1 = nat l" "pend s = bs1 @ pend s1" "sent s1 = sent s"
      using rd_law [OF _ q] False by simp_all
    show ?thesis
    proof (cases "l \<le> 0")
      case True
      then show ?thesis using less.prems False q law by (auto simp: readFix_loop.simps [of rd left])
    next
      case l: False
      obtain r2 bs2 s2 where q2: "readFix_loop rd (left - l) s1 = (r2, bs2, s2)"
        by (cases "readFix_loop rd (left - l) s1")
      have res: "r = r2" "bs = bs1 @ bs2" "s' = s2"
        using less.prems False l q q2 by (simp_all add: readFix_loop.simps [of rd left])
      have ih: "pend s1 = bs2 @ pend s2 \<and> sent s2 = sent s1 \<and>
          (case r2 of None \<Rightarrow> length bs2 = nat (left - l) | Some e \<Rightarrow> e \<le> 0 \<and> length bs2 < nat (left - l))"
        using less.hyps [OF _ q2] l False by simp
      have "nat left = nat l + nat (left - l)" using law(1) l False by simp
      then show ?thesis using ih law res by (auto split: option.splits)
    qed
  qed
qed

lemma readFix_loop_ready:
  "readFix_loop rd left s = (r, bs, s') \<Longrightarrow> rready s \<Longrightarrow> nat left \<le> length (pend s) \<Longrightarrow>
   r = None \<and> rready s'"
proof (induction "nat left" arbitrary: left s r bs s' rule: less_induct)
  case less
  show ?case
  proof (cases "left \<le> 0")
    case True
    then show ?thesis using less.prems by (simp add: readFix_loop.simps)
  next
    case False
    obtain l bs1 s1 where q: "rd (nat left) s = (l, bs1, s1)" by (cases "rd (nat left) s")
    have law: "l \<le> int (nat left)" "length bs1 = nat l" "pend s = bs1 @ pend s1"
      using rd_law [OF _ q] False by simp_all
    have "pend s \<noteq> []" using less.prems(3) False by auto
    then have l: "0 < l" and s1: "rready s1" using rd_ready [OF _ q less.prems(2)] False by simp_all
    obtain r2 bs2 s2 where q2: "readFix_loop rd (left - l) s1 = (r2, bs2, s2)"
      by (cases "readFix_loop rd (left - l) s1")
    have res: "r = r2" "s' = s2"
      using less.prems(1) False l q q2 by (simp_all add: readFix_loop.simps [of rd left])
    have "nat (left - l) \<le> length (pend s1)" using law less.prems(3) l by simp
    then show ?thesis using less.hyps [OF _ q2 s1] l False res by simp
  qed
qed

lemma readFix_loop_wready:
  "readFix_loop rd left s = (r, bs, s') \<Longrightarrow> wready m s \<Longrightarrow> wready m s'"
proof (induction "nat left" arbitrary: left s r bs s' rule: less_induct)
  case less
  obtain l bs1 s1 where q: "rd (nat left) s = (l, bs1, s1)" by (cases "rd (nat left) s")
  obtain r2 bs2 s2 where q2: "readFix_loop rd (left - l) s1 = (r2, bs2, s2)"
    by (cases "readFix_loop rd (left - l) s1")
  show ?case
    using less.prems less.hyps [OF _ q2] rd_wready [OF q] q q2
    by (auto simp: readFix_loop.simps [of rd left] split: if_splits)
qed

lemma writeFix_loop_law:
  "writeFix_loop wr bs left s = (r, s') \<Longrightarrow> left = int (length bs) \<Longrightarrow>
   pend s' = pend s \<and>
   (case r of None \<Rightarrow> sent s' = sent s @ bs
    | Some e \<Rightarrow> e \<le> 0 \<and> (\<exists>k < length bs. sent s' = sent s @ take k bs))"
proof (induction "nat left" arbitrary: left bs s r s' rule: less_induct)
  case less
  show ?case
  proof (cases "bs = []")
    case True
    then show ?thesis using less.prems by (simp add: writeFix_loop.simps)
  next
    case False
    obtain l s1 where q: "wr bs s = (l, s1)" by (cases "wr bs s")
    note law = wr_law [OF False q]
    have eq: "(r, s') = (if l \<le> 0 then (Some l, s1) else writeFix_loop wr (drop (nat l) bs) (left - l) s1)"
      using less.prems False q by (auto simp: writeFix_loop.simps [of wr bs])
    show ?thesis
    proof (cases "l \<le> 0")
      case True
      then have "sent s1 = sent s @ take 0 bs" using law by simp
      then show ?thesis using eq True law False by (auto intro: exI [of _ 0])
    next
      case l: False
      have len: "left - l = int (length (drop (nat l) bs))"
        using law l less.prems(2) by (simp add: of_nat_diff nat_le_iff)
      have lt: "nat (left - l) < nat left" using l less.prems(2) False by (cases bs) auto
      have eq2: "writeFix_loop wr (drop (nat l) bs) (left - l) s1 = (r, s')" using eq l by simp
      have "pend s' = pend s1 \<and> (case r of None \<Rightarrow> sent s' = sent s1 @ drop (nat l) bs
        | Some e \<Rightarrow> e \<le> 0 \<and> (\<exists>k < length (drop (nat l) bs). sent s' = sent s1 @ take k (drop (nat l) bs)))"
        using less.hyps [OF lt eq2 len] .
      then have ih: "pend s' = pend s"
          "r = None \<Longrightarrow> sent s' = sent s @ bs"
          "\<And>e. r = Some e \<Longrightarrow> e \<le> 0 \<and> (\<exists>k < length bs - nat l. sent s' = sent s @ take (nat l + k) bs)"
        using law by (auto simp: take_add)
      show ?thesis
      proof (cases r)
        case (Some e)
        obtain k where "k < length bs - nat l" "sent s' = sent s @ take (nat l + k) bs" "e \<le> 0"
          using ih(3) [OF Some] by blast
        then show ?thesis using Some ih(1) by (auto intro!: exI [of _ "nat l + k"])
      qed (use ih in simp)
    qed
  qed
qed

lemma writeFix_loop_ready:
  "writeFix_loop wr bs left s = (r, s') \<Longrightarrow> left = int (length bs) \<Longrightarrow> wready (length bs + m) s \<Longrightarrow>
   r = None \<and> wready m s'"
proof (induction "nat left" arbitrary: left bs s r s' rule: less_induct)
  case less
  show ?case
  proof (cases "bs = []")
    case True
    then show ?thesis using less.prems by (simp add: writeFix_loop.simps)
  next
    case False
    obtain l s1 where q: "wr bs s = (l, s1)" by (cases "wr bs s")
    have l: "0 < l" "wready (length bs + m - nat l) s1" "l \<le> int (length bs)"
      using wr_ready [OF False q less.prems(3)] wr_law [OF False q] by simp_all
    have "length bs + m - nat l = length (drop (nat l) bs) + m" using l by simp
    then have w: "wready (length (drop (nat l) bs) + m) s1" using l(2) by simp
    have eq: "writeFix_loop wr (drop (nat l) bs) (left - l) s1 = (r, s')"
      using less.prems False q l(1) by (auto simp: writeFix_loop.simps [of wr bs])
    have len: "left - l = int (length (drop (nat l) bs))" using l less.prems(2) by simp
    have "nat (left - l) < nat left" using l less.prems(2) False by (cases bs) auto
    then show ?thesis using less.hyps [OF _ eq len w] by simp
  qed
qed

lemma writeFix_loop_rready:
  "writeFix_loop wr bs left s = (r, s') \<Longrightarrow> rready s \<Longrightarrow> rready s'"
proof (induction "nat left" arbitrary: left bs s r s' rule: less_induct)
  case less
  obtain l s1 where q: "wr (take (nat left) bs) s = (l, s1)" by (cases "wr (take (nat left) bs) s")
  show ?case
    using less.prems less.hyps [of "left - l" "drop (nat l) bs" s1] wr_rready [OF q] q
    by (auto simp: writeFix_loop.simps [of wr bs] split: if_splits)
qed

lemma readFixSize_ok:
  assumes "readFixSize rd n s = (v, bs, s')" "0 < v" "n < 2 ^ 63"
  shows "length bs = n \<and> pend s = bs @ pend s' \<and> sent s' = sent s"
proof -
  obtain r where l: "readFix_loop rd (to_int64 n) s = (r, bs, s')" and v: "v = fix_result n r"
    using assms(1) by (auto simp: readFixSize_def split: prod.splits)
  note law = readFix_loop_law [OF l]
  then have "r = None" using v assms(2) by (cases r) (auto simp: fix_result_def)
  then show ?thesis using law assms(3) by (simp add: to_int64_small)
qed

lemma readFixSize_ready:
  assumes "rready s" "n \<le> length (pend s)" "0 < n" "n < 2 ^ 31"
  shows "\<exists>s'. readFixSize rd n s = (int n, take n (pend s), s') \<and> pend s' = drop n (pend s) \<and>
           sent s' = sent s \<and> rready s'"
proof -
  obtain r bs s' where l: "readFix_loop rd (to_int64 n) s = (r, bs, s')"
    by (cases "readFix_loop rd (to_int64 n) s")
  have n: "to_int64 n = int n" "to_int32 n = int n" using assms by (simp_all add: to_int64_small to_int32_small)
  have "r = None" "rready s'" using readFix_loop_ready [OF l assms(1)] assms(2) n by simp_all
  moreover have "pend s = bs @ pend s'" "sent s' = sent s" "length bs = n"
    using readFix_loop_law [OF l] n \<open>r = None\<close> by simp_all
  ultimately show ?thesis using l n by (auto simp: readFixSize_def fix_result_def)
qed

lemma writeFixSize_ready:
  assumes "wready (length bs + m) s" "bs \<noteq> []" "length bs < 2 ^ 31"
  shows "\<exists>s'. writeFixSize wr bs s = (int (length bs), s') \<and> sent s' = sent s @ bs \<and>
           pend s' = pend s \<and> wready m s'"
proof -
  obtain r s' where l: "writeFix_loop wr bs (int (length bs)) s = (r, s')"
    by (cases "writeFix_loop wr bs (int (length bs)) s")
  have "r = None" "wready m s'" using writeFix_loop_ready [OF l _ assms(1)] by simp_all
  moreover have "sent s' = sent s @ bs" "pend s' = pend s"
    using writeFix_loop_law [OF l] \<open>r = None\<close> by simp_all
  ultimately show ?thesis
    using l assms(3) by (auto simp: writeFixSize_def fix_result_def to_int64_small to_int32_small)
qed

lemma writeFixSize_sent:
  assumes "writeFixSize wr bs s = (v, s')" "0 < v" "length bs < 2 ^ 63"
  shows "sent s' = sent s @ bs \<and> pend s' = pend s"
proof -
  obtain r where l: "writeFix_loop wr bs (int (length bs)) s = (r, s')" and v: "v = fix_result (length bs) r"
    using assms by (auto simp: writeFixSize_def to_int64_small split: prod.splits)
  note law = writeFix_loop_law [OF l]
  then have "r = None" using v assms(2) by (cases r) (auto simp: fix_result_def)
  then show ?thesis using law by simp
qed

end

section \<open>Socket streams keep the contract\<close>

text \<open>The stream a socket stream stands for: nothing, when it holds no socket.\<close>

definition ss_pend :: "sockstream \<Rightarrow> byte list" where
  "ss_pend ss = (case ss_socket ss of None \<Rightarrow> [] | Some s \<Rightarrow> sk_rx s)"

definition ss_sent :: "sockstream \<Rightarrow> byte list" where
  "ss_sent ss = (case ss_socket ss of None \<Rightarrow> [] | Some s \<Rightarrow> sk_tx s)"

text \<open>A peer that never fails: connected, and every answer moves at least one byte.\<close>

definition ss_rready :: "sockstream \<Rightarrow> bool" where
  "ss_rready ss = (case ss_socket ss of None \<Rightarrow> False
     | Some s \<Rightarrow> sk_isConnected s \<and> length (sk_rx s) \<le> length (sk_rxans s) \<and> list_all ((<) 0) (sk_rxans s))"

definition ss_wready :: "nat \<Rightarrow> sockstream \<Rightarrow> bool" where
  "ss_wready m ss = (case ss_socket ss of None \<Rightarrow> False
     | Some s \<Rightarrow> sk_isConnected s \<and> m \<le> length (sk_txans s) \<and> list_all ((<) 0) (sk_txans s))"

lemmas ss_view_defs = ss_pend_def ss_sent_def ss_rready_def ss_wready_def

lemma ss_read_law:
  assumes "0 < n" "ss_read n ss = (r, bs, ss')"
  shows "r \<le> int n \<and> length bs = nat r \<and> ss_pend ss = bs @ ss_pend ss' \<and> ss_sent ss' = ss_sent ss"
  using assms
  by (auto simp: ss_read_def ss_view_defs socket_recv_def kernel_recv_def Let_def min_def
      split: option.splits if_splits list.splits prod.splits)

lemma ss_read_ready:
  assumes "0 < n" "ss_read n ss = (r, bs, ss')" "ss_rready ss"
  shows "ss_rready ss' \<and> (ss_pend ss \<noteq> [] \<longrightarrow> 0 < r)"
proof -
  obtain s where s: "ss_socket ss = Some s" "sk_isConnected s" "length (sk_rx s) \<le> length (sk_rxans s)"
      "list_all ((<) 0) (sk_rxans s)"
    using assms(3) by (auto simp: ss_rready_def split: option.splits)
  show ?thesis
  proof (cases "sk_rxans s")
    case Nil
    then show ?thesis using assms s
      by (auto simp: ss_read_def ss_isConnected_def socket_recv_def kernel_recv_def ss_view_defs)
  next
    case (Cons a as)
    define k where "k = min (min (nat a) MAX_RW_COUNT) (min n (length (sk_rx s)))"
    have a: "0 < a" using s(4) Cons by simp
    then have k: "0 < k \<longleftrightarrow> sk_rx s \<noteq> []" using assms(1) by (auto simp: k_def MAX_RW_COUNT_def)
    have e: "ss_read n ss = (int k, take k (sk_rx s),
        ss\<lparr> ss_socket := Some (s\<lparr> sk_rx := drop k (sk_rx s), sk_rxans := as \<rparr>) \<rparr>)"
      using s a Cons by (simp add: ss_read_def ss_isConnected_def socket_recv_def kernel_recv_def k_def Let_def)
    have "length (sk_rx s) - k \<le> length as" using k s(3) Cons by (cases "sk_rx s") auto
    then show ?thesis using e assms(2) s k Cons by (auto simp: ss_view_defs)
  qed
qed

lemma ss_write_law:
  assumes "bs \<noteq> []" "ss_write bs ss = (r, ss')"
  shows "r \<le> int (length bs) \<and> ss_sent ss' = ss_sent ss @ take (nat r) bs \<and> ss_pend ss' = ss_pend ss"
  using assms
  by (auto simp: ss_write_def ss_view_defs socket_send_def kernel_send_def Let_def min_def
      split: option.splits if_splits list.splits prod.splits)

lemma ss_write_ready:
  assumes "bs \<noteq> []" "ss_write bs ss = (r, ss')" "ss_wready m ss" "length bs \<le> m"
  shows "0 < r \<and> ss_wready (m - nat r) ss'"
proof -
  obtain s where s: "ss_socket ss = Some s" "sk_isConnected s" "m \<le> length (sk_txans s)"
      "list_all ((<) 0) (sk_txans s)"
    using assms(3) by (auto simp: ss_wready_def split: option.splits)
  then obtain a as where as: "sk_txans s = a # as" using assms(1,4) by (cases "sk_txans s") auto
  define k where "k = min (min (nat a) MAX_RW_COUNT) (length bs)"
  have a: "0 < a" using s(4) as by simp
  then have k: "0 < k" using assms(1) by (auto simp: k_def MAX_RW_COUNT_def)
  have "ss_write bs ss = (int k, ss\<lparr> ss_socket := Some (s\<lparr> sk_tx := sk_tx s @ take k bs, sk_txans := as \<rparr>) \<rparr>)"
    using s a as by (simp add: ss_write_def ss_isConnected_def socket_send_def kernel_send_def k_def Let_def)
  then show ?thesis using assms(2) s as k by (auto simp: ss_view_defs)
qed

lemma socket_recv_frame:
  "socket_recv n s = (r, bs, s') \<Longrightarrow> sk_isConnected s' = sk_isConnected s \<and> sk_txans s' = sk_txans s"
  by (auto simp: socket_recv_def kernel_recv_def Let_def split: if_splits list.splits)

lemma socket_send_frame:
  "socket_send bs s = (r, s') \<Longrightarrow>
   sk_isConnected s' = sk_isConnected s \<and> sk_rx s' = sk_rx s \<and> sk_rxans s' = sk_rxans s"
  by (auto simp: socket_send_def kernel_send_def Let_def split: if_splits list.splits)

lemma ss_read_wready: "ss_read n ss = (r, bs, ss') \<Longrightarrow> ss_wready m ss' = ss_wready m ss"
  by (cases "ss_socket ss"; cases "socket_recv n (the (ss_socket ss))")
    (auto simp: ss_read_def ss_wready_def dest: socket_recv_frame split: if_splits)

lemma ss_write_rready: "ss_write bs ss = (r, ss') \<Longrightarrow> ss_rready ss' = ss_rready ss"
  by (cases "ss_socket ss"; cases "socket_send bs (the (ss_socket ss))")
    (auto simp: ss_write_def ss_rready_def dest: socket_send_frame split: if_splits)

interpretation sk: byte_stream ss_read ss_write ss_pend ss_sent ss_rready ss_wready
proof (unfold_locales, goal_cases)
  case (1 n s r bs s')
  then show ?case by (rule ss_read_law)
next
  case (2 n s r bs s')
  then show ?case by (rule ss_read_ready)
next
  case (3 n s r bs s' m)
  then show ?case by (simp add: ss_read_wready)
next
  case (4 bs s r s')
  then show ?case by (rule ss_write_law)
next
  case (5 bs s r s' m)
  then show ?case by (rule ss_write_ready)
next
  case (6 bs s r s')
  then show ?case by (simp add: ss_write_rready)
qed

section \<open>Transfers into and out of a ByteArray\<close>

lemma iov_loop_scatter:
  assumes "iov_loop ns cur off avail n = Inr iovs" "chunked b ns" "chunked b nodes"
    "length nodes = length ns" "cur < length ns" "off < b" "avail = b - off"
    "b * cur + off + n \<le> b * length ns" "length bs \<le> n"
  shows "concat (scatter nodes iovs bs) = overwrite (concat nodes) (b * cur + off) bs \<and>
         chunked b (scatter nodes iovs bs) \<and> length (scatter nodes iovs bs) = length nodes \<and>
         iov_total iovs = n"
  using assms
proof (induction ns cur off avail n arbitrary: iovs nodes bs rule: iov_loop.induct)
  case (1 ns cur off avail n)
  note p = "1.prems" and e = iov_loop.simps [of ns cur off avail n]
  have nd: "length (nodes ! cur) = b" using chunked_nth [OF p(3)] p(4,5) by simp
  consider "n = 0" | "0 < n" "n \<le> avail" | "avail < n" by linarith
  then show ?case
  proof cases
    case 1
    then have "iovs = []" "bs = []" using p(1,9) e by simp_all
    then show ?thesis using 1 p by (simp add: iov_total_def)
  next
    case 2
    then have "iovs = [(cur, off, n)]" using p(1,5) e by simp
    then show ?thesis
      using 2 p nd overwrite_chunk [OF p(3), of cur off bs]
      by (simp add: iov_total_def chunked_update)
  next
    case 3
    have cur: "Suc cur < length ns"
    proof (rule ccontr)
      assume "\<not> Suc cur < length ns"
      then have "b * length ns \<le> b * Suc cur" using p(5) by (intro mult_le_mono) simp_all
      then show False using p(6,7,8) 3 by simp
    qed
    have nb: "length (ns ! Suc cur) = b" using chunked_nth [OF p(2) cur] .
    obtain iovs' where l: "iov_loop ns (Suc cur) 0 (length (ns ! Suc cur)) (n - avail) = Inr iovs'"
        and iovs: "iovs = (cur, off, avail) # iovs'"
      using p(1,5) 3 cur e by auto
    define nodes1 where "nodes1 = nodes[cur := overwrite (nodes ! cur) off (take avail bs)]"
    have ch: "chunked b nodes1"
      unfolding nodes1_def using p nd by (intro chunked_update) simp_all
    have flat: "concat nodes1 = overwrite (concat nodes) (b * cur + off) (take avail bs)"
      unfolding nodes1_def using p by (intro overwrite_chunk) simp_all
    have ih: "concat (scatter nodes1 iovs' (drop avail bs)) = overwrite (concat nodes1) (b * Suc cur + 0) (drop avail bs) \<and>
        chunked b (scatter nodes1 iovs' (drop avail bs)) \<and>
        length (scatter nodes1 iovs' (drop avail bs)) = length nodes1 \<and> iov_total iovs' = n - avail"
    proof (rule "1.IH")
      show "n \<noteq> 0" "\<not> length ns \<le> cur" "\<not> n \<le> avail" "\<not> length ns \<le> Suc cur" using 3 cur by auto
      show "iov_loop ns (Suc cur) 0 (length (ns ! Suc cur)) (n - avail) = Inr iovs'" by (fact l)
      show "b * Suc cur + 0 + (n - avail) \<le> b * length ns" using p 3 by simp
      show "length nodes1 = length ns" using p(4) by (simp add: nodes1_def)
    qed (use p ch cur nb in \<open>auto simp: nodes1_def\<close>)
    have len: "length (concat nodes) = b * length nodes" using length_concat_chunked [OF p(3)] .
    have "overwrite (concat nodes1) (b * Suc cur) (drop avail bs) = overwrite (concat nodes) (b * cur + off) bs"
    proof (cases "avail \<le> length bs")
      case True
      have "b * cur + off \<le> length (concat nodes)" using p(4,8) len by simp
      from overwrite_split [OF this, of "take avail bs" "drop avail bs"]
      have "overwrite (concat nodes) (b * cur + off) bs
          = overwrite (concat nodes1) (b * cur + off + avail) (drop avail bs)"
        using True flat by simp
      moreover have "b * cur + off + avail = b * Suc cur" using p(6,7) by simp
      ultimately show ?thesis by simp
    qed (use flat in simp)
    then show ?thesis
      using ih iovs 3 by (simp add: nodes1_def iov_total_def)
  qed
qed

lemma iov_from_scatter:
  assumes wf: "ba_wf ba" and n: "0 < n" "ba_position ba + n \<le> ba_capacity ba"
    and iovs: "iov_from ba (ba_cur ba) (ba_position ba) n = Inr iovs" and bs: "length bs \<le> n"
  shows "concat (scatter (ba_nodes ba) iovs bs) = overwrite (concat (ba_nodes ba)) (ba_position ba) bs \<and>
         chunked (ba_baseSize ba) (scatter (ba_nodes ba) iovs bs) \<and>
         length (scatter (ba_nodes ba) iovs bs) = length (ba_nodes ba) \<and> iov_total iovs = n"
proof -
  let ?b = "ba_baseSize ba" and ?p = "ba_position ba"
  note w = ba_wfD [OF wf]
  have "?p < ?b * length (ba_nodes ba)" using n w by linarith
  then have cur: "ba_cur ba < length (ba_nodes ba)"
    using w by (simp add: less_mult_imp_div_less mult.commute)
  have nd: "length (ba_nodes ba ! ba_cur ba) = ?b" using chunked_nth [OF w(3) cur] .
  have "iov_loop (ba_nodes ba) (ba_cur ba) (?p mod ?b) (?b - ?p mod ?b) n = Inr iovs"
    using iovs cur nd w(1) by (simp add: iov_from_def Let_def less_imp_le)
  then show ?thesis
    using iov_loop_scatter [of "ba_nodes ba" "ba_cur ba" "?p mod ?b" "?b - ?p mod ?b" n iovs ?b "ba_nodes ba" bs]
      w cur bs n by simp
qed

lemma ss_read_ba_correct:
  assumes wf: "ba_wf ba" and n: "0 < n" and rd: "ss_read n ss = (rt, bs, ss')"
  shows "\<exists>ba'. ss_read_ba n (ba, ss) = Inr (rt, ba', ss') \<and> ba_wf ba' \<and>
           ba_data ba' = overwrite (ba_data ba) (ba_position ba) bs \<and>
           ba_position ba' = ba_position ba + length bs \<and> ba_endian ba' = ba_endian ba"
proof (cases "ss_isConnected ss")
  case False
  then show ?thesis using rd wf by (auto simp: ss_read_def ss_read_ba_def split: option.splits)
next
  case True
  then obtain s where s: "ss_socket ss = Some s" by (auto simp: ss_isConnected_def split: option.splits)
  obtain s' where rc: "socket_recv n s = (rt, bs, s')" and ss': "ss' = ss\<lparr> ss_socket := Some s' \<rparr>"
    using rd True s by (auto simp: ss_read_def split: prod.splits)
  let ?a = "addCapacity n ba"
  have a: "ba_wf ?a" using ba_wf_addCapacity [OF wf] .
  note w = ba_wfD [OF a]
  have cap: "ba_position ?a + n \<le> ba_capacity ?a" using addCapacity_grows [OF wf n] by simp
  obtain iovs where iovs: "iov_from ?a (ba_cur ?a) (ba_position ?a) n = Inr iovs"
    using iov_from_correct [OF a n cap] w(7) by auto
  have law: "length bs = nat rt" "rt \<le> int n" using sk.rd_law [OF n rd] by simp_all
  note sc = iov_from_scatter [OF a n cap iovs, of bs]
  let ?ns = "scatter (ba_nodes ?a) iovs bs"
  have bs: "length bs \<le> n" using law by simp
  define ba2 where "ba2 = ?a\<lparr> ba_nodes := ?ns \<rparr>"
  have "?ns \<noteq> []" using sc bs w(2) by auto
  then have wf2: "ba_wf ba2" using a sc bs by (simp add: ba_wf_def ba2_def)
  have e: "ss_read_ba n (ba, ss) = (if 0 < rt
      then bind_res (setPosition (ba_position ba2 + nat rt) ba2) (\<lambda>ba3. Inr (rt, ba3, ss'))
      else Inr (rt, ba2, ss'))"
    using True s n iovs rc ss' sc bs
    by (simp add: ss_read_ba_def getWriteBuffers_def socket_recv_iov_def Let_def ba2_def)
  have pos: "ba_position ba + length bs \<le> ba_capacity ba2" using cap bs by (simp add: ba2_def)
  let ?ba3 = "ba2\<lparr> ba_position := ba_position ba + length bs,
      ba_size := max (ba_size ba) (ba_position ba + length bs),
      ba_cur := (ba_position ba + length bs) div ba_baseSize ba \<rparr>"
  have same: "ba_position ba2 = ba_position ba" "ba_size ba2 = ba_size ba" "ba_baseSize ba2 = ba_baseSize ba"
      "ba_endian ba2 = ba_endian ba"
    by (simp_all add: ba2_def)
  have le: "ba_position ba + length bs \<le> length (concat (ba_nodes ?a))"
    using pos ba_wf_length_concat [OF a] by (simp add: ba2_def)
  have dat: "take (max (ba_size ba) (ba_position ba + length bs)) (concat ?ns)
      = overwrite (ba_data ba) (ba_position ba) bs"
    using sc bs overwrite_take [OF ba_wfD(5) [OF wf] le] ba_data_addCapacity [OF wf, of n]
    by (simp add: ba_data_def)
  have d3: "ba_data ?ba3 = overwrite (ba_data ba) (ba_position ba) bs" using dat by (simp add: ba_data_def ba2_def)
  show ?thesis
  proof (cases "0 < rt")
    case True
    have st: "setPosition (ba_position ba + length bs) ba2 = Inr ?ba3"
      using setPosition_correct [OF wf2 pos] same by simp
    have "ba_wf ?ba3" using ba_wf_after_setPosition [OF wf2 pos] same by simp
    moreover have "ss_read_ba n (ba, ss) = Inr (rt, ?ba3, ss')" using e True st law(1) same by simp
    ultimately show ?thesis using d3 same by (intro exI [of _ ?ba3]) simp
  next
    case False
    then have "bs = []" using law(1) by simp
    then have "ba_data ba2 = ba_data ba" using sc ba_data_addCapacity [OF wf, of n] by (simp add: ba_data_def ba2_def)
    then show ?thesis using e False wf2 same \<open>bs = []\<close> by simp
  qed
qed

lemma ss_write_ba_correct:
  assumes wf: "ba_wf ba" and n: "0 < n" "n \<le> ba_size ba - ba_position ba"
    and wr: "ss_write (take n (drop (ba_position ba) (ba_data ba))) ss = (rt, ss')"
  shows "\<exists>ba'. ss_write_ba n (ba, ss) = Inr (rt, ba', ss') \<and> ba_wf ba' \<and>
           ba_data ba' = ba_data ba \<and> ba_position ba' = ba_position ba + nat rt \<and>
           ba_size ba' = ba_size ba"
proof (cases "ss_isConnected ss")
  case False
  then show ?thesis using wr wf by (auto simp: ss_write_def ss_write_ba_def split: option.splits)
next
  case True
  let ?bs = "take n (drop (ba_position ba) (ba_data ba))"
  obtain s where s: "ss_socket ss = Some s"
    using True by (auto simp: ss_isConnected_def split: option.splits)
  obtain s' where sd: "socket_send ?bs s = (rt, s')" and ss': "ss' = ss\<lparr> ss_socket := Some s' \<rparr>"
    using wr True s by (auto simp: ss_write_def split: prod.splits)
  obtain iovs where "getReadBuffers n ba = Inr (n, iovs)" "iov_bytes (ba_nodes ba) iovs = ?bs"
    using getReadBuffers_correct [OF wf, of n] n by auto
  then have e: "ss_write_ba n (ba, ss) = (if 0 < rt
      then bind_res (setPosition (ba_position ba + nat rt) ba) (\<lambda>ba'. Inr (rt, ba', ss'))
      else Inr (rt, ba, ss'))"
    using True s sd ss' by (simp add: ss_write_ba_def socket_send_iov_def)
  have l: "length ?bs = n" using n wf by simp
  then have "?bs \<noteq> []" using n by auto
  then have "rt \<le> int n" using sk.wr_law [OF _ wr] l by simp
  then have le: "ba_position ba + nat rt \<le> ba_size ba" using n by linarith
  then have cap: "ba_position ba + nat rt \<le> ba_capacity ba" using ba_wfD(6) [OF wf] by linarith
  let ?ba' = "ba\<lparr> ba_position := ba_position ba + nat rt, ba_size := ba_size ba,
      ba_cur := (ba_position ba + nat rt) div ba_baseSize ba \<rparr>"
  have m: "max (ba_size ba) (ba_position ba + nat rt) = ba_size ba" using le by simp
  have st: "setPosition (ba_position ba + nat rt) ba = Inr ?ba'" "ba_wf ?ba'"
    using setPosition_correct [OF wf cap] ba_wf_after_setPosition [OF wf cap] m by simp_all
  show ?thesis
  proof (cases "0 < rt")
    case True
    then show ?thesis using e st by (intro exI [of _ ?ba']) (simp add: ba_data_def)
  qed (use e wf in simp)
qed

lemma fixBa_read:
  assumes "readFix_loop ss_read left ss = (r, bs, ss')" "ba_wf ba"
  shows "\<exists>ba'. fixBa_loop ss_read_ba left (ba, ss) = Inr (r, ba', ss') \<and> ba_wf ba' \<and>
           ba_data ba' = overwrite (ba_data ba) (ba_position ba) bs \<and>
           ba_position ba' = ba_position ba + length bs \<and> ba_endian ba' = ba_endian ba"
  using assms
proof (induction "nat left" arbitrary: left ss r bs ss' ba rule: less_induct)
  case less
  show ?case
  proof (cases "left \<le> 0")
    case True
    then show ?thesis
      using less.prems by (simp add: readFix_loop.simps fixBa_loop.simps [of _ left])
  next
    case False
    obtain l bs1 ss1 where q: "ss_read (nat left) ss = (l, bs1, ss1)" by (cases "ss_read (nat left) ss")
    obtain ba1 where b1: "ss_read_ba (nat left) (ba, ss) = Inr (l, ba1, ss1)" "ba_wf ba1"
        "ba_data ba1 = overwrite (ba_data ba) (ba_position ba) bs1"
        "ba_position ba1 = ba_position ba + length bs1" "ba_endian ba1 = ba_endian ba"
      using ss_read_ba_correct [OF less.prems(2) _ q] False by auto
    have law: "length bs1 = nat l" using sk.rd_law [OF _ q] False by simp
    show ?thesis
    proof (cases "l \<le> 0")
      case True
      then have "r = Some l" "bs = []" "ss' = ss1" "bs1 = []"
        using less.prems(1) False q law by (auto simp: readFix_loop.simps [of _ left])
      then show ?thesis using False True b1 by (simp add: fixBa_loop.simps [of _ left])
    next
      case l: False
      obtain r2 bs2 ss2 where q2: "readFix_loop ss_read (left - l) ss1 = (r2, bs2, ss2)"
        by (cases "readFix_loop ss_read (left - l) ss1")
      have res: "r = r2" "bs = bs1 @ bs2" "ss' = ss2"
        using less.prems(1) False l q q2 by (simp_all add: readFix_loop.simps [of _ left])
      obtain ba' where ba': "fixBa_loop ss_read_ba (left - l) (ba1, ss1) = Inr (r2, ba', ss2)" "ba_wf ba'"
          "ba_data ba' = overwrite (ba_data ba1) (ba_position ba1) bs2"
          "ba_position ba' = ba_position ba1 + length bs2" "ba_endian ba' = ba_endian ba1"
        using less.hyps [OF _ q2 b1(2)] l False by auto
      have "ba_position ba \<le> length (ba_data ba)" using less.prems(2) ba_wfD(5) by simp
      then have "ba_data ba' = overwrite (ba_data ba) (ba_position ba) bs"
        using ba'(3) b1(3,4) res(2) by (simp add: overwrite_split)
      then show ?thesis using ba' b1 res False l by (simp add: fixBa_loop.simps [of _ left])
    qed
  qed
qed

lemma fixBa_write:
  assumes "writeFix_loop ss_write bs left ss = (r, ss')" "ba_wf ba" "left = int (length bs)"
    "take (length bs) (drop (ba_position ba) (ba_data ba)) = bs"
  shows "\<exists>ba'. fixBa_loop ss_write_ba left (ba, ss) = Inr (r, ba', ss') \<and> ba_wf ba' \<and>
           ba_data ba' = ba_data ba \<and> ba_size ba' = ba_size ba"
  using assms
proof (induction "nat left" arbitrary: left ss r bs ss' ba rule: less_induct)
  case less
  note p = less.prems
  show ?case
  proof (cases "bs = []")
    case True
    then show ?thesis using p by (auto simp: writeFix_loop.simps fixBa_loop.simps [of _ 0])
  next
    case False
    obtain l ss1 where q: "ss_write bs ss = (l, ss1)" by (cases "ss_write bs ss")
    have n: "0 < length bs" "length bs \<le> ba_size ba - ba_position ba"
      using False arg_cong [OF p(4), of length] p(2) by auto
    have q': "ss_write (take (length bs) (drop (ba_position ba) (ba_data ba))) ss = (l, ss1)"
      using q p(4) by simp
    obtain ba1 where b1: "ss_write_ba (length bs) (ba, ss) = Inr (l, ba1, ss1)" "ba_wf ba1"
        "ba_data ba1 = ba_data ba" "ba_position ba1 = ba_position ba + nat l" "ba_size ba1 = ba_size ba"
      using ss_write_ba_correct [OF p(2) n q'] by blast
    have eq: "(r, ss') = (if l \<le> 0 then (Some l, ss1) else writeFix_loop ss_write (drop (nat l) bs) (left - l) ss1)"
      using p(1,3) False q by (auto simp: writeFix_loop.simps [of _ bs])
    have eb: "fixBa_loop ss_write_ba left (ba, ss)
        = (if l \<le> 0 then Inr (Some l, ba1, ss1) else fixBa_loop ss_write_ba (left - l) (ba1, ss1))"
      using p(3) False b1(1) by (simp add: fixBa_loop.simps [of _ "int (length bs)"])
    show ?thesis
    proof (cases "l \<le> 0")
      case True
      then show ?thesis using eq eb b1 by simp
    next
      case l: False
      have le: "l \<le> int (length bs)" using sk.wr_law [OF False q] by simp
      have eq2: "writeFix_loop ss_write (drop (nat l) bs) (left - l) ss1 = (r, ss')" using eq l by simp
      have lt: "nat (left - l) < nat left" using l p(3) False by (cases bs) auto
      have len: "left - l = int (length (drop (nat l) bs))" using le l p(3) by (simp add: of_nat_diff nat_le_iff)
      have "drop (nat l) bs = drop (nat l) (take (length bs) (drop (ba_position ba) (ba_data ba)))"
        using p(4) by simp
      then have "take (length bs - nat l) (drop (ba_position ba1) (ba_data ba1)) = drop (nat l) bs"
        using b1(3,4) by (simp only: drop_take drop_drop add.commute)
      then have up: "take (length (drop (nat l) bs)) (drop (ba_position ba1) (ba_data ba1)) = drop (nat l) bs"
        by (simp only: length_drop)
      show ?thesis using less.hyps [OF lt eq2 b1(2) len up] b1 eb l by simp
    qed
  qed
qed

section \<open>Properties\<close>


definition sock_demo :: sockstream where
  "sock_demo = \<lparr> ss_socket = Some \<lparr> sk_sock = 5, sk_isConnected = True, sk_rx = [1, 2, 3, 4, 5],
      sk_rxans = [2, 1, 7, 1, 1], sk_tx = [], sk_txans = [] \<rparr>, ss_owner = True \<rparr>"


end
