(* ===== verification/WebSocket.thy ===== *)
theory WebSocket
  imports SocketStream
begin

text \<open>
  WebSocket framing (\<open>src/http/ws_session.cpp\<close>, \<open>include/http/ws_session.h\<close>): the packed frame
  head, sending a message as one frame, receiving a message from a sequence of frames, ping and
  pong, all over a socket stream. The random mask and the configured size limit are arguments.
\<close>

section \<open>Frames\<close>

record wshead =
  wh_opcode :: nat
  wh_rsv3 :: bool
  wh_rsv2 :: bool
  wh_rsv1 :: bool
  wh_fin :: bool
  wh_payload :: nat
  wh_mask :: bool

definition OpContinue :: nat where "OpContinue = 0"
definition OpTextFrame :: nat where "OpTextFrame = 1"
definition OpBinFrame :: nat where "OpBinFrame = 2"
definition OpClose :: nat where "OpClose = 8"
definition OpPing :: nat where "OpPing = 9"
definition OpPong :: nat where "OpPong = 10"

lemmas opcode_defs = OpContinue_def OpTextFrame_def OpBinFrame_def OpClose_def OpPing_def OpPong_def

text \<open>
  The two bytes of a \<open>WSFrameHead\<close>, whose bit-fields are laid out from the least significant bit.
\<close>

definition wshead_bytes :: "wshead \<Rightarrow> byte list" where
  "wshead_bytes h =
    [of_nat (wh_opcode h mod 16 + 16 * of_bool (wh_rsv3 h) + 32 * of_bool (wh_rsv2 h)
             + 64 * of_bool (wh_rsv1 h) + 128 * of_bool (wh_fin h)),
     of_nat (wh_payload h mod 128 + 128 * of_bool (wh_mask h))]"

definition wshead_of :: "byte list \<Rightarrow> wshead" where
  "wshead_of bs = (let a = unat (bs ! 0); b = unat (bs ! 1) in
    \<lparr> wh_opcode = a mod 16, wh_rsv3 = odd (a div 16), wh_rsv2 = odd (a div 32),
      wh_rsv1 = odd (a div 64), wh_fin = odd (a div 128),
      wh_payload = b mod 128, wh_mask = odd (b div 128) \<rparr>)"

definition zero_head :: wshead where
  "zero_head = \<lparr> wh_opcode = 0, wh_rsv3 = False, wh_rsv2 = False, wh_rsv1 = False,
     wh_fin = False, wh_payload = 0, wh_mask = False \<rparr>"

record wsmsg =
  ws_opcode :: int
  ws_data :: "byte list"

text \<open>\<open>data[i] ^= mask[i % 4]\<close> for every index.\<close>

definition ws_xor :: "byte list \<Rightarrow> byte list \<Rightarrow> byte list" where
  "ws_xor mk bs = map2 (\<lambda>i b. b XOR mk ! (i mod 4)) [0..<length bs] bs"

section \<open>Sending\<close>

text \<open>A transfer whose count is not positive leaves the \<open>do\<close> block: \<open>Inl\<close> with the stream.\<close>

definition ws_write :: "byte list \<Rightarrow> sockstream \<Rightarrow> sockstream + sockstream" where
  "ws_write bs ss =
    (let (v, ss') = writeFixSize ss_write bs ss in if v \<le> 0 then Inl ss' else Inr ss')"

definition ws_read :: "nat \<Rightarrow> sockstream \<Rightarrow> sockstream + byte list \<times> sockstream" where
  "ws_read n ss =
    (let (v, bs, ss') = readFixSize ss_read n ss in if v \<le> 0 then Inl ss' else Inr (bs, ss'))"

definition send_head :: "wsmsg \<Rightarrow> bool \<Rightarrow> bool \<Rightarrow> wshead" where
  "send_head msg client fin =
    (let n = length (ws_data msg) in
     zero_head\<lparr> wh_fin := fin, wh_opcode := nat (ws_opcode msg mod 16), wh_mask := client,
       wh_payload := (if n < 126 then n else if n < 65536 then 126 else 127) \<rparr>)"

definition ws_write_length :: "wshead \<Rightarrow> nat \<Rightarrow> sockstream \<Rightarrow> sockstream + sockstream" where
  "ws_write_length h n ss =
    (if wh_payload h = 126 then ws_write (le_bytes (byteswap (of_nat n :: u16))) ss
     else if wh_payload h = 127 then ws_write (le_bytes (byteswap (of_nat n :: u64))) ss
     else Inr ss)"

definition wsSendMessage ::
    "wsmsg \<Rightarrow> bool \<Rightarrow> bool \<Rightarrow> u32 \<Rightarrow> sockstream \<Rightarrow> int \<times> wsmsg \<times> sockstream" where
  "wsSendMessage msg client fin randValue ss =
    (let n = length (ws_data msg);
         wsHead = send_head msg client fin in
     case ws_write (wshead_bytes wsHead) ss of
       Inl s \<Rightarrow> (-1, msg, ss_close s)
     | Inr ss1 \<Rightarrow>
     (case ws_write_length wsHead n ss1 of
       Inl s \<Rightarrow> (-1, msg, ss_close s)
     | Inr ss2 \<Rightarrow>
     (let mk = le_bytes randValue;
          msg' = (if client then msg\<lparr> ws_data := ws_xor mk (ws_data msg) \<rparr> else msg) in
      case (if client then ws_write mk ss2 else Inr ss2) of
        Inl s \<Rightarrow> (-1, msg', ss_close s)
      | Inr ss3 \<Rightarrow>
      (case ws_write (ws_data msg') ss3 of
         Inl s \<Rightarrow> (-1, msg', ss_close s)
       | Inr ss4 \<Rightarrow> (to_int32 (n + 2), msg', ss4)))))"

definition ws_control :: "nat \<Rightarrow> sockstream \<Rightarrow> int \<times> sockstream" where
  "ws_control op ss =
    (let (v, ss') = writeFixSize ss_write (wshead_bytes (zero_head\<lparr> wh_fin := True, wh_opcode := op \<rparr>)) ss in
     if v \<le> 0 then (v, ss_close ss') else (v, ss'))"

definition wsPing :: "sockstream \<Rightarrow> int \<times> sockstream" where
  "wsPing = ws_control OpPing"

definition wsPong :: "sockstream \<Rightarrow> int \<times> sockstream" where
  "wsPong = ws_control OpPong"

section \<open>Receiving\<close>

definition ws_length :: "wshead \<Rightarrow> sockstream \<Rightarrow> sockstream + nat \<times> sockstream" where
  "ws_length h ss =
    (if wh_payload h = 126 then
       (case ws_read 2 ss of
          Inl s \<Rightarrow> Inl s
        | Inr (bs, ss') \<Rightarrow> Inr (unat (byteswap (of_le_bytes bs :: u16)), ss'))
     else if wh_payload h = 127 then
       (case ws_read 8 ss of
          Inl s \<Rightarrow> Inl s
        | Inr (bs, ss') \<Rightarrow> Inr (unat (byteswap (of_le_bytes bs :: u64)), ss'))
     else Inr (wh_payload h, ss))"

text \<open>What one turn of the receive loop leads to: the message, a \<open>break\<close>, or the next turn.\<close>

datatype ws_next =
    WsReturn wsmsg sockstream
  | WsBreak sockstream
  | WsNext int "byte list" int sockstream

definition resize_bytes :: "nat \<Rightarrow> byte list \<Rightarrow> byte list" where
  "resize_bytes n xs = take n xs @ replicate (n - length xs) 0"

definition ws_payload ::
    "wshead \<Rightarrow> nat \<Rightarrow> int \<Rightarrow> byte list \<Rightarrow> int \<Rightarrow> sockstream \<Rightarrow> ws_next" where
  "ws_payload h len op data cur ss =
    (case (if wh_mask h then ws_read 4 ss else Inr ([0, 0, 0, 0], ss)) of
       Inl s \<Rightarrow> WsBreak s
     | Inr (mk, ss1) \<Rightarrow>
     (case ws_read len ss1 of
        Inl s \<Rightarrow> WsBreak s
      | Inr (bs, ss2) \<Rightarrow>
        let data1 = resize_bytes ((nat (cur mod 2 ^ 64) + len) mod 2 ^ 64) data;
            data2 = overwrite data1 (nat (cur mod 2 ^ 64)) (if wh_mask h then ws_xor mk bs else bs);
            cur2 = cur + to_int32 len;
            op2 = (if op = 0 \<and> wh_opcode h \<noteq> OpContinue then int (wh_opcode h) else op) in
        if wh_fin h then WsReturn \<lparr> ws_opcode = op2, ws_data = data2 \<rparr> ss2
        else WsNext op2 data2 cur2 ss2))"

definition ws_frame ::
    "nat \<Rightarrow> bool \<Rightarrow> int \<Rightarrow> byte list \<Rightarrow> int \<Rightarrow> sockstream \<Rightarrow> ws_next" where
  "ws_frame maxSize client op data cur ss =
    (case ws_read 2 ss of
       Inl s \<Rightarrow> WsBreak s
     | Inr (hb, ss1) \<Rightarrow>
       let h = wshead_of hb in
       if wh_opcode h = OpPing then
         (let (v, ss2) = wsPong ss1 in if v \<le> 0 then WsBreak ss2 else WsNext op data cur ss2)
       else if wh_opcode h = OpPong then WsNext op data cur ss1
       else if wh_opcode h = OpContinue \<or> wh_opcode h = OpTextFrame \<or> wh_opcode h = OpBinFrame then
         (if \<not> client \<and> \<not> wh_mask h then WsBreak ss1
          else case ws_length h ss1 of
            Inl s \<Rightarrow> WsBreak s
          | Inr (len, ss2) \<Rightarrow>
            if maxSize \<le> (nat (cur mod 2 ^ 64) + len) mod 2 ^ 64 then WsBreak ss2
            else ws_payload h len op data cur ss2)
       else WsNext op data cur ss1)"

text \<open>
  Every turn that goes on has consumed an answer of the kernel, so the loop ends.
\<close>

definition answers :: "sockstream \<Rightarrow> nat" where
  "answers ss = (case ss_socket ss of None \<Rightarrow> 0 | Some s \<Rightarrow> length (sk_rxans s))"

lemma socket_recv_answers:
  "socket_recv n s = (r, bs, s') \<Longrightarrow>
   length (sk_rxans s') \<le> length (sk_rxans s) \<and> (0 < r \<longrightarrow> length (sk_rxans s') < length (sk_rxans s))"
  by (auto simp: socket_recv_def kernel_recv_def Let_def split: if_splits list.splits)

lemma ss_read_answers:
  "ss_read n ss = (r, bs, ss') \<Longrightarrow> answers ss' \<le> answers ss \<and> (0 < r \<longrightarrow> answers ss' < answers ss)"
  by (cases "ss_socket ss"; cases "socket_recv n (the (ss_socket ss))")
    (auto simp: ss_read_def answers_def dest: socket_recv_answers split: if_splits)

lemma ss_write_answers: "ss_write bs ss = (r, ss') \<Longrightarrow> answers ss' = answers ss"
  by (cases "ss_socket ss"; cases "socket_send bs (the (ss_socket ss))")
    (auto simp: ss_write_def answers_def dest: socket_send_frame split: if_splits)

lemma readFix_answers:
  "readFix_loop ss_read left ss = (r, bs, ss') \<Longrightarrow>
   answers ss' \<le> answers ss \<and> (0 < left \<longrightarrow> r = None \<longrightarrow> answers ss' < answers ss)"
proof (induction "nat left" arbitrary: left ss r bs ss' rule: less_induct)
  case less
  obtain l bs1 ss1 where q: "ss_read (nat left) ss = (l, bs1, ss1)" by (cases "ss_read (nat left) ss")
  obtain r2 bs2 ss2 where q2: "readFix_loop ss_read (left - l) ss1 = (r2, bs2, ss2)"
    by (cases "readFix_loop ss_read (left - l) ss1")
  show ?case
  proof (cases "0 < left \<and> 0 < l")
    case True
    then have "answers ss2 \<le> answers ss1" using less.hyps [OF _ q2] by simp
    then show ?thesis
      using less.prems True q q2 ss_read_answers [OF q] by (auto simp: readFix_loop.simps [of _ left])
  next
    case False
    then show ?thesis
      using less.prems q ss_read_answers [OF q] by (auto simp: readFix_loop.simps [of _ left] split: if_splits)
  qed
qed

lemma ws_read_Inr:
  "ws_read n ss = Inr (bs, ss') \<longleftrightarrow> (\<exists>v. readFixSize ss_read n ss = (v, bs, ss') \<and> 0 < v)"
  by (cases "readFixSize ss_read n ss") (auto simp: ws_read_def)

lemma readFixSize_answers:
  assumes "readFixSize ss_read n ss = (v, bs, ss')" "0 < v"
  shows "answers ss' \<le> answers ss \<and> (0 < to_int64 n \<longrightarrow> answers ss' < answers ss)"
proof -
  obtain r where l: "readFix_loop ss_read (to_int64 n) ss = (r, bs, ss')" and v: "v = fix_result n r"
    using assms(1) by (auto simp: readFixSize_def split: prod.splits)
  have "r = None" using sk.readFix_loop_law [OF l] v assms(2) by (cases r) (auto simp: fix_result_def)
  then show ?thesis using readFix_answers [OF l] by simp
qed

lemma ws_read_answers:
  "ws_read n ss = Inr (bs, ss') \<Longrightarrow>
   answers ss' \<le> answers ss \<and> (0 < to_int64 n \<longrightarrow> answers ss' < answers ss)"
  using readFixSize_answers by (auto simp: ws_read_Inr)

lemma writeFix_answers: "writeFix_loop ss_write bs left ss = (r, ss') \<Longrightarrow> answers ss' = answers ss"
proof (induction "nat left" arbitrary: left bs ss r ss' rule: less_induct)
  case less
  obtain l ss1 where q: "ss_write (take (nat left) bs) ss = (l, ss1)" by (cases "ss_write (take (nat left) bs) ss")
  show ?case
    using less.prems less.hyps [of "left - l" "drop (nat l) bs" ss1] q ss_write_answers [OF q]
    by (auto simp: writeFix_loop.simps [of _ bs] split: if_splits)
qed

lemma ss_close_answers [simp]: "answers (ss_close ss) = answers ss"
  by (cases "ss_socket ss") (simp_all add: ss_close_def answers_def socket_close_def)

lemma wsPong_answers: "wsPong ss = (v, ss') \<Longrightarrow> answers ss' = answers ss"
  by (auto simp: wsPong_def ws_control_def writeFixSize_def split: prod.splits if_splits
      dest!: writeFix_answers)

lemma ws_length_answers: "ws_length h ss = Inr (n, ss') \<Longrightarrow> answers ss' \<le> answers ss"
  by (auto simp: ws_length_def split: if_splits sum.splits dest: ws_read_answers)

lemma ws_payload_answers:
  "ws_payload h len op data cur ss = WsNext op' data' cur' ss' \<Longrightarrow> answers ss' \<le> answers ss"
  by (auto simp: ws_payload_def Let_def split: if_splits sum.splits dest!: ws_read_answers)

lemma ws_frame_answers:
  assumes "ws_frame maxSize client op data cur ss = WsNext op' data' cur' ss'"
  shows "answers ss' < answers ss"
proof -
  obtain hb ss1 where r: "ws_read 2 ss = Inr (hb, ss1)"
    using assms by (auto simp: ws_frame_def split: sum.splits)
  have lt: "answers ss1 < answers ss" using ws_read_answers [OF r] by (simp add: to_int64_small)
  have "answers ss' \<le> answers ss1"
    using assms r
    by (auto simp: ws_frame_def Let_def split: if_splits sum.splits prod.splits
        dest: wsPong_answers ws_length_answers ws_payload_answers intro: le_trans)
  then show ?thesis using lt by simp
qed

function wsRecv_loop ::
    "nat \<Rightarrow> bool \<Rightarrow> int \<Rightarrow> byte list \<Rightarrow> int \<Rightarrow> sockstream \<Rightarrow> wsmsg option \<times> sockstream" where
  "wsRecv_loop maxSize client op data cur ss =
    (case ws_frame maxSize client op data cur ss of
       WsReturn msg ss' \<Rightarrow> (Some msg, ss')
     | WsBreak ss' \<Rightarrow> (None, ss_close ss')
     | WsNext op' data' cur' ss' \<Rightarrow> wsRecv_loop maxSize client op' data' cur' ss')"
  by pat_completeness auto
termination
  by (relation "measure (\<lambda>(m, c, op, data, cur, ss). answers ss)") (simp_all add: ws_frame_answers)

definition wsRecvMessage :: "nat \<Rightarrow> bool \<Rightarrow> sockstream \<Rightarrow> wsmsg option \<times> sockstream" where
  "wsRecvMessage maxSize client ss = wsRecv_loop maxSize client 0 [] 0 ss"

declare wsRecv_loop.simps [simp del]

text \<open>The members of \<open>WSSession\<close>, the server's end of a connection.\<close>

definition recvMessage :: "nat \<Rightarrow> sockstream \<Rightarrow> wsmsg option \<times> sockstream" where
  "recvMessage maxSize = wsRecvMessage maxSize False"

definition sendMessage :: "wsmsg \<Rightarrow> bool \<Rightarrow> sockstream \<Rightarrow> int \<times> wsmsg \<times> sockstream" where
  "sendMessage msg fin = wsSendMessage msg False fin 0"

definition sendMessage_string :: "byte list \<Rightarrow> int \<Rightarrow> bool \<Rightarrow> sockstream \<Rightarrow> int \<times> wsmsg \<times> sockstream" where
  "sendMessage_string data op fin = wsSendMessage \<lparr> ws_opcode = op, ws_data = data \<rparr> False fin 0"

section \<open>Head and mask\<close>

lemma unat_of_nat_byte: "n < 256 \<Longrightarrow> unat (of_nat n :: byte) = n"
  by (simp add: unsigned_of_nat take_bit_nat_eq_self)

lemma wshead_of_send:
  "wshead_of (wshead_bytes (send_head msg client fin)) = send_head msg client fin"
proof -
  let ?h = "send_head msg client fin"
  have o: "wh_opcode ?h < 16" by (simp add: send_head_def Let_def nat_less_iff)
  have p: "wh_payload ?h < 128" by (simp add: send_head_def Let_def)
  have r: "\<not> wh_rsv1 ?h" "\<not> wh_rsv2 ?h" "\<not> wh_rsv3 ?h"
    by (simp_all add: send_head_def Let_def zero_head_def)
  have le: "x + 128 * of_bool c < 256" if "x < 128" for x :: nat and c using that by simp
  have hb: "wshead_bytes ?h = [of_nat (wh_opcode ?h + 128 * of_bool (wh_fin ?h)),
      of_nat (wh_payload ?h + 128 * of_bool (wh_mask ?h))]"
    unfolding wshead_bytes_def using o p r by simp
  have a: "unat (wshead_bytes ?h ! 0) = wh_opcode ?h + 128 * of_bool (wh_fin ?h)"
    unfolding hb nth_Cons_0 using o by (intro unat_of_nat_byte le) simp
  have b: "unat (wshead_bytes ?h ! 1) = wh_payload ?h + 128 * of_bool (wh_mask ?h)"
    unfolding hb nth_Cons_0 One_nat_def nth_Cons_Suc using p by (intro unat_of_nat_byte le)
  have d: "(x + 128 * of_bool c) div 128 = of_bool c" if "x < 128" for x :: nat and c
    using that by simp
  have q: "(x + 128 * of_bool c) mod 128 = x" if "x < 128" for x :: nat and c
    using that by simp
  have m: "(x + 128 * of_bool c) mod 16 = x" "even ((x + 128 * of_bool c) div 16)"
      "even ((x + 128 * of_bool c) div 32)" "even ((x + 128 * of_bool c) div 64)"
    if "x < 16" for x :: nat and c
  proof -
    have k: "(128 :: nat) * of_bool c = 16 * (8 * of_bool c)" "(128 :: nat) * of_bool c = 32 * (4 * of_bool c)"
      "(128 :: nat) * of_bool c = 64 * (2 * of_bool c)" by simp_all
    have "(x + 128 * of_bool c) div 16 = 8 * of_bool c" unfolding k(1) using that by (simp add: div_mult_self2)
    moreover have "(x + 128 * of_bool c) div 32 = 4 * of_bool c" unfolding k(2) using that by (simp add: div_mult_self2)
    moreover have "(x + 128 * of_bool c) div 64 = 2 * of_bool c" unfolding k(3) using that by (simp add: div_mult_self2)
    moreover have "(x + 128 * of_bool c) mod 16 = x" unfolding k(1) mod_mult_self2 using that by (rule mod_less)
    ultimately show "(x + 128 * of_bool c) mod 16 = x" "even ((x + 128 * of_bool c) div 16)"
      "even ((x + 128 * of_bool c) div 32)" "even ((x + 128 * of_bool c) div 64)" by simp_all
  qed
  show ?thesis
    unfolding wshead_of_def Let_def a b
    by (rule wshead.equality) (use o p r d q m in simp_all)
qed

lemma length_ws_xor [simp]: "length (ws_xor mk bs) = length bs"
  by (simp add: ws_xor_def)

lemma ws_xor_xor [simp]: "ws_xor mk (ws_xor mk bs) = bs"
  by (rule nth_equalityI) (simp_all add: ws_xor_def xor.assoc)

section \<open>The bytes of a frame\<close>

definition ext_length :: "byte list \<Rightarrow> byte list" where
  "ext_length d = (if length d < 126 then []
     else if length d < 65536 then le_bytes (byteswap (of_nat (length d) :: u16))
     else le_bytes (byteswap (of_nat (length d) :: u64)))"

definition frame_bytes :: "bool \<Rightarrow> bool \<Rightarrow> int \<Rightarrow> u32 \<Rightarrow> byte list \<Rightarrow> byte list" where
  "frame_bytes client fin op rv d =
    wshead_bytes (send_head \<lparr> ws_opcode = op, ws_data = d \<rparr> client fin) @ ext_length d @
    (if client then le_bytes rv @ ws_xor (le_bytes rv) d else d)"

lemma le_bytes_ne: "8 \<le> LENGTH('a) \<Longrightarrow> le_bytes (w :: 'a::len word) \<noteq> []"
proof -
  assume "8 \<le> LENGTH('a)"
  then have "0 < LENGTH('a) div 8" by (simp add: div_greater_zero_iff)
  then have "0 < length (le_bytes w)" by simp
  then show ?thesis by (rule length_greater_0_conv [THEN iffD1])
qed

lemma ws_xor_ne: "bs \<noteq> [] \<Longrightarrow> ws_xor mk bs \<noteq> []"
  using length_ws_xor [of mk bs] by force

lemma length_head [simp]: "length (wshead_bytes h) = 2"
  by (simp add: wshead_bytes_def)

lemma ws_write_ready:
  assumes "ss_wready (length bs + m) ss" "bs \<noteq> []" "length bs < 2 ^ 31"
  shows "\<exists>ss'. ws_write bs ss = Inr ss' \<and> ss_sent ss' = ss_sent ss @ bs \<and> ss_wready m ss'"
proof -
  have "0 < length bs" using assms(2) by simp
  then show ?thesis using sk.writeFixSize_ready [OF assms] by (auto simp: ws_write_def)
qed

lemma ws_read_ready:
  assumes "ss_rready ss" "ss_pend ss = bs @ rest" "bs \<noteq> []" "length bs < 2 ^ 31"
  shows "\<exists>ss'. ws_read (length bs) ss = Inr (bs, ss') \<and> ss_pend ss' = rest \<and> ss_rready ss'"
proof -
  have "0 < length bs" using assms(3) by simp
  then show ?thesis
    using sk.readFixSize_ready [OF assms(1), of "length bs"] assms(2,4) by (auto simp: ws_read_def)
qed

lemma wsSend_ready:
  assumes w: "ss_wready (length (frame_bytes client fin op rv d) + m) ss"
    and d: "d \<noteq> []" "length d + 2 < 2 ^ 31"
  shows "\<exists>msg ss'. wsSendMessage \<lparr> ws_opcode = op, ws_data = d \<rparr> client fin rv ss
             = (int (length d + 2), msg, ss') \<and>
           ss_sent ss' = ss_sent ss @ frame_bytes client fin op rv d \<and> ss_wready m ss'"
proof -
  let ?msg = "\<lparr> ws_opcode = op, ws_data = d \<rparr>" and ?mk = "le_bytes rv"
  let ?h = "send_head ?msg client fin"
  let ?tail = "if client then ws_xor ?mk d else d" and ?mkb = "if client then ?mk else []"
  have fb: "frame_bytes client fin op rv d = wshead_bytes ?h @ ext_length d @ ?mkb @ ?tail"
    by (simp add: frame_bytes_def)
  have w0: "ss_wready (length (wshead_bytes ?h) + (length (ext_length d) + (length ?mkb + (length ?tail + m)))) ss"
    using w fb by (simp add: add.assoc)
  obtain s1 where s1: "ws_write (wshead_bytes ?h) ss = Inr s1" "ss_sent s1 = ss_sent ss @ wshead_bytes ?h"
      "ss_wready (length (ext_length d) + (length ?mkb + (length ?tail + m))) s1"
    using ws_write_ready [OF w0] by (auto simp: wshead_bytes_def)
  have pay: "wh_payload ?h = (if length d < 126 then length d else if length d < 65536 then 126 else 127)"
    by (simp add: send_head_def Let_def)
  have el: "length (ext_length d) < 2 ^ 31" by (simp add: ext_length_def)
  obtain s2 where s2: "ws_write_length ?h (length d) s1 = Inr s2" "ss_sent s2 = ss_sent s1 @ ext_length d"
      "ss_wready (length ?mkb + (length ?tail + m)) s2"
  proof (cases "length d < 126")
    case True
    then show ?thesis using that s1(3) pay by (simp add: ext_length_def ws_write_length_def)
  next
    case False
    then have "ext_length d \<noteq> []"
      by (simp add: ext_length_def le_bytes_ne)
    then obtain s2 where "ws_write (ext_length d) s1 = Inr s2" "ss_sent s2 = ss_sent s1 @ ext_length d"
        "ss_wready (length ?mkb + (length ?tail + m)) s2"
      using ws_write_ready [OF s1(3) _ el] by blast
    then show ?thesis using that False pay by (auto simp: ext_length_def ws_write_length_def split: if_splits)
  qed
  obtain s3 where s3: "(if client then ws_write ?mk s2 else Inr s2) = Inr s3" "ss_sent s3 = ss_sent s2 @ ?mkb"
      "ss_wready (length ?tail + m) s3"
  proof (cases client)
    case True
    have "?mk \<noteq> []" "length ?mk < 2 ^ 31" by (simp_all add: le_bytes_ne)
    then show ?thesis using ws_write_ready [of ?mk "length ?tail + m" s2] s2(3) True that by auto
  qed (use that s2 in simp)
  have t: "?tail \<noteq> []" "length ?tail < 2 ^ 31" using d by (simp_all add: ws_xor_ne)
  obtain s4 where s4: "ws_write ?tail s3 = Inr s4" "ss_sent s4 = ss_sent s3 @ ?tail" "ss_wready m s4"
    using ws_write_ready [OF s3(3) t] by blast
  have ret: "to_int32 (length d + 2) = int (length d + 2)" using d(2) by (rule to_int32_small)
  show ?thesis
  proof (cases client)
    case True
    have "wsSendMessage ?msg client fin rv ss
        = (int (length d + 2), ?msg\<lparr> ws_data := ws_xor ?mk d \<rparr>, s4)"
      using s1(1) s2(1) s3(1) s4(1) ret True by (simp add: wsSendMessage_def Let_def)
    then show ?thesis using s1(2) s2(2) s3(2) s4(2,3) fb by simp
  next
    case False
    have "wsSendMessage ?msg client fin rv ss = (int (length d + 2), ?msg, s4)"
      using s1(1) s2(1) s3(1) s4(1) ret False by (simp add: wsSendMessage_def Let_def)
    then show ?thesis using s1(2) s2(2) s3(2) s4(2,3) fb by simp
  qed
qed

section \<open>Receiving what was sent\<close>

lemma ws_length_frame:
  assumes "ss_rready ss" "ss_pend ss = ext_length d @ rest" "length d < 2 ^ 31"
  shows "\<exists>ss'. ws_length (send_head \<lparr> ws_opcode = op, ws_data = d \<rparr> client fin) ss = Inr (length d, ss') \<and>
           ss_pend ss' = rest \<and> ss_rready ss'"
proof -
  let ?h = "send_head \<lparr> ws_opcode = op, ws_data = d \<rparr> client fin"
  have pay: "wh_payload ?h = (if length d < 126 then length d else if length d < 65536 then 126 else 127)"
    by (simp add: send_head_def Let_def)
  consider "length d < 126" | "126 \<le> length d" "length d < 65536" | "65536 \<le> length d" by linarith
  then show ?thesis
  proof cases
    case 1
    then show ?thesis using assms pay by (simp add: ws_length_def ext_length_def)
  next
    case 2
    let ?bs = "le_bytes (byteswap (of_nat (length d) :: u16))"
    have "ss_pend ss = ?bs @ rest" using assms(2) 2 by (simp add: ext_length_def)
    then obtain ss' where r: "ws_read 2 ss = Inr (?bs, ss')" "ss_pend ss' = rest" "ss_rready ss'"
      using ws_read_ready [OF assms(1), of ?bs rest] by (auto simp: le_bytes_ne)
    have "unat (of_nat (length d) :: u16) = length d"
      using 2 by (simp add: unsigned_of_nat take_bit_nat_eq_self)
    then show ?thesis using r pay 2 by (simp add: ws_length_def byteswap_byteswap)
  next
    case 3
    let ?bs = "le_bytes (byteswap (of_nat (length d) :: u64))"
    have "ss_pend ss = ?bs @ rest" using assms(2) 3 by (simp add: ext_length_def)
    then obtain ss' where r: "ws_read 8 ss = Inr (?bs, ss')" "ss_pend ss' = rest" "ss_rready ss'"
      using ws_read_ready [OF assms(1), of ?bs rest] by (auto simp: le_bytes_ne)
    have "length d < 2 ^ 64" using assms(3) by simp
    then have "unat (of_nat (length d) :: u64) = length d"
      by (simp add: unsigned_of_nat take_bit_nat_eq_self)
    then show ?thesis using r pay 3 by (simp add: ws_length_def byteswap_byteswap)
  qed
qed

lemma head_ne: "wshead_bytes h \<noteq> []"
  by (simp add: wshead_bytes_def)

lemma resize_overwrite:
  "length bs = n \<Longrightarrow> overwrite (resize_bytes (length data + n) data) (length data) bs = data @ bs"
  by (simp add: resize_bytes_def overwrite_def)

lemma nat_mod64: "0 \<le> cur \<Longrightarrow> cur < 2 ^ 64 \<Longrightarrow> nat (cur mod 2 ^ 64) = nat cur"
  by simp

text \<open>One frame, received after the fragments \<open>data\<close>.\<close>

definition next_opcode :: "int \<Rightarrow> int \<Rightarrow> int" where
  "next_opcode cur op = (if cur = 0 then op else cur)"

lemma ws_frame_receives:
  assumes ready: "ss_rready ss" and pend: "ss_pend ss = frame_bytes client fin op rv d @ rest"
    and op: "0 \<le> op" "op < 3" and d: "d \<noteq> []"
    and fits: "length data + length d < maxSize" "maxSize \<le> 2 ^ 31"
  shows "\<exists>ss'. ws_frame maxSize (\<not> client) op0 data (int (length data)) ss =
           (if fin then WsReturn \<lparr> ws_opcode = next_opcode op0 op, ws_data = data @ d \<rparr> ss'
            else WsNext (next_opcode op0 op) (data @ d) (int (length (data @ d))) ss') \<and>
           ss_pend ss' = rest \<and> ss_rready ss'"
proof -
  let ?h = "send_head \<lparr> ws_opcode = op, ws_data = d \<rparr> client fin"
  let ?mk = "if client then le_bytes rv else []" and ?tail = "if client then ws_xor (le_bytes rv) d else d"
  have small: "length d < 2 ^ 31" using fits by simp
  have h: "wh_opcode ?h = nat op" "wh_mask ?h = client" "wh_fin ?h = fin"
    using op by (simp_all add: send_head_def Let_def)
  have p0: "ss_pend ss = wshead_bytes ?h @ ext_length d @ (?mk @ ?tail) @ rest"
    using pend by (simp add: frame_bytes_def)
  obtain s1 where s1: "ws_read 2 ss = Inr (wshead_bytes ?h, s1)"
      "ss_pend s1 = ext_length d @ (?mk @ ?tail) @ rest" "ss_rready s1"
    using ws_read_ready [OF ready p0 head_ne] by auto
  obtain s2 where s2: "ws_length ?h s1 = Inr (length d, s2)" "ss_pend s2 = (?mk @ ?tail) @ rest" "ss_rready s2"
    using ws_length_frame [OF s1(3,2) small] by blast
  obtain s3 where s3: "(if client then ws_read 4 s2 else Inr ([0, 0, 0, 0], s2))
        = Inr (if client then le_bytes rv else [0, 0, 0, 0], s3)"
      "ss_pend s3 = ?tail @ rest" "ss_rready s3"
  proof (cases client)
    case True
    then show ?thesis
      using that ws_read_ready [OF s2(3), of "le_bytes rv" "?tail @ rest"] s2(2) by (auto simp: le_bytes_ne)
  qed (use that s2 in simp)
  have lt: "length ?tail = length d" by simp
  have "?tail \<noteq> []" "length ?tail < 2 ^ 31" using d small by (simp_all add: ws_xor_ne)
  then obtain s4 where s4: "ws_read (length d) s3 = Inr (?tail, s4)" "ss_pend s4 = rest" "ss_rready s4"
    using ws_read_ready [OF s3(3,2)] unfolding lt by blast
  have cur: "nat (int (length data) mod 2 ^ 64) = length data" using fits by (intro nat_mod64 [THEN trans]) simp_all
  have tot: "(length data + length d) mod 2 ^ 64 = length data + length d" using fits by simp
  have i32: "to_int32 (length d) = int (length d)" using small by (rule to_int32_small)
  have unmask: "(if client then ws_xor (if client then le_bytes rv else [0, 0, 0, 0]) ?tail else ?tail) = d" by simp
  have app: "overwrite (resize_bytes (length data + length d) data) (length data) d = data @ d"
    by (simp add: resize_overwrite)
  have op2: "(if op0 = 0 \<and> nat op \<noteq> OpContinue then int (nat op) else op0) = next_opcode op0 op"
    using op by (auto simp: next_opcode_def OpContinue_def)
  have pl: "ws_payload ?h (length d) op0 data (int (length data)) s2 =
           (if fin then WsReturn \<lparr> ws_opcode = next_opcode op0 op, ws_data = data @ d \<rparr> s4
            else WsNext (next_opcode op0 op) (data @ d) (int (length (data @ d))) s4)"
    unfolding ws_payload_def h s3(1) sum.case prod.case s4(1) Let_def cur tot unmask app op2 i32
    by simp
  have "nat op \<noteq> 9" "nat op \<noteq> 10" "nat op = 0 \<or> nat op = 1 \<or> nat op = 2" using op by auto
  then have "ws_frame maxSize (\<not> client) op0 data (int (length data)) ss
      = ws_payload ?h (length d) op0 data (int (length data)) s2"
    using s1(1) s2(1) h fits(1) cur tot
    by (simp add: ws_frame_def Let_def wshead_of_send opcode_defs)
  then show ?thesis using pl s4 by auto
qed

text \<open>
  A message sent in fragments: the first carries the opcode, the others are continuations and
  only the last has the final bit. Each fragment comes with the random value of its mask.
\<close>

fun ws_send_frags ::
    "bool \<Rightarrow> int \<Rightarrow> (byte list \<times> u32) list \<Rightarrow> sockstream \<Rightarrow> int list \<times> sockstream" where
  "ws_send_frags client op [] ss = ([], ss)"
| "ws_send_frags client op ((d, rv) # fs) ss =
    (let (v, _, ss1) = wsSendMessage \<lparr> ws_opcode = op, ws_data = d \<rparr> client (fs = []) rv ss;
         (vs, ss2) = ws_send_frags client 0 fs ss1 in (v # vs, ss2))"

fun frags_bytes :: "bool \<Rightarrow> int \<Rightarrow> (byte list \<times> u32) list \<Rightarrow> byte list" where
  "frags_bytes client op [] = []"
| "frags_bytes client op ((d, rv) # fs) =
    frame_bytes client (fs = []) op rv d @ frags_bytes client 0 fs"

lemma length_frame: "length (frame_bytes client fin op rv d) \<le> length d + 14"
  by (simp add: frame_bytes_def ext_length_def)

lemma length_frags: "length (frags_bytes client op fs) \<le> length (concat (map fst fs)) + 14 * length fs"
proof (induction fs arbitrary: op)
  case (Cons f fs)
  obtain d rv where "f = (d, rv)" by (cases f)
  then show ?case
    using Cons.IH [of 0] length_frame [of client "fs = []" op rv d] by (simp add: algebra_simps)
qed simp

lemma ss_wready_mono: "ss_wready m ss \<Longrightarrow> k \<le> m \<Longrightarrow> ss_wready k ss"
  by (auto simp: ss_wready_def split: option.splits)

lemma ws_send_frags_ready:
  assumes "ss_wready (length (frags_bytes client op fs)) ss"
    "\<forall>(d, rv) \<in> set fs. d \<noteq> [] \<and> length d + 2 < 2 ^ 31"
  shows "\<exists>ss'. ws_send_frags client op fs ss = (map (\<lambda>(d, rv). int (length d + 2)) fs, ss') \<and>
           ss_sent ss' = ss_sent ss @ frags_bytes client op fs"
  using assms
proof (induction fs arbitrary: op ss)
  case (Cons f fs)
  obtain d rv where f: "f = (d, rv)" by (cases f)
  have w: "ss_wready (length (frame_bytes client (fs = []) op rv d) + length (frags_bytes client 0 fs)) ss"
    using Cons.prems(1) f by simp
  obtain msg s1 where s1: "wsSendMessage \<lparr> ws_opcode = op, ws_data = d \<rparr> client (fs = []) rv ss
        = (int (length d + 2), msg, s1)"
      "ss_sent s1 = ss_sent ss @ frame_bytes client (fs = []) op rv d"
      "ss_wready (length (frags_bytes client 0 fs)) s1"
    using wsSend_ready [OF w] Cons.prems(2) f by auto
  obtain s2 where "ws_send_frags client 0 fs s1 = (map (\<lambda>(d, rv). int (length d + 2)) fs, s2)"
      "ss_sent s2 = ss_sent s1 @ frags_bytes client 0 fs"
    using Cons.IH [OF s1(3)] Cons.prems(2) by auto
  then show ?case using s1 f by simp
qed simp

lemma wsRecv_fragments:
  assumes "ss_rready ss" "fs \<noteq> []" "ss_pend ss = frags_bytes client op fs @ rest"
    "\<forall>(d, rv) \<in> set fs. d \<noteq> []" "0 \<le> op" "op < 3" "next_opcode op0 op \<noteq> 0"
    "length data + length (concat (map fst fs)) < maxSize" "maxSize \<le> 2 ^ 31"
  shows "\<exists>ss'. wsRecv_loop maxSize (\<not> client) op0 data (int (length data)) ss
           = (Some \<lparr> ws_opcode = next_opcode op0 op, ws_data = data @ concat (map fst fs) \<rparr>, ss') \<and>
           ss_pend ss' = rest \<and> ss_rready ss'"
  using assms
proof (induction fs arbitrary: ss data op op0)
  case (Cons f fs)
  obtain d rv where f: "f = (d, rv)" by (cases f)
  have p: "ss_pend ss = frame_bytes client (fs = []) op rv d @ frags_bytes client 0 fs @ rest"
    "d \<noteq> []" "length data + length d < maxSize"
    using Cons.prems f by auto
  obtain s1 where s1: "ws_frame maxSize (\<not> client) op0 data (int (length data)) ss
        = (if fs = [] then WsReturn \<lparr> ws_opcode = next_opcode op0 op, ws_data = data @ d \<rparr> s1
           else WsNext (next_opcode op0 op) (data @ d) (int (length (data @ d))) s1)"
      "ss_pend s1 = frags_bytes client 0 fs @ rest" "ss_rready s1"
    using ws_frame_receives [OF Cons.prems(1) p(1) Cons.prems(5,6) p(2,3) Cons.prems(9), of op0] by blast
  show ?case
  proof (cases "fs = []")
    case True
    then show ?thesis using s1 f by (simp add: wsRecv_loop.simps [of maxSize])
  next
    case False
    have "next_opcode (next_opcode op0 op) 0 = next_opcode op0 op"
      using Cons.prems(7) by (simp add: next_opcode_def)
    then show ?thesis
      using Cons.IH [OF s1(3) False s1(2), where ?op0.0 = "next_opcode op0 op" and data = "data @ d"] Cons.prems f s1(1) False
      by (simp add: wsRecv_loop.simps [of maxSize _ op0] add.assoc)
  qed
qed simp

section \<open>Bounds\<close>

lemma to_int32_high:
  assumes "2 ^ 64 - 2 ^ 31 \<le> n" "n < 2 ^ 64"
  shows "to_int32 n < 0"
proof -
  define k where "k = 2 ^ 64 - n"
  have k: "0 < k" "k \<le> 2 ^ 31" "n = 2 ^ 64 - k" using assms by (auto simp: k_def)
  have "(of_nat n :: u32) = - of_nat k"
  proof -
    have "of_nat n + of_nat k = (of_nat (2 ^ 64) :: u32)" using k assms by (simp flip: of_nat_add)
    moreover have "(of_nat (2 ^ 64) :: u32) = 0" by simp
    ultimately show ?thesis by (simp add: eq_neg_iff_add_eq_0)
  qed
  then have e: "(of_nat n :: u32) = word_of_int (- int k)" by simp
  have "to_int32 n = signed_take_bit (LENGTH(32) - 1) (- int k)"
    unfolding to_int32_def e by (rule sint_sbintrunc')
  also have "\<dots> = - int k" using k by (intro signed_take_bit_int_eq_self) simp_all
  finally show ?thesis using k(1) by simp
qed

lemma to_int64_high:
  assumes "2 ^ 63 \<le> n" "n < 2 ^ 64"
  shows "to_int64 n \<le> 0"
proof -
  have "to_int64 n = signed_take_bit (LENGTH(64) - 1) (int n)"
    unfolding to_int64_def by (simp add: signed_of_nat)
  also have "\<dots> = (int n + 2 ^ 63) mod 2 ^ 64 - 2 ^ 63"
    by (simp add: signed_take_bit_eq_take_bit_shift take_bit_eq_mod)
  also have "(int n + 2 ^ 63) mod 2 ^ 64 = (int n + 2 ^ 63 - 2 ^ 64) mod 2 ^ 64"
    using assms by (intro mod_pos_geq) simp_all
  also have "\<dots> \<le> 2 ^ 63"
    using assms by (subst mod_pos_pos_trivial) simp_all
  finally show ?thesis by simp
qed

lemma ws_length_bound:
  assumes "ws_length h ss = Inr (n, ss')" "wh_payload h < 128"
  shows "n < 2 ^ 64"
proof -
  have "unat (w :: u16) < 2 ^ 64" for w by (rule order_less_le_trans [OF unsigned_less]) simp
  moreover have "unat (w :: u64) < 2 ^ 64" for w by (rule order_less_le_trans [OF unsigned_less]) simp
  ultimately show ?thesis
    using assms by (auto simp: ws_length_def split: if_splits sum.splits)
qed

lemma ws_read_within:
  assumes rd: "ws_read len ss = Inr (bs, ss')" and m: "m < maxSize \<or> m = 0" "maxSize \<le> 2 ^ 31"
    and len: "len < 2 ^ 64" "(m + len) mod 2 ^ 64 < maxSize"
  shows "length bs = len \<and> m + len < maxSize \<and> (m + len) mod 2 ^ 64 = m + len"
proof -
  obtain v where v: "readFixSize ss_read len ss = (v, bs, ss')" "0 < v" using rd by (auto simp: ws_read_Inr)
  have m2: "m < 2 ^ 31" using m by auto
  have "len < 2 ^ 63"
  proof (rule ccontr)
    assume big: "\<not> len < 2 ^ 63"
    have "2 ^ 64 \<le> m + len"
    proof (rule ccontr)
      assume "\<not> 2 ^ 64 \<le> m + len"
      then have "(m + len) mod 2 ^ 64 = m + len" by simp
      then show False using len m big by simp
    qed
    then have "to_int32 len < 0" using len(1) m2 by (intro to_int32_high) simp_all
    moreover have "v = to_int32 len"
      using v(1) to_int64_high [of len] big len(1)
      by (simp add: readFixSize_def readFix_loop.simps fix_result_def)
    ultimately show False using v(2) by simp
  qed
  moreover from this have "(m + len) mod 2 ^ 64 = m + len" using m2 by simp
  ultimately show ?thesis using sk.readFixSize_ok [OF v] len(2) by simp
qed

text \<open>What the receive loop keeps: the length counter is the size of the data, below the limit.\<close>

definition ws_inv :: "nat \<Rightarrow> byte list \<Rightarrow> int \<Rightarrow> bool" where
  "ws_inv maxSize data cur \<longleftrightarrow> cur = int (length data) \<and> (length data < maxSize \<or> data = [])"

definition ws_kept :: "nat \<Rightarrow> ws_next \<Rightarrow> bool" where
  "ws_kept maxSize nx = (case nx of
     WsReturn msg ss' \<Rightarrow> length (ws_data msg) < maxSize
   | WsNext op' data' cur' ss' \<Rightarrow> ws_inv maxSize data' cur'
   | WsBreak ss' \<Rightarrow> True)"

lemma ws_payload_kept:
  assumes inv: "ws_inv maxSize data cur" "maxSize \<le> 2 ^ 31"
    and len: "len < 2 ^ 64" "(nat (cur mod 2 ^ 64) + len) mod 2 ^ 64 < maxSize"
  shows "ws_kept maxSize (ws_payload h len op data cur ss)"
proof -
  have small: "length data < 2 ^ 31" using inv by (auto simp: ws_inv_def)
  then have cur: "nat (cur mod 2 ^ 64) = length data" using inv by (simp add: ws_inv_def)
  have step: "ws_kept maxSize (case ws_read len s1 of
        Inl s \<Rightarrow> WsBreak s
      | Inr (bs, ss2) \<Rightarrow>
        let data1 = resize_bytes ((length data + len) mod 2 ^ 64) data;
            data2 = overwrite data1 (length data) (if wh_mask h then ws_xor mk bs else bs);
            cur2 = cur + to_int32 len;
            op2 = (if op = 0 \<and> wh_opcode h \<noteq> OpContinue then int (wh_opcode h) else op) in
        if wh_fin h then WsReturn \<lparr> ws_opcode = op2, ws_data = data2 \<rparr> ss2
        else WsNext op2 data2 cur2 ss2)" for mk s1
  proof (cases "ws_read len s1")
    case (Inr p)
    obtain bs s2 where p: "p = (bs, s2)" by (cases p)
    have r: "length bs = len" "length data + len < maxSize" "(length data + len) mod 2 ^ 64 = length data + len"
      using ws_read_within [of len s1 bs s2 "length data" maxSize] Inr p inv len cur by (auto simp: ws_inv_def)
    have l: "length (if wh_mask h then ws_xor mk bs else bs) = len" using r by simp
    have "to_int32 len = int len" using r(2) inv(2) by (intro to_int32_small) simp
    then show ?thesis
      using Inr p r inv by (simp add: resize_overwrite [OF l] ws_kept_def ws_inv_def Let_def)
  qed (simp add: ws_kept_def)
  show ?thesis
  proof (cases "if wh_mask h then ws_read 4 ss else Inr ([0, 0, 0, 0], ss)")
    case (Inl s)
    then show ?thesis by (simp add: ws_payload_def ws_kept_def)
  next
    case (Inr q)
    then show ?thesis
      unfolding ws_payload_def cur Inr sum.case by (cases q) (simp only: prod.case step)
  qed
qed

lemma ws_frame_kept:
  assumes inv: "ws_inv maxSize data cur" "maxSize \<le> 2 ^ 31"
  shows "ws_kept maxSize (ws_frame maxSize client op data cur ss)"
proof (cases "ws_read 2 ss")
  case (Inl s)
  then show ?thesis by (simp add: ws_frame_def ws_kept_def)
next
  case (Inr p)
  obtain hb s1 where p: "p = (hb, s1)" by (cases p)
  have pay: "wh_payload (wshead_of hb) < 128" by (simp add: wshead_of_def Let_def)
  have nx: "ws_kept maxSize (WsNext op data cur s)" "ws_kept maxSize (WsBreak s)" for s
    using inv by (simp_all add: ws_kept_def)
  have len: "ws_kept maxSize (case ws_length (wshead_of hb) s1 of
            Inl s \<Rightarrow> WsBreak s
          | Inr (len, ss2) \<Rightarrow>
            if maxSize \<le> (nat (cur mod 2 ^ 64) + len) mod 2 ^ 64 then WsBreak ss2
            else ws_payload (wshead_of hb) len op data cur ss2)"
    using nx ws_payload_kept [OF inv ws_length_bound [OF _ pay]] by (auto split: sum.split)
  show ?thesis
    unfolding ws_frame_def Inr p sum.case prod.case Let_def using nx len by (auto split: prod.split)
qed

lemma wsRecv_loop_bound:
  "ws_inv maxSize data cur \<Longrightarrow> maxSize \<le> 2 ^ 31 \<Longrightarrow>
   wsRecv_loop maxSize client op data cur ss = (Some msg, ss') \<Longrightarrow> length (ws_data msg) < maxSize"
proof (induction maxSize client op data cur ss rule: wsRecv_loop.induct)
  case (1 maxSize client op data cur ss)
  then show ?case
    using ws_frame_kept [OF "1.prems"(1,2), of client op ss]
    by (cases "ws_frame maxSize client op data cur ss")
      (auto simp: ws_kept_def wsRecv_loop.simps [of maxSize client op])
qed

section \<open>Empty payloads\<close>

lemma ws_write_Nil: "ws_write [] ss = Inl ss"
  by (simp add: ws_write_def writeFixSize_def writeFix_loop.simps to_int64_small fix_result_def to_int32_small)

lemma ws_read_0: "ws_read 0 ss = Inl ss"
  by (simp add: ws_read_def readFixSize_def readFix_loop.simps to_int64_small fix_result_def to_int32_small)

lemma ss_close_disconnected: "\<not> ss_isConnected (ss_close ss)"
  by (cases "ss_socket ss") (auto simp: ss_close_def ss_isConnected_def socket_close_def)

lemma wsSend_empty:
  "fst (wsSendMessage \<lparr> ws_opcode = op, ws_data = [] \<rparr> client fin rv ss) = -1 \<and>
   \<not> ss_isConnected (snd (snd (wsSendMessage \<lparr> ws_opcode = op, ws_data = [] \<rparr> client fin rv ss)))"
  by (auto simp: wsSendMessage_def Let_def ws_xor_def ws_write_Nil ss_close_disconnected split: sum.split)

lemma ws_frame_empty:
  assumes ready: "ss_rready ss" and pend: "ss_pend ss = frame_bytes client fin op rv [] @ rest"
    and op: "0 \<le> op" "op < 3" and max: "0 < maxSize"
  shows "\<exists>ss'. ws_frame maxSize (\<not> client) 0 [] 0 ss = WsBreak ss'"
proof -
  let ?h = "send_head \<lparr> ws_opcode = op, ws_data = [] \<rparr> client fin"
  have h: "wh_opcode ?h = nat op" "wh_mask ?h = client" "wh_payload ?h = 0"
    using op by (simp_all add: send_head_def Let_def)
  have p0: "ss_pend ss = wshead_bytes ?h @ (if client then le_bytes rv else []) @ rest"
    using pend by (simp add: frame_bytes_def ext_length_def ws_xor_def)
  obtain s1 where s1: "ws_read 2 ss = Inr (wshead_bytes ?h, s1)"
    using ws_read_ready [OF ready p0 head_ne] by auto
  have "nat op \<noteq> 9" "nat op \<noteq> 10" "nat op = 0 \<or> nat op = 1 \<or> nat op = 2" using op by auto
  then have "ws_frame maxSize (\<not> client) 0 [] 0 ss = ws_payload ?h 0 0 [] 0 s1"
    using s1 h max by (simp add: ws_frame_def Let_def wshead_of_send opcode_defs ws_length_def)
  then show ?thesis
    by (auto simp: ws_payload_def ws_read_0 split: sum.split)
qed

section \<open>Properties\<close>

text \<open>
  C28: A WebSocket message survives its transport. A message that one end sends in any number of
  non-empty fragments, each as a frame (masked when the sender is the client, with the length in
  the head, in two or in eight bytes), is received by the other end as one message with the
  sender's opcode and the concatenation of the fragments. The kernel may split and join the
  transfers of both ends in any way; the receiver stops exactly behind the last frame, so that
  the bytes of the next message stay pending, and every send reports its size.
\<close>

theorem ws_round_trip:
  assumes op: "op = 1 \<or> op = 2" and frags: "frags \<noteq> []" "\<forall>(d, rv) \<in> set frags. d \<noteq> []"
    and fits: "length (concat (map fst frags)) < maxSize" "maxSize \<le> 2 ^ 30"
    and send: "ss_wready (length (concat (map fst frags)) + 14 * length frags) a"
      "ws_send_frags client op frags a = (vs, a')"
    and recv: "ss_rready b" "ss_sent a @ ss_pend b = ss_sent a' @ rest"
  shows "\<exists>b'. wsRecvMessage maxSize (\<not> client) b
             = (Some \<lparr> ws_opcode = op, ws_data = concat (map fst frags) \<rparr>, b') \<and>
           ss_pend b' = rest \<and> vs = map (\<lambda>(d, rv). int (length d) + 2) frags"
proof -
  have each: "\<forall>(d, rv) \<in> set frags. d \<noteq> [] \<and> length d + 2 < 2 ^ 31"
  proof clarify
    fix d rv assume m: "(d, rv) \<in> set frags"
    have "length d \<le> length (concat (map fst frags))"
      using m by (auto simp: length_concat intro!: member_le_sum_list image_eqI [where x = "(d, rv)"])
    then have "length d + 2 < 2 ^ 31" using fits by simp
    then show "d \<noteq> [] \<and> length d + 2 < 2 ^ 31" using frags(2) m by auto
  qed
  have w: "ss_wready (length (frags_bytes client op frags)) a"
    using send(1) length_frags by (rule ss_wready_mono)
  have s: "vs = map (\<lambda>(d, rv). int (length d + 2)) frags" "ss_sent a' = ss_sent a @ frags_bytes client op frags"
    using ws_send_frags_ready [OF w each] send(2) by auto
  have p: "ss_pend b = frags_bytes client op frags @ rest" using recv(2) s(2) by simp
  have n: "next_opcode 0 op = op" "op \<noteq> 0" using op by (auto simp: next_opcode_def)
  obtain b' where "wsRecv_loop maxSize (\<not> client) 0 [] (int (length ([] :: byte list))) b
      = (Some \<lparr> ws_opcode = next_opcode 0 op, ws_data = [] @ concat (map fst frags) \<rparr>, b')" "ss_pend b' = rest"
    using wsRecv_fragments [OF recv(1) frags(1) p frags(2), of 0 "[]" maxSize] op n fits by auto
  moreover have "vs = map (\<lambda>(d, rv). int (length d) + 2) frags" unfolding s(1) by auto
  ultimately show ?thesis using n by (simp add: wsRecvMessage_def)
qed

definition ws_demo_sock :: "byte list \<Rightarrow> sockstream" where
  "ws_demo_sock rx = \<lparr> ss_socket = Some \<lparr> sk_sock = 5, sk_isConnected = True, sk_rx = rx,
      sk_rxans = replicate 40 3, sk_tx = [], sk_txans = replicate 40 1 \<rparr>, ss_owner = True \<rparr>"

theorem ws_round_trip_witness:
  "\<exists>b'. wsRecvMessage 1024 False
         (ws_demo_sock (ss_sent (snd (ws_send_frags True 1 [([72, 105], 7), ([33], 9)] (ws_demo_sock [])))))
       = (Some \<lparr> ws_opcode = 1, ws_data = [72, 105, 33] \<rparr>, b')"
proof -
  let ?f = "[([72, 105], 7), ([33], 9)] :: (byte list \<times> u32) list"
  obtain vs a' where s: "ws_send_frags True 1 ?f (ws_demo_sock []) = (vs, a')"
    by (cases "ws_send_frags True 1 ?f (ws_demo_sock [])")
  have w: "ss_wready (length (frags_bytes True 1 ?f)) (ws_demo_sock [])"
    using length_frags [of True 1 ?f] by (auto simp: ss_wready_def ws_demo_sock_def list_all_length)
  then have "ss_sent a' = frags_bytes True 1 ?f"
    using ws_send_frags_ready [OF w] s by (auto simp: ss_sent_def ws_demo_sock_def)
  then have "ss_rready (ws_demo_sock (ss_sent a'))"
    using length_frags [of True 1 ?f] by (auto simp: ss_rready_def ws_demo_sock_def list_all_length)
  moreover have "ss_wready 31 (ws_demo_sock [])" by (simp add: ss_wready_def ws_demo_sock_def list_all_length)
  ultimately show ?thesis
    using ws_round_trip [of 1 ?f 1024 "ws_demo_sock []" True vs a' "ws_demo_sock (ss_sent a')" "[]"] s
    by (auto simp: ws_demo_sock_def ss_sent_def ss_pend_def)
qed

text \<open>
  C31: A received WebSocket message is always smaller than the configured limit, whatever the peer
  and the kernel do: also when a frame announces a 64-bit length that makes the sum with the
  bytes received so far wrap around.
\<close>

theorem ws_message_bounded:
  assumes "maxSize \<le> 2 ^ 31" "wsRecvMessage maxSize client ss = (Some msg, ss')"
  shows "length (ws_data msg) < maxSize"
proof -
  have "ws_inv maxSize [] 0" by (simp add: ws_inv_def)
  then show ?thesis
    using wsRecv_loop_bound [OF _ assms(1)] assms(2) unfolding wsRecvMessage_def by blast
qed

theorem ws_message_bounded_witness:
  "\<exists>msg ss'. wsRecvMessage 5 True (ws_demo_sock [0x82, 1, 7]) = (Some msg, ss') \<and> length (ws_data msg) < 5"
proof -
  have "frame_bytes False True 2 0 [7] = [0x82, 1, 7]"
    by (simp add: frame_bytes_def ext_length_def wshead_bytes_def send_head_def zero_head_def)
  then have "ss_pend (ws_demo_sock [0x82, 1, 7]) = frags_bytes False 2 [([7], 0)] @ []"
    by (simp add: ss_pend_def ws_demo_sock_def)
  moreover have "ss_rready (ws_demo_sock [0x82, 1, 7])"
    by (simp add: ss_rready_def ws_demo_sock_def list_all_length)
  ultimately obtain ss' where "wsRecvMessage 5 True (ws_demo_sock [0x82, 1, 7])
      = (Some \<lparr> ws_opcode = 2, ws_data = [7] \<rparr>, ss')"
    using wsRecv_fragments [of "ws_demo_sock [0x82, 1, 7]" "[([7], 0)]" False 2 "[]" 0 "[]" 5]
    by (auto simp: next_opcode_def wsRecvMessage_def)
  then show ?thesis using ws_message_bounded [of 5 True "ws_demo_sock [0x82, 1, 7]"] by auto
qed

text \<open>
  C33: An empty WebSocket message ends the connection. Sending a message without data returns -1
  and closes the stream, whatever its state; and a data frame without payload that arrives from
  the other end makes the receiver give up, return no message and close the stream, because the
  exact-length transfers report a transfer of no bytes as 0, the value of a failure.
\<close>

theorem ws_empty_closes:
  assumes "ss_rready ss" "ss_pend ss = frame_bytes client fin op rv [] @ rest"
    "0 \<le> op" "op < 3" "0 < maxSize"
  shows "(\<exists>msg a'. wsSendMessage \<lparr> ws_opcode = op, ws_data = [] \<rparr> client fin rv a = (-1, msg, a') \<and>
            \<not> ss_isConnected a') \<and>
         (\<exists>ss'. wsRecvMessage maxSize (\<not> client) ss = (None, ss') \<and> \<not> ss_isConnected ss')"
proof -
  obtain v msg a' where "wsSendMessage \<lparr> ws_opcode = op, ws_data = [] \<rparr> client fin rv a = (v, msg, a')"
    by (cases "wsSendMessage \<lparr> ws_opcode = op, ws_data = [] \<rparr> client fin rv a")
  then have "wsSendMessage \<lparr> ws_opcode = op, ws_data = [] \<rparr> client fin rv a = (-1, msg, a') \<and> \<not> ss_isConnected a'"
    using wsSend_empty [of op client fin rv a] by simp
  then show ?thesis
    using ws_frame_empty [OF assms]
    by (auto simp: wsRecvMessage_def wsRecv_loop.simps [of maxSize _ 0] ss_close_disconnected)
qed

theorem ws_empty_closes_witness:
  "\<exists>ss'. wsRecvMessage 1024 True (ws_demo_sock [0x81, 0]) = (None, ss') \<and> \<not> ss_isConnected ss'"
proof -
  have "frame_bytes False True 1 0 [] = [0x81, 0]"
    by (simp add: frame_bytes_def ext_length_def wshead_bytes_def send_head_def zero_head_def)
  then show ?thesis
    using ws_empty_closes [of "ws_demo_sock [0x81, 0]" False True 1 0 "[]" 1024 "ws_demo_sock []"]
    by (auto simp: ss_pend_def ss_rready_def ws_demo_sock_def list_all_length)
qed

end
