(* ===== verification/HttpSession.thy ===== *)
theory HttpSession
  imports HttpParser WebSocket
begin

text \<open>
  HTTP over a socket stream: the server's session (\<open>src/http/http_session.cpp\<close>) and the client's
  connection (\<open>recvResponse\<close> and \<open>sendRequest\<close> of \<open>src/http/http_connection.cpp\<close>). Both read into a
  buffer of 4096 bytes and feed the parser until it has finished. Decompression of a response body
  is an argument.
\<close>

section \<open>Receiving\<close>

definition REQUEST_BUFFER_SIZE :: nat where
  "REQUEST_BUFFER_SIZE = 4096"

text \<open>Every round with a positive count uses up an answer of the kernel.\<close>

function recvRequest_loop :: "byte list \<Rightarrow> nat \<Rightarrow> http_request parser \<Rightarrow> sockstream
    \<Rightarrow> http_request option \<times> sockstream" where
  "recvRequest_loop buffer offset parser ss =
    (case ss_read (REQUEST_BUFFER_SIZE - offset) ss of (rt, bs, ss1) \<Rightarrow>
      if rt \<le> 0 then (None, ss_close ss1)
      else
        let data = overwrite buffer offset bs;
            len = nat rt + offset;
            ex = rqp_execute (take len data) parser;
            offset1 = len - fst ex
        in if hasError (snd ex) then (None, ss_close ss1)
           else if offset1 = REQUEST_BUFFER_SIZE then (None, ss_close ss1)
           else if ps_finished (snd ex) then (Some (rq_init (ps_data (snd ex))), ss1)
           else recvRequest_loop data offset1 (snd ex) ss1)"
  by pat_completeness auto
termination
  by (relation "measure (\<lambda>(b, off, p, ss). answers ss)") (auto dest: ss_read_answers [OF sym])

declare recvRequest_loop.simps [simp del]

definition recvRequest :: "sockstream \<Rightarrow> http_request option \<times> sockstream" where
  "recvRequest ss = recvRequest_loop (replicate REQUEST_BUFFER_SIZE 0) 0 new_HttpRequestParser ss"

function recvResponse_loop :: "byte list \<Rightarrow> nat \<Rightarrow> http_response parser \<Rightarrow> sockstream
    \<Rightarrow> http_response option \<times> sockstream" where
  "recvResponse_loop buffer offset parser ss =
    (case ss_read (REQUEST_BUFFER_SIZE - offset) ss of (rt, bs, ss1) \<Rightarrow>
      if rt \<le> 0 then (None, ss1)
      else
        let data = overwrite buffer offset bs;
            len = nat rt + offset;
            ex = rsp_execute (take len data) parser;
            offset1 = len - fst ex
        in if hasError (snd ex) then (None, ss1)
           else if ps_finished (snd ex) then (Some (ps_data (snd ex)), ss1)
           else recvResponse_loop data offset1 (snd ex) ss1)"
  by pat_completeness auto
termination
  by (relation "measure (\<lambda>(b, off, p, ss). answers ss)") (auto dest: ss_read_answers [OF sym])

declare recvResponse_loop.simps [simp del]

definition decode_body :: "(byte list \<Rightarrow> byte list) \<Rightarrow> (byte list \<Rightarrow> byte list) \<Rightarrow> http_response \<Rightarrow> http_response" where
  "decode_body gunzip inflate rsp =
    (if rs_body rsp = [] then rsp
     else let enc = rs_getHeader (text_of ''content-encoding'') [] rsp in
       if enc = [] then rsp
       else if ci_key enc = text_of ''gzip'' then rsp\<lparr> rs_body := gunzip (rs_body rsp) \<rparr>
       else if ci_key enc = text_of ''deflate'' then rsp\<lparr> rs_body := inflate (rs_body rsp) \<rparr>
       else rsp)"

definition recvResponse :: "(byte list \<Rightarrow> byte list) \<Rightarrow> (byte list \<Rightarrow> byte list) \<Rightarrow> sockstream
    \<Rightarrow> http_response option \<times> sockstream" where
  "recvResponse gunzip inflate ss =
    (case recvResponse_loop (replicate REQUEST_BUFFER_SIZE 0) 0 new_HttpResponseParser ss of
       (r, ss1) \<Rightarrow> (map_option (decode_body gunzip inflate) r, ss1))"

section \<open>Sending\<close>

definition sendResponse :: "http_response \<Rightarrow> sockstream \<Rightarrow> int \<times> sockstream" where
  "sendResponse rsp ss = writeFixSize ss_write (rs_dump rsp) ss"

definition sendRequest :: "http_request \<Rightarrow> sockstream \<Rightarrow> int \<times> sockstream" where
  "sendRequest req ss = writeFixSize ss_write (rq_dump req) ss"

section \<open>A request arrives in pieces\<close>

context incremental
begin

lemma loop_consumes:
  "execute_loop processLine addBody pos a p = (n, p1) \<Longrightarrow>
   n \<le> pos + length a \<and> (\<not> ps_finished p1 \<longrightarrow> \<not> hasError p1 \<longrightarrow> n = pos + length a)"
proof (induction "length a" arbitrary: pos a p rule: less_induct)
  case less
  consider (stop) "a = [] \<or> ps_finished p \<or> hasError p"
    | (body) "a \<noteq> []" "\<not> ps_finished p" "\<not> hasError p" "ps_state p = Body"
    | (line) "a \<noteq> []" "\<not> ps_finished p" "\<not> hasError p" "ps_state p \<noteq> Body"
    by blast
  then show ?case
  proof cases
    case stop
    then show ?thesis using less.prems by (auto simp: loop_stop)
  next
    case body
    then show ?thesis using less.prems by (auto simp: loop_body Let_def split: if_splits)
  next
    case line
    obtain c cs where a: "a = c # cs" using line(1) by (cases a) auto
    then show ?thesis using less.hyps [of cs "Suc pos"] less.prems loop_line [OF line(2-4)] by auto
  qed
qed

text \<open>
  When the whole input ends in a finished parser that has used all of it, every proper part of it is
  used up and leaves the parser waiting for more.
\<close>

lemma loop_waits:
  assumes "execute_loop processLine addBody 0 (a @ b) p0 = (length (a @ b), q)" "\<not> hasError q"
    and "execute_loop processLine addBody 0 a p0 = (n, p1)" "b \<noteq> []"
  shows "n = length a \<and> \<not> ps_finished p1 \<and> \<not> hasError p1"
proof -
  have r: "execute_loop processLine addBody n b p1 = (length (a @ b), q)" using assms(1,3) by (simp add: loop_split)
  have n: "n \<le> length a" using loop_consumes [OF assms(3)] by simp
  have "\<not> (ps_finished p1 \<or> hasError p1)"
  proof
    assume "ps_finished p1 \<or> hasError p1"
    then have "execute_loop processLine addBody n b p1 = (n, p1)" by (auto intro: loop_stop)
    then show False using r n assms(4) by (cases b) auto
  qed
  then show ?thesis using loop_consumes [OF assms(3)] by simp
qed

end

lemma overwrite_start: "length bs \<le> length buf \<Longrightarrow> take (length bs) (overwrite buf 0 bs) = bs"
  by (simp add: overwrite_def)

lemma length_overwrite_buffer: "length bs \<le> length buf \<Longrightarrow> length (overwrite buf 0 bs) = length buf"
  by (simp add: overwrite_def)

text \<open>The loop after the part \<open>a\<close> of a complete text has been read and \<open>b\<close> is still to come.\<close>

lemma recvRequest_loop_ready:
  assumes "rqp_execute (a @ b) new_HttpRequestParser = (length (a @ b), q)" "ps_finished q" "\<not> hasError q"
  shows "rqp_execute a new_HttpRequestParser = (length a, p) \<Longrightarrow> b \<noteq> [] \<Longrightarrow> ss_pend ss = b \<Longrightarrow> ss_rready ss \<Longrightarrow>
    length buffer = REQUEST_BUFFER_SIZE \<Longrightarrow>
    \<exists>ss'. recvRequest_loop buffer 0 p ss = (Some (rq_init (ps_data q)), ss') \<and> ss_pend ss' = [] \<and> ss_sent ss' = ss_sent ss"
  using assms(1)
proof (induction "length b" arbitrary: a b p ss buffer rule: less_induct)
  case less
  obtain rt bs ss1 where rd: "ss_read REQUEST_BUFFER_SIZE ss = (rt, bs, ss1)" by (cases "ss_read REQUEST_BUFFER_SIZE ss")
  have pos: "0 < REQUEST_BUFFER_SIZE" by (simp add: REQUEST_BUFFER_SIZE_def)
  have law: "rt \<le> int REQUEST_BUFFER_SIZE" "length bs = nat rt" "b = bs @ ss_pend ss1" "ss_sent ss1 = ss_sent ss"
    using sk.rd_law [OF pos rd] less.prems(3) by auto
  have rdy: "ss_rready ss1" "0 < rt" using sk.rd_ready [OF pos rd less.prems(4)] less.prems(2,3) by auto
  have fit: "length bs \<le> length buffer" using law(1,2) less.prems(5) by simp
  let ?b = "ss_pend ss1" and ?buf = "overwrite buffer 0 bs"
  obtain n p1 where ex: "rqp_execute bs p = (n, p1)" by (cases "rqp_execute bs p")
  have whole: "rqp_execute (a @ bs) new_HttpRequestParser = (length a + n, p1)"
    using less.prems(1) ex rqi.loop_rebase [where s = bs and p = p and n = "length a"] by (simp add: rqp_execute_def rqi.loop_split)
  have full: "rqp_execute ((a @ bs) @ ?b) new_HttpRequestParser = (length ((a @ bs) @ ?b), q)"
    using less.prems(6) law(3) by simp
  have step: "recvRequest_loop buffer 0 p ss =
      (if hasError p1 then (None, ss_close ss1)
       else if length bs - n = REQUEST_BUFFER_SIZE then (None, ss_close ss1)
       else if ps_finished p1 then (Some (rq_init (ps_data p1)), ss1)
       else recvRequest_loop ?buf (length bs - n) p1 ss1)"
    using rd rdy(2) law(2) overwrite_start [OF fit] ex by (subst recvRequest_loop.simps) (simp add: Let_def)
  show ?case
  proof (cases "?b = []")
    case True
    then have "p1 = q" "n = length bs" using whole full by simp_all
    then show ?thesis using step True assms(2,3) law(4) pos by simp
  next
    case False
    have w: "length a + n = length (a @ bs)" "\<not> ps_finished p1" "\<not> hasError p1"
      using rqi.loop_waits [of "a @ bs" ?b new_HttpRequestParser q "length a + n" p1] full assms(3) whole False
      by (simp_all add: rqp_execute_def)
    have "bs \<noteq> []" using rdy(2) law(2) by auto
    then have "length ?b < length b" using law(3) by simp
    then have "\<exists>ss'. recvRequest_loop ?buf 0 p1 ss1 = (Some (rq_init (ps_data q)), ss') \<and> ss_pend ss' = [] \<and> ss_sent ss' = ss_sent ss1"
      by (rule less.hyps [of ?b "a @ bs"]) (use whole w False rdy full less.prems(5) length_overwrite_buffer [OF fit] in simp_all)
    then show ?thesis using step w pos law(4) by simp
  qed
qed

lemma sendRequest_ready:
  assumes "dumpable r" "length (rq_dump r) < 2 ^ 31" "ss_wready (length (rq_dump r)) c"
  shows "\<exists>c'. sendRequest r c = (int (length (rq_dump r)), c') \<and> ss_sent c' = ss_sent c @ rq_dump r"
proof -
  have "rq_dump r \<noteq> []" using assms(1) by (simp add: rq_dump_lines dumpable_def crlf_def)
  then show ?thesis using sk.writeFixSize_ready [of "rq_dump r" 0 c] assms(2,3) by (auto simp: sendRequest_def)
qed

section \<open>Properties\<close>

text \<open>
  C3: A request that a client sends on its connection is the request the server's session receives:
  all its bytes are written, the session reads exactly them, however the kernel cuts both
  transfers, and the request it returns has the same method, version, path, query, fragment, body,
  connection mode and headers (those written by the text form itself apart).
\<close>

theorem http_request_delivered:
  assumes r: "dumpable r" "length (rq_dump r) < 2 ^ 31"
    and client: "ss_wready (length (rq_dump r)) c" "ss_sent c = []"
    and server: "ss_rready s" "ss_pend s = ss_sent (snd (sendRequest r c))"
  shows "fst (sendRequest r c) = int (length (rq_dump r)) \<and>
    (\<exists>q s'. recvRequest s = (Some q, s') \<and> ss_pend s' = [] \<and>
       rq_method q = rq_method r \<and> rq_version q = rq_version r \<and> rq_path q = rq_path r \<and> rq_query q = rq_query r \<and>
       rq_fragment q = rq_fragment r \<and> rq_body q = rq_body r \<and> rq_close q = rq_close r \<and>
       (\<forall>k. ci_key k \<noteq> text_of ''connection'' \<longrightarrow> ci_key k \<noteq> text_of ''content-length'' \<longrightarrow>
         rq_hasHeader k q = rq_hasHeader k r))"
proof -
  have ne: "rq_dump r \<noteq> []" using r(1) by (simp add: rq_dump_lines dumpable_def crlf_def)
  obtain c' where c': "sendRequest r c = (int (length (rq_dump r)), c')" "ss_sent c' = rq_dump r"
    using sendRequest_ready [OF r client(1)] client(2) by auto
  obtain q where q: "rqp_execute ([] @ rq_dump r) new_HttpRequestParser = (length ([] @ rq_dump r), q)" "ps_finished q" "\<not> hasError q"
    and d: "ps_data q = read_request r"
    using rqp_execute_dump [OF r(1), of "[]"] by auto
  have "rqp_execute [] new_HttpRequestParser = (length ([] :: byte list), new_HttpRequestParser)"
    by (simp add: rqp_execute_def rqi.loop_stop)
  from recvRequest_loop_ready [OF q this ne _ server(1), of "replicate REQUEST_BUFFER_SIZE 0"]
  obtain s' where s': "recvRequest s = (Some (rq_init (ps_data q)), s')" "ss_pend s' = []"
    using server(2) c' by (auto simp: recvRequest_def)
  show ?thesis
    using c' s' read_request_headers(1) [OF r(1)]
    by (simp add: d read_request_init [OF r(1)]) (simp add: read_request_def rq_hasHeader_def)
qed

definition client_demo :: sockstream where
  "client_demo = \<lparr> ss_socket = Some \<lparr> sk_sock = 3, sk_isConnected = True, sk_rx = [], sk_rxans = [], sk_tx = [],
     sk_txans = replicate 100 7 \<rparr>, ss_owner = True \<rparr>"

definition server_demo :: sockstream where
  "server_demo = \<lparr> ss_socket = Some \<lparr> sk_sock = 4, sk_isConnected = True, sk_rx = rq_dump request_demo,
     sk_rxans = replicate 100 5, sk_tx = [], sk_txans = [] \<rparr>, ss_owner = True \<rparr>"

lemma request_demo_facts: "dumpable request_demo" "length (rq_dump request_demo) = 68"
  by (simp_all add: dumpable_def request_demo_def new_HttpRequest_def request_line_def target_def version_text_def
      decimal.simps MAX_LINE_SIZE_def method_defs rq_dump_def connection_line_def header_lines_def body_text_def crlf_def)

theorem http_request_delivered_witness:
  "\<exists>q s'. recvRequest server_demo = (Some q, s') \<and> rq_body q = [1, 2, 10]"
proof -
  have w: "ss_wready (length (rq_dump request_demo)) client_demo" "ss_sent client_demo = []"
    by (simp_all add: ss_view_defs client_demo_def request_demo_facts list_all_iff)
  have rd: "ss_rready server_demo" "ss_pend server_demo = rq_dump request_demo"
    by (simp_all add: ss_view_defs server_demo_def request_demo_facts list_all_iff)
  have l: "length (rq_dump request_demo) < 2 ^ 31" by (simp add: request_demo_facts)
  have "ss_pend server_demo = ss_sent (snd (sendRequest request_demo client_demo))"
    using sendRequest_ready [OF request_demo_facts(1) l w(1)] w(2) rd(2) by auto
  moreover have "rq_body request_demo = [1, 2, 10]" by (simp add: request_demo_def)
  ultimately show ?thesis using http_request_delivered [OF request_demo_facts(1) l w rd(1)] by auto
qed

end
