(* ===== verification/Uri.thy ===== *)
theory Uri
  imports HttpParser
begin

text \<open>
  URIs (\<open>src/uri.cpp\<close>, \<open>include/uri.h\<close>): parsing into the parts, the default ports and the text
  form. \<open>atoi\<close> is written out; resolving a host is left to the address layer.
\<close>

record uri =
  ur_scheme :: "byte list"
  ur_userinfo :: "byte list"
  ur_host :: "byte list"
  ur_path :: "byte list"
  ur_query :: "byte list"
  ur_fragment :: "byte list"
  ur_port :: int

definition new_Uri :: uri where
  "new_Uri = \<lparr> ur_scheme = [], ur_userinfo = [], ur_host = [], ur_path = [], ur_query = [], ur_fragment = [], ur_port = 0 \<rparr>"

definition ur_getPort :: "uri \<Rightarrow> int" where
  "ur_getPort u =
    (if ur_port u \<noteq> 0 then ur_port u
     else if ur_scheme u = text_of ''http'' \<or> ur_scheme u = text_of ''ws'' then 80
     else if ur_scheme u = text_of ''https'' \<or> ur_scheme u = text_of ''wss'' then 443
     else ur_port u)"

text \<open>\<open>find\<close> of a string, \<open>find_first_of\<close> and \<open>rfind\<close>; None is \<open>npos\<close>.\<close>

definition find_str :: "byte list \<Rightarrow> byte list \<Rightarrow> nat option" where
  "find_str s needle = find (\<lambda>i. take (length needle) (drop i s) = needle) [0..<Suc (length s)]"

definition find_first_of :: "byte list \<Rightarrow> byte list \<Rightarrow> nat \<Rightarrow> nat option" where
  "find_first_of s chars pos =
    (let k = pos + length (takeWhile (\<lambda>c. c \<notin> set chars) (drop pos s)) in if k < length s then Some k else None)"

definition rfind :: "byte list \<Rightarrow> byte \<Rightarrow> nat option" where
  "rfind s c =
    (let k = length (takeWhile (\<lambda>x. x \<noteq> c) (rev s)) in if k < length s then Some (length s - k - 1) else None)"

definition atoi :: "byte list \<Rightarrow> int" where
  "atoi s = (case strtol s of None \<Rightarrow> 0 | Some (v, rest) \<Rightarrow> sint (word_of_int v :: 32 word))"

definition uri_create :: "byte list \<Rightarrow> uri" where
  "uri_create uri =
    (let (scheme, pos) = (case find_str uri (text_of ''://'') of None \<Rightarrow> ([], 0) | Some e \<Rightarrow> (take e uri, e + 3));
         pathStart = find_first_of uri [47, 63, 35] pos;
         authority = (case pathStart of None \<Rightarrow> drop pos uri | Some p \<Rightarrow> substr uri pos (p - pos));
         (userinfo, authority1) = (case rfind authority 64 of None \<Rightarrow> ([], authority)
           | Some a \<Rightarrow> (take a authority, drop (a + 1) authority));
         (host, port) = (case rfind authority1 58 of None \<Rightarrow> (authority1, 0)
           | Some c \<Rightarrow> (take c authority1,
               let portStr = drop (c + 1) authority1 in if portStr = [] then 0 else atoi portStr));
         rest = (case pathStart of None \<Rightarrow> [] | Some p \<Rightarrow> drop p uri);
         (fragment, rest1) = (case find_from 35 rest 0 of None \<Rightarrow> ([], rest) | Some p \<Rightarrow> (drop (p + 1) rest, take p rest));
         (query, rest2) = (case find_from 63 rest1 0 of None \<Rightarrow> ([], rest1) | Some p \<Rightarrow> (drop (p + 1) rest1, take p rest1))
     in \<lparr> ur_scheme = scheme, ur_userinfo = userinfo, ur_host = host,
          ur_path = (if rest2 = [] then text_of ''/'' else rest2),
          ur_query = query, ur_fragment = fragment, ur_port = port \<rparr>)"

definition int_text :: "int \<Rightarrow> byte list" where
  "int_text i = (if i < 0 then text_of ''-'' @ decimal (nat (- i)) else decimal (nat i))"

definition uri_dump :: "uri \<Rightarrow> byte list" where
  "uri_dump u =
    (if ur_scheme u = [] then [] else ur_scheme u @ text_of ''://'')
    @ (if ur_userinfo u = [] then [] else ur_userinfo u @ text_of ''@'')
    @ ur_host u
    @ (if ur_port u = 0 then [] else text_of '':'' @ int_text (ur_port u))
    @ (if ur_path u = [] then text_of ''/'' else ur_path u)
    @ (if ur_query u = [] then [] else text_of ''?'' @ ur_query u)
    @ (if ur_fragment u = [] then [] else text_of ''#'' @ ur_fragment u)"

section \<open>Searching\<close>

lemma rfind_hit: "c \<notin> set b \<Longrightarrow> rfind (a @ c # b) c = Some (length a)"
proof -
  assume c: "c \<notin> set b"
  have "takeWhile (\<lambda>x. x \<noteq> c) (rev b) = rev b" using c unfolding takeWhile_eq_all_conv by auto
  then have "takeWhile (\<lambda>x. x \<noteq> c) (rev b @ c # rev a) = rev b" by (simp add: takeWhile_tail)
  then show ?thesis by (simp add: rfind_def)
qed

lemma rfind_miss: "c \<notin> set a \<Longrightarrow> rfind a c = None"
proof -
  assume c: "c \<notin> set a"
  have tw: "takeWhile (\<lambda>x. x \<noteq> c) (rev a) = rev a" using c unfolding takeWhile_eq_all_conv by auto
  show ?thesis by (simp add: rfind_def tw)
qed

lemma find_first_of_hit:
  assumes "set a \<inter> set cs = {}" "c \<in> set cs"
  shows "find_first_of (pre @ a @ c # r) cs (length pre) = Some (length pre + length a)"
proof -
  have "takeWhile (\<lambda>x. x \<notin> set cs) a = a" using assms(1) unfolding takeWhile_eq_all_conv by auto
  then have "takeWhile (\<lambda>x. x \<notin> set cs) (a @ c # r) = a" using assms(2) by (simp add: takeWhile_tail)
  then show ?thesis by (simp add: find_first_of_def)
qed

lemma find_scheme:
  assumes "58 \<notin> set s"
  shows "find_str (s @ [58, 47, 47] @ r) [58, 47, 47] = Some (length s)"
proof -
  let ?P = "\<lambda>i. take (length [58, 47, 47 :: byte]) (drop i (s @ [58, 47, 47] @ r)) = [58, 47, 47]"
  have no: "\<not> ?P i" if "i < length s" for i
  proof
    assume "?P i"
    then have "hd (drop i (s @ [58, 47, 47] @ r)) = 58" by (metis hd_take length_greater_0_conv list.distinct(1) list.sel(1))
    then have "s ! i = 58" using that by (simp add: hd_drop_conv_nth nth_append)
    then show False using that assms nth_mem by metis
  qed
  have hit: "?P (length s)" by simp
  show ?thesis
    unfolding find_str_def find_Some_iff
    by (intro exI [of _ "length s"] conjI allI impI) (use no hit in \<open>simp_all del: upt_Suc add: nth_upt\<close>)
qed

section \<open>Reading back the text form\<close>

text \<open>The parts of a URI with a scheme, each without the characters that end it.\<close>

definition uri_ok :: "uri \<Rightarrow> bool" where
  "uri_ok u \<longleftrightarrow>
    ur_scheme u \<noteq> [] \<and> 58 \<notin> set (ur_scheme u) \<and> {47, 63, 35} \<inter> set (ur_userinfo u) = {} \<and>
    {47, 63, 35, 64, 58} \<inter> set (ur_host u) = {} \<and> 0 \<le> ur_port u \<and> ur_port u < 2 ^ 31 \<and>
    ur_path u \<noteq> [] \<and> hd (ur_path u) = 47 \<and> {63, 35} \<inter> set (ur_path u) = {} \<and> 35 \<notin> set (ur_query u)"

lemma atoi_decimal: "0 \<le> i \<Longrightarrow> i < 2 ^ 31 \<Longrightarrow> atoi (decimal (nat i)) = i"
  using scan_decimal [of "[]" "nat i"]
  by (simp add: atoi_def strtol_def c_str_def min_def sint_uint uint_word_of_int signed_take_bit_int_eq_self_iff)

definition auth_text :: "uri \<Rightarrow> byte list" where
  "auth_text u = (if ur_userinfo u = [] then [] else ur_userinfo u @ [64]) @ ur_host u
    @ (if ur_port u = 0 then [] else 58 # decimal (nat (ur_port u)))"

definition rest_text :: "uri \<Rightarrow> byte list" where
  "rest_text u = ur_path u @ (if ur_query u = [] then [] else 63 # ur_query u)
    @ (if ur_fragment u = [] then [] else 35 # ur_fragment u)"

lemma uri_dump_parts: "uri_ok u \<Longrightarrow> uri_dump u = ur_scheme u @ [58, 47, 47] @ auth_text u @ rest_text u"
  by (simp add: uri_dump_def uri_ok_def auth_text_def rest_text_def int_text_def text_of_def)

lemma decimal_no: "isdigit c \<or> c \<notin> set (decimal n)"
  using decimal_chars by blast

lemma auth_no_end: "uri_ok u \<Longrightarrow> set (auth_text u) \<inter> set [47, 63, 35] = {}"
  using decimal_no [of 47 "nat (ur_port u)"] decimal_no [of 63 "nat (ur_port u)"] decimal_no [of 35 "nat (ur_port u)"]
  by (auto simp: auth_text_def uri_ok_def isdigit_def)

lemma auth_split:
  assumes "uri_ok u"
  shows "(case rfind (auth_text u) 64 of None \<Rightarrow> ([], auth_text u) | Some a \<Rightarrow> (take a (auth_text u), drop (a + 1) (auth_text u)))
    = (ur_userinfo u, ur_host u @ (if ur_port u = 0 then [] else 58 # decimal (nat (ur_port u))))"
proof -
  let ?h = "ur_host u @ (if ur_port u = 0 then [] else 58 # decimal (nat (ur_port u)))"
  have h: "64 \<notin> set ?h" using assms decimal_no [of 64 "nat (ur_port u)"] by (auto simp: uri_ok_def isdigit_def)
  show ?thesis
  proof (cases "ur_userinfo u = []")
    case True
    then have "auth_text u = ?h" by (simp add: auth_text_def)
    then show ?thesis using rfind_miss [OF h] True by simp
  next
    case False
    then have "auth_text u = ur_userinfo u @ 64 # ?h" by (simp add: auth_text_def)
    then show ?thesis using rfind_hit [OF h, of "ur_userinfo u"] by simp
  qed
qed

lemma host_split:
  assumes "uri_ok u" "a = ur_host u @ (if ur_port u = 0 then [] else 58 # decimal (nat (ur_port u)))"
  shows "(case rfind a 58 of None \<Rightarrow> (a, 0)
      | Some c \<Rightarrow> (take c a, let portStr = drop (c + 1) a in if portStr = [] then 0 else atoi portStr)) = (ur_host u, ur_port u)"
proof (cases "ur_port u = 0")
  case True
  have "58 \<notin> set (ur_host u)" using assms(1) by (auto simp: uri_ok_def)
  then show ?thesis using True rfind_miss assms(2) by simp
next
  case False
  have "58 \<notin> set (decimal (nat (ur_port u)))" using decimal_no [of 58 "nat (ur_port u)"] by (simp add: isdigit_def)
  then show ?thesis
    using False rfind_hit [of 58 "decimal (nat (ur_port u))" "ur_host u"] assms atoi_decimal [of "ur_port u"]
    by (simp add: uri_ok_def)
qed

lemma rest_split:
  assumes "uri_ok u"
  shows "(case find_from 35 (rest_text u) 0 of None \<Rightarrow> ([], rest_text u) | Some p \<Rightarrow> (drop (p + 1) (rest_text u), take p (rest_text u)))
      = (ur_fragment u, ur_path u @ (if ur_query u = [] then [] else 63 # ur_query u))"
    and "(case find_from 63 (ur_path u @ (if ur_query u = [] then [] else 63 # ur_query u)) 0 of
        None \<Rightarrow> ([], ur_path u @ (if ur_query u = [] then [] else 63 # ur_query u))
      | Some p \<Rightarrow> (drop (p + 1) (ur_path u @ (if ur_query u = [] then [] else 63 # ur_query u)),
          take p (ur_path u @ (if ur_query u = [] then [] else 63 # ur_query u)))) = (ur_query u, ur_path u)"
proof -
  define q where "q = ur_path u @ (if ur_query u = [] then [] else 63 # ur_query u)"
  have q: "35 \<notin> set q" "63 \<notin> set (ur_path u)" using assms by (auto simp: q_def uri_ok_def)
  have r: "rest_text u = q @ (if ur_fragment u = [] then [] else 35 # ur_fragment u)" by (simp add: rest_text_def q_def)
  show "(case find_from 35 (rest_text u) 0 of None \<Rightarrow> ([], rest_text u) | Some p \<Rightarrow> (drop (p + 1) (rest_text u), take p (rest_text u)))
      = (ur_fragment u, ur_path u @ (if ur_query u = [] then [] else 63 # ur_query u))"
    unfolding q_def [symmetric] r using find_from_0(1) [OF q(1), of "ur_fragment u"] find_from_0(2) [OF q(1)]
    by (cases "ur_fragment u = []") simp_all
  show "(case find_from 63 (ur_path u @ (if ur_query u = [] then [] else 63 # ur_query u)) 0 of
        None \<Rightarrow> ([], ur_path u @ (if ur_query u = [] then [] else 63 # ur_query u))
      | Some p \<Rightarrow> (drop (p + 1) (ur_path u @ (if ur_query u = [] then [] else 63 # ur_query u)),
          take p (ur_path u @ (if ur_query u = [] then [] else 63 # ur_query u)))) = (ur_query u, ur_path u)"
    using find_from_0(1) [OF q(2), of "ur_query u"] find_from_0(2) [OF q(2)] by (cases "ur_query u = []") simp_all
qed

section \<open>Properties\<close>

text \<open>
  C39: A URI with a scheme whose parts lack the characters that end them is the same after printing and
  parsing: scheme, user information, host, port, path, query and fragment.
\<close>

theorem uri_round_trip:
  assumes "uri_ok u"
  shows "uri_create (uri_dump u) = u"
proof -
  let ?s = "uri_dump u" and ?pre = "ur_scheme u @ [58, 47, 47]"
  have t: "text_of ''://'' = [58, 47, 47]" by (simp add: text_of_def)
  have f: "find_str ?s [58, 47, 47] = Some (length (ur_scheme u))"
    unfolding uri_dump_parts [OF assms] using assms by (intro find_scheme) (simp add: uri_ok_def)
  obtain p where p: "ur_path u = 47 # p" using assms by (cases "ur_path u") (auto simp: uri_ok_def)
  obtain r where r: "rest_text u = 47 # r" by (simp add: rest_text_def p)
  have e: "find_first_of ?s [47, 63, 35] (length (ur_scheme u) + 3) = Some (length (ur_scheme u) + 3 + length (auth_text u))"
    using find_first_of_hit [OF auth_no_end [OF assms], of 47 ?pre r] by (simp add: uri_dump_parts [OF assms] r numeral_3_eq_3)
  have parts: "take (length (ur_scheme u)) ?s = ur_scheme u"
    "substr ?s (length (ur_scheme u) + 3) (length (ur_scheme u) + 3 + length (auth_text u) - (length (ur_scheme u) + 3)) = auth_text u"
    "drop (length (ur_scheme u) + 3 + length (auth_text u)) ?s = rest_text u"
    by (simp_all add: uri_dump_parts [OF assms] substr_def numeral_3_eq_3)
  have ne: "ur_path u \<noteq> []" by (simp add: p)
  show ?thesis
    unfolding uri_create_def Let_def t f e option.case prod.case parts auth_split [OF assms] host_split [OF assms refl, unfolded Let_def]
      rest_split [OF assms] using ne by simp
qed

definition uri_demo :: uri where
  "uri_demo = \<lparr> ur_scheme = [104], ur_userinfo = [117, 58], ur_host = [97], ur_path = [47, 98], ur_query = [99], ur_fragment = [], ur_port = 8080 \<rparr>"

theorem uri_round_trip_witness: "uri_ok uri_demo \<and> uri_create (uri_dump uri_demo) = uri_demo"
proof -
  have "uri_ok uri_demo" by (simp add: uri_ok_def uri_demo_def)
  then show ?thesis using uri_round_trip [of uri_demo] by simp
qed

end
