(* ===== verification/HttpClient.thy ===== *)
theory HttpClient
  imports HttpSession Uri
begin

text \<open>
  The HTTP client: single requests and the connection pool (\<open>src/http/http_connection.cpp\<close>,
  \<open>include/http/http_connection.h\<close>). Resolving a host, creating a socket and connecting it are one
  argument, the outcome of these calls; the clock is an argument too. A result keeps its code and
  its response; the text of an error is left out.
\<close>

datatype HttpError = Ok | InvalidUrl | InvalidHost | ConnectFail | SendCloseByPeer | SendSocketError | Timeout
  | CreateSocketError | PoolGetConnection | PoolInvalidConn

record http_result =
  hr_result :: HttpError
  hr_response :: "http_response option"

datatype dial = NoAddress | NoSocket | NotConnected | Dialled sockstream

section \<open>Single requests\<close>

definition failed :: "HttpError \<Rightarrow> http_result" where
  "failed e = \<lparr> hr_result = e, hr_response = None \<rparr>"

text \<open>The headers come from an ordered map of the caller.\<close>

definition client_request :: "HttpMethod \<Rightarrow> uri \<Rightarrow> (byte list \<times> byte list) list \<Rightarrow> byte list \<Rightarrow> http_request" where
  "client_request method uri headers body =
    (let r0 = (new_HttpRequest 0x11 True)\<lparr> rq_method := method, rq_path := ur_path uri, rq_query := ur_query uri,
           rq_fragment := ur_fragment uri \<rparr>;
         r1 = fold (\<lambda>(k, v). rq_setHeader k v) headers r0;
         r2 = (if body \<noteq> [] then r1\<lparr> rq_body := body \<rparr> else r1)
     in if rq_getHeader (text_of ''Host'') [] r2 = [] then rq_setHeader (text_of ''Host'') (ur_host uri) r2 else r2)"

definition doRequest_uri :: "(byte list \<Rightarrow> byte list) \<Rightarrow> (byte list \<Rightarrow> byte list) \<Rightarrow> dial \<Rightarrow> HttpMethod \<Rightarrow> uri option
    \<Rightarrow> (byte list \<times> byte list) list \<Rightarrow> byte list \<Rightarrow> http_result" where
  "doRequest_uri gunzip inflate dial method uri headers body =
    (case uri of
       None \<Rightarrow> failed InvalidUrl
     | Some u \<Rightarrow>
         if ur_host u = [] then failed InvalidHost
         else case dial of
           NoAddress \<Rightarrow> failed InvalidHost
         | NoSocket \<Rightarrow> failed CreateSocketError
         | NotConnected \<Rightarrow> failed ConnectFail
         | Dialled ss \<Rightarrow>
             (case sendRequest (client_request method u headers body) ss of (rt, ss1) \<Rightarrow>
               if rt < 0 then failed SendSocketError
               else case fst (recvResponse gunzip inflate ss1) of
                 None \<Rightarrow> failed SendCloseByPeer
               | Some rsp \<Rightarrow> \<lparr> hr_result = Ok, hr_response = Some rsp \<rparr>))"

definition doRequest_url :: "(byte list \<Rightarrow> byte list) \<Rightarrow> (byte list \<Rightarrow> byte list) \<Rightarrow> dial \<Rightarrow> HttpMethod \<Rightarrow> byte list
    \<Rightarrow> (byte list \<times> byte list) list \<Rightarrow> byte list \<Rightarrow> http_result" where
  "doRequest_url gunzip inflate dial method url headers body =
    doRequest_uri gunzip inflate dial method (Some (uri_create url)) headers body"

definition doGet :: "(byte list \<Rightarrow> byte list) \<Rightarrow> (byte list \<Rightarrow> byte list) \<Rightarrow> dial \<Rightarrow> byte list
    \<Rightarrow> (byte list \<times> byte list) list \<Rightarrow> byte list \<Rightarrow> http_result" where
  "doGet gunzip inflate dial url headers body = doRequest_url gunzip inflate dial M_Get url headers body"

definition doPost :: "(byte list \<Rightarrow> byte list) \<Rightarrow> (byte list \<Rightarrow> byte list) \<Rightarrow> dial \<Rightarrow> byte list
    \<Rightarrow> (byte list \<times> byte list) list \<Rightarrow> byte list \<Rightarrow> http_result" where
  "doPost gunzip inflate dial url headers body = doRequest_url gunzip inflate dial M_Post url headers body"

definition doGet_uri :: "(byte list \<Rightarrow> byte list) \<Rightarrow> (byte list \<Rightarrow> byte list) \<Rightarrow> dial \<Rightarrow> uri option
    \<Rightarrow> (byte list \<times> byte list) list \<Rightarrow> byte list \<Rightarrow> http_result" where
  "doGet_uri gunzip inflate dial uri headers body = doRequest_uri gunzip inflate dial M_Get uri headers body"

definition doPost_uri :: "(byte list \<Rightarrow> byte list) \<Rightarrow> (byte list \<Rightarrow> byte list) \<Rightarrow> dial \<Rightarrow> uri option
    \<Rightarrow> (byte list \<times> byte list) list \<Rightarrow> byte list \<Rightarrow> http_result" where
  "doPost_uri gunzip inflate dial uri headers body = doRequest_uri gunzip inflate dial M_Post uri headers body"

text \<open>The overload for a complete request; the URI gives the address only.\<close>

definition exchange_on :: "(byte list \<Rightarrow> byte list) \<Rightarrow> (byte list \<Rightarrow> byte list) \<Rightarrow> http_request \<Rightarrow> sockstream
    \<Rightarrow> http_result \<times> sockstream" where
  "exchange_on gunzip inflate req ss =
    (case sendRequest req ss of (rt, ss1) \<Rightarrow>
      if rt = 0 then (failed SendCloseByPeer, ss1)
      else if rt < 0 then (failed SendSocketError, ss1)
      else case recvResponse gunzip inflate ss1 of
        (None, ss2) \<Rightarrow> (failed Timeout, ss2)
      | (Some rsp, ss2) \<Rightarrow> (\<lparr> hr_result = Ok, hr_response = Some rsp \<rparr>, ss2))"

definition doRequest_req :: "(byte list \<Rightarrow> byte list) \<Rightarrow> (byte list \<Rightarrow> byte list) \<Rightarrow> dial \<Rightarrow> http_request \<Rightarrow> http_result" where
  "doRequest_req gunzip inflate dial req =
    (case dial of
       NoAddress \<Rightarrow> failed InvalidHost
     | NoSocket \<Rightarrow> failed CreateSocketError
     | NotConnected \<Rightarrow> failed ConnectFail
     | Dialled ss \<Rightarrow> fst (exchange_on gunzip inflate req ss))"

section \<open>The pool\<close>

record conn =
  cn_stream :: sockstream
  cn_createTime :: nat
  cn_request :: nat

record pool =
  pl_host :: "byte list"
  pl_vhost :: "byte list"
  pl_port :: nat
  pl_maxSize :: nat
  pl_maxAliveTime :: nat
  pl_maxRequest :: nat
  pl_isHttps :: bool
  pl_conns :: "conn list"
  pl_total :: int

definition new_HttpConnectionPool :: "byte list \<Rightarrow> byte list \<Rightarrow> nat \<Rightarrow> bool \<Rightarrow> nat \<Rightarrow> nat \<Rightarrow> nat \<Rightarrow> pool" where
  "new_HttpConnectionPool host vhost port isHttps maxSize maxAliveTime maxRequest =
    \<lparr> pl_host = host, pl_vhost = vhost, pl_port = (if port \<noteq> 0 then port else if isHttps then 443 else 80),
      pl_maxSize = maxSize, pl_maxAliveTime = maxAliveTime, pl_maxRequest = maxRequest, pl_isHttps = isHttps,
      pl_conns = [], pl_total = 0 \<rparr>"

definition pool_create :: "byte list \<Rightarrow> byte list \<Rightarrow> nat \<Rightarrow> nat \<Rightarrow> nat \<Rightarrow> pool" where
  "pool_create uri vhost maxSize maxAliveTime maxRequest =
    (let u = uri_create uri in
     new_HttpConnectionPool (ur_host u) vhost (nat (ur_getPort u mod 2 ^ 32)) (ur_scheme u = text_of ''https'')
       maxSize maxAliveTime maxRequest)"

definition alive_until :: "pool \<Rightarrow> conn \<Rightarrow> nat" where
  "alive_until p c = (cn_createTime c + pl_maxAliveTime p) mod 2 ^ 64"

text \<open>The loop over the idle connections: the dropped ones, the one found and the rest.\<close>

fun pool_scan :: "(conn \<Rightarrow> bool) \<Rightarrow> conn list \<Rightarrow> conn list \<times> conn option \<times> conn list" where
  "pool_scan bad [] = ([], None, [])"
| "pool_scan bad (c # cs) =
    (if bad c then (let (invalid, found, rest) = pool_scan bad cs in (c # invalid, found, rest)) else ([], Some c, cs))"

definition getConnection :: "nat \<Rightarrow> dial \<Rightarrow> pool \<Rightarrow> conn option \<times> pool" where
  "getConnection nowMs dial p =
    (let (invalid, found, rest) =
           pool_scan (\<lambda>c. \<not> ss_isConnected (cn_stream c) \<or> nowMs < alive_until p c) (pl_conns p);
         p1 = p\<lparr> pl_conns := rest, pl_total := pl_total p - int (length invalid) \<rparr>
     in case found of
          Some c \<Rightarrow> (Some c, p1)
        | None \<Rightarrow>
            (case dial of
               Dialled ss \<Rightarrow> (Some \<lparr> cn_stream = ss, cn_createTime = nowMs, cn_request = 0 \<rparr>, p1\<lparr> pl_total := pl_total p1 + 1 \<rparr>)
             | _ \<Rightarrow> (None, p1)))"

definition releasePtr :: "nat \<Rightarrow> conn \<Rightarrow> pool \<Rightarrow> pool" where
  "releasePtr nowMs c p =
    (let c1 = c\<lparr> cn_request := cn_request c + 1 \<rparr> in
     if \<not> ss_isConnected (cn_stream c1) \<or> nowMs \<le> alive_until p c1 \<or> pl_maxRequest p \<le> cn_request c1
     then p\<lparr> pl_total := pl_total p - 1 \<rparr>
     else p\<lparr> pl_conns := pl_conns p @ [c1] \<rparr>)"

fun pool_headers :: "(byte list \<times> byte list) list \<Rightarrow> bool \<Rightarrow> http_request \<Rightarrow> bool \<times> http_request" where
  "pool_headers [] hasHost r = (hasHost, r)"
| "pool_headers ((k, v) # hs) hasHost r =
    (if ci_key k = text_of ''connection'' then
       pool_headers hs hasHost (if ci_key v = text_of ''keep-alive'' then r\<lparr> rq_close := False \<rparr> else r)
     else pool_headers hs (if \<not> hasHost \<and> ci_key k = text_of ''host'' then v \<noteq> [] else hasHost) (rq_setHeader k v r))"

definition pool_request :: "HttpMethod \<Rightarrow> byte list \<Rightarrow> (byte list \<times> byte list) list \<Rightarrow> byte list \<Rightarrow> pool \<Rightarrow> http_request" where
  "pool_request method url headers body p =
    (let (hasHost, r) = pool_headers headers False
           ((new_HttpRequest 0x11 True)\<lparr> rq_path := url, rq_method := method, rq_close := False \<rparr>);
         r1 = (if hasHost then r else rq_setHeader (text_of ''Host'') (if pl_vhost p = [] then pl_host p else pl_vhost p) r)
     in r1\<lparr> rq_body := body \<rparr>)"

definition uri_target :: "uri \<Rightarrow> byte list" where
  "uri_target u = ur_path u @ (if ur_query u = [] then [] else text_of ''?'') @ ur_query u
    @ (if ur_fragment u = [] then [] else text_of ''#'') @ ur_fragment u"

text \<open>
  The connection goes back to the pool when the request is done, at the time \<open>t1\<close>.
\<close>

definition pool_doRequest :: "(byte list \<Rightarrow> byte list) \<Rightarrow> (byte list \<Rightarrow> byte list) \<Rightarrow> nat \<Rightarrow> nat \<Rightarrow> dial \<Rightarrow> http_request \<Rightarrow> pool
    \<Rightarrow> http_result \<times> pool" where
  "pool_doRequest gunzip inflate t0 t1 dial req p =
    (case getConnection t0 dial p of
       (None, p1) \<Rightarrow> (failed PoolGetConnection, p1)
     | (Some c, p1) \<Rightarrow>
         if ss_socket (cn_stream c) = None then (failed PoolInvalidConn, releasePtr t1 c p1)
         else case exchange_on gunzip inflate req (cn_stream c) of
           (res, ss) \<Rightarrow> (res, releasePtr t1 (c\<lparr> cn_stream := ss \<rparr>) p1))"

definition pool_doRequest_url :: "(byte list \<Rightarrow> byte list) \<Rightarrow> (byte list \<Rightarrow> byte list) \<Rightarrow> nat \<Rightarrow> nat \<Rightarrow> dial \<Rightarrow> HttpMethod
    \<Rightarrow> byte list \<Rightarrow> (byte list \<times> byte list) list \<Rightarrow> byte list \<Rightarrow> pool \<Rightarrow> http_result \<times> pool" where
  "pool_doRequest_url gunzip inflate t0 t1 dial method url headers body p =
    pool_doRequest gunzip inflate t0 t1 dial (pool_request method url headers body p) p"

definition pool_doRequest_uri :: "(byte list \<Rightarrow> byte list) \<Rightarrow> (byte list \<Rightarrow> byte list) \<Rightarrow> nat \<Rightarrow> nat \<Rightarrow> dial \<Rightarrow> HttpMethod
    \<Rightarrow> uri \<Rightarrow> (byte list \<times> byte list) list \<Rightarrow> byte list \<Rightarrow> pool \<Rightarrow> http_result \<times> pool" where
  "pool_doRequest_uri gunzip inflate t0 t1 dial method uri headers body p =
    pool_doRequest_url gunzip inflate t0 t1 dial method (uri_target uri) headers body p"

definition pool_doGet :: "(byte list \<Rightarrow> byte list) \<Rightarrow> (byte list \<Rightarrow> byte list) \<Rightarrow> nat \<Rightarrow> nat \<Rightarrow> dial
    \<Rightarrow> byte list \<Rightarrow> (byte list \<times> byte list) list \<Rightarrow> byte list \<Rightarrow> pool \<Rightarrow> http_result \<times> pool" where
  "pool_doGet gunzip inflate t0 t1 dial url headers body p =
    pool_doRequest_url gunzip inflate t0 t1 dial M_Get url headers body p"

definition pool_doPost :: "(byte list \<Rightarrow> byte list) \<Rightarrow> (byte list \<Rightarrow> byte list) \<Rightarrow> nat \<Rightarrow> nat \<Rightarrow> dial
    \<Rightarrow> byte list \<Rightarrow> (byte list \<times> byte list) list \<Rightarrow> byte list \<Rightarrow> pool \<Rightarrow> http_result \<times> pool" where
  "pool_doPost gunzip inflate t0 t1 dial url headers body p =
    pool_doRequest_url gunzip inflate t0 t1 dial M_Post url headers body p"

definition pool_doGet_uri :: "(byte list \<Rightarrow> byte list) \<Rightarrow> (byte list \<Rightarrow> byte list) \<Rightarrow> nat \<Rightarrow> nat \<Rightarrow> dial
    \<Rightarrow> uri \<Rightarrow> (byte list \<times> byte list) list \<Rightarrow> byte list \<Rightarrow> pool \<Rightarrow> http_result \<times> pool" where
  "pool_doGet_uri gunzip inflate t0 t1 dial uri headers body p =
    pool_doGet gunzip inflate t0 t1 dial (uri_target uri) headers body p"

definition pool_doPost_uri :: "(byte list \<Rightarrow> byte list) \<Rightarrow> (byte list \<Rightarrow> byte list) \<Rightarrow> nat \<Rightarrow> nat \<Rightarrow> dial
    \<Rightarrow> uri \<Rightarrow> (byte list \<times> byte list) list \<Rightarrow> byte list \<Rightarrow> pool \<Rightarrow> http_result \<times> pool" where
  "pool_doPost_uri gunzip inflate t0 t1 dial uri headers body p =
    pool_doPost gunzip inflate t0 t1 dial (uri_target uri) headers body p"

section \<open>Histories of the pool\<close>

text \<open>
  Users take connections and give back one they hold, in any order, with the stream in whatever
  state they left it. The second component is the list of connections in use.
\<close>

datatype pool_op = Get nat dial | Release nat nat sockstream

fun pool_step :: "pool_op \<Rightarrow> pool \<times> conn list \<Rightarrow> pool \<times> conn list" where
  "pool_step (Get t d) (p, used) =
    (case getConnection t d p of (None, p1) \<Rightarrow> (p1, used) | (Some c, p1) \<Rightarrow> (p1, c # used))"
| "pool_step (Release t i ss) (p, used) =
    (if i < length used then (releasePtr t ((used ! i)\<lparr> cn_stream := ss \<rparr>) p, take i used @ drop (Suc i) used) else (p, used))"

lemma pool_scan_split:
  "pool_scan bad cs = (invs, f, rest) \<Longrightarrow>
   cs = invs @ (case f of None \<Rightarrow> [] | Some c \<Rightarrow> [c]) @ rest \<and> list_all bad invs \<and> (\<forall>c. f = Some c \<longrightarrow> \<not> bad c)"
  by (induction cs arbitrary: invs f rest) (auto split: if_splits prod.splits)

definition pool_ok :: "pool \<times> conn list \<Rightarrow> bool" where
  "pool_ok s \<longleftrightarrow> pl_total (fst s) = int (length (pl_conns (fst s)) + length (snd s)) \<and>
     list_all (\<lambda>c. 0 < cn_request c \<and> cn_request c < pl_maxRequest (fst s)) (pl_conns (fst s))"

lemma pool_scan_none: "pool_scan bad cs = (invs, None, rest) \<Longrightarrow> rest = []"
  by (induction cs arbitrary: invs) (auto split: if_splits prod.splits)

lemma getConnection_cases:
  assumes "getConnection t d p = (c, p1)"
  obtains (reuse) invs x rest where "c = Some x" "pl_conns p = invs @ x # rest" "ss_isConnected (cn_stream x)" "alive_until p x \<le> t"
      "p1 = p\<lparr> pl_conns := rest, pl_total := pl_total p - int (length invs) \<rparr>"
  | (fresh) ss where "d = Dialled ss" "c = Some \<lparr> cn_stream = ss, cn_createTime = t, cn_request = 0 \<rparr>"
      "p1 = p\<lparr> pl_conns := [], pl_total := pl_total p - int (length (pl_conns p)) + 1 \<rparr>"
  | (none) "\<nexists>ss. d = Dialled ss" "c = None" "p1 = p\<lparr> pl_conns := [], pl_total := pl_total p - int (length (pl_conns p)) \<rparr>"
proof -
  let ?bad = "\<lambda>c. \<not> ss_isConnected (cn_stream c) \<or> t < alive_until p c"
  obtain invs f rest where sc: "pool_scan ?bad (pl_conns p) = (invs, f, rest)" by (cases "pool_scan ?bad (pl_conns p)")
  note sp = pool_scan_split [OF sc]
  show ?thesis
  proof (cases f)
    case (Some x)
    then show ?thesis using sp sc assms reuse by (auto simp: getConnection_def Let_def)
  next
    case None
    then have "rest = []" using pool_scan_none sc by simp
    then have "pl_conns p = invs" using sp None by simp
    then show ?thesis using \<open>rest = []\<close> None sc assms fresh none
      by (cases d) (auto simp: getConnection_def Let_def)
  qed
qed

lemma pool_step_ok: "pool_ok s \<Longrightarrow> pool_ok (pool_step op s)"
proof (cases s; cases op)
  fix p used t d assume s: "pool_ok s" "s = (p, used)" "op = Get t d"
  obtain c p1 where g: "getConnection t d p = (c, p1)" by (cases "getConnection t d p")
  then show "pool_ok (pool_step op s)"
    by (cases rule: getConnection_cases) (use s g in \<open>simp_all add: pool_ok_def\<close>)
next
  fix p used t i ss assume "pool_ok s" "s = (p, used)" "op = Release t i ss"
  then show "pool_ok (pool_step op s)" by (auto simp: pool_ok_def releasePtr_def Let_def)
qed

lemma pool_run_ok: "pool_ok s \<Longrightarrow> pool_ok (fold pool_step ops s)"
  by (induction ops arbitrary: s) (simp_all add: pool_step_ok del: split_paired_All)

section \<open>Properties\<close>

text \<open>
  C38: In every history of the pool its counter is the number of idle and used connections, and an idle
  connection that is handed out again is connected and has served at least one and fewer than the
  maximal number of requests. But it is handed out only when its maximal lifetime is over: a
  connection within its lifetime is dropped when it is given back.
\<close>

theorem pool_reuses_only_expired:
  fixes ops :: "pool_op list"
  assumes "(p, used) = fold pool_step ops (new_HttpConnectionPool host vhost port https maxSize maxAlive maxReq, [])"
  shows "pl_total p = int (length (pl_conns p) + length used) \<and>
    (getConnection t NotConnected p = (Some c, p') \<longrightarrow>
       ss_isConnected (cn_stream c) \<and> 0 < cn_request c \<and> cn_request c < pl_maxRequest p \<and> alive_until p c \<le> t) \<and>
    (t \<le> alive_until p x \<longrightarrow> pl_conns (releasePtr t x p) = pl_conns p)"
proof -
  have "pool_ok (new_HttpConnectionPool host vhost port https maxSize maxAlive maxReq, [])"
    by (simp add: pool_ok_def new_HttpConnectionPool_def)
  from pool_run_ok [OF this, of ops] have ok: "pool_ok (p, used)" using assms by simp
  have "ss_isConnected (cn_stream c) \<and> 0 < cn_request c \<and> cn_request c < pl_maxRequest p \<and> alive_until p c \<le> t"
    if g: "getConnection t NotConnected p = (Some c, p')"
    using g by (cases rule: getConnection_cases) (use ok in \<open>auto simp: pool_ok_def\<close>)
  then show ?thesis using ok by (auto simp: pool_ok_def releasePtr_def alive_until_def Let_def)
qed

definition pool_stream :: sockstream where
  "pool_stream = \<lparr> ss_socket = Some \<lparr> sk_sock = 3, sk_isConnected = True, sk_rx = [], sk_rxans = [], sk_tx = [],
     sk_txans = [] \<rparr>, ss_owner = True \<rparr>"

theorem pool_reuses_only_expired_witness:
  "let p = fst (fold pool_step [Get 10 (Dialled pool_stream), Release 2000 0 pool_stream]
      (new_HttpConnectionPool [] [] 0 False 5 1000 9, []))
   in pl_conns p = [\<lparr> cn_stream = pool_stream, cn_createTime = 10, cn_request = 1 \<rparr>] \<and>
      (\<exists>c p'. getConnection 3000 NotConnected p = (Some c, p') \<and> alive_until p c \<le> 3000)"
proof -
  define s where "s = fold pool_step [Get 10 (Dialled pool_stream), Release 2000 0 pool_stream] (new_HttpConnectionPool [] [] 0 False 5 1000 9, [])"
  let ?c = "\<lparr> cn_stream = pool_stream, cn_createTime = 10, cn_request = 1 \<rparr>"
  have s: "pl_conns (fst s) = [?c]" "pl_maxAliveTime (fst s) = 1000"
    by (simp_all add: s_def getConnection_def new_HttpConnectionPool_def releasePtr_def alive_until_def ss_isConnected_def pool_stream_def)
  have con: "ss_isConnected pool_stream" by (simp add: ss_isConnected_def pool_stream_def)
  have g: "\<exists>p'. getConnection 3000 NotConnected (fst s) = (Some ?c, p')"
    by (simp add: getConnection_def s alive_until_def con)
  then obtain p' where g': "getConnection 3000 NotConnected (fst s) = (Some ?c, p')" ..
  have "(fst s, snd s) = fold pool_step [Get 10 (Dialled pool_stream), Release 2000 0 pool_stream] (new_HttpConnectionPool [] [] 0 False 5 1000 9, [])"
    by (simp add: s_def)
  then have "alive_until (fst s) ?c \<le> 3000" using pool_reuses_only_expired [of "fst s" "snd s"] g' by blast
  then show ?thesis unfolding Let_def s_def [symmetric] using s(1) g by blast
qed

end
