(* ===== verification/Servlet.thy ===== *)
theory Servlet
  imports Http
begin

text \<open>
  Servlets and their dispatcher (\<open>src/http/servlet.cpp\<close>, \<open>include/http/servlet.h\<close>) and the session data
  of the HTTP server (\<open>src/http/session_data.cpp\<close>, \<open>include/http/session_data.h\<close>). A servlet is its name
  and its handler, which may change the request, the response and the session. The pattern match
  \<open>fnmatch\<close> of the C library, the clock and the generation of session ids are arguments; a hash
  table is an association list.
\<close>

section \<open>Servlets\<close>

type_synonym 's exchange = "http_request \<times> http_response \<times> 's"

record 's servlet =
  sv_name :: "byte list"
  sv_handle :: "'s exchange \<Rightarrow> int \<times> 's exchange"

definition FunctionServlet :: "('s exchange \<Rightarrow> int \<times> 's exchange) \<Rightarrow> 's servlet" where
  "FunctionServlet cb = \<lparr> sv_name = text_of ''FunctionServlet'', sv_handle = cb \<rparr>"

definition notfound_content :: "byte list \<Rightarrow> byte list" where
  "notfound_content name =
    text_of ''<html><head><title>404 Not Found</title></head><body><center><h1>404 Not Found</h1></center>''
    @ text_of ''<hr><center>'' @ name @ text_of ''</center></body></html>''"

definition NotFoundServlet :: "byte list \<Rightarrow> 's servlet" where
  "NotFoundServlet name =
    \<lparr> sv_name = text_of ''NotFoundServlet'',
      sv_handle = (\<lambda>(rq, rs, s).
        (0, (rq, (rs_setHeader (text_of ''Content-Type'') (text_of ''text/html'')
                   (rs_setHeader (text_of ''Server'') (text_of ''azzato/1.0.0'') (rs\<lparr> rs_status := 404 \<rparr>)))
                 \<lparr> rs_body := notfound_content name \<rparr>, s))) \<rparr>"

text \<open>A creator holds one servlet or makes a new one of a type each time.\<close>

datatype 's creator = HoldServletCreator "'s servlet" | ServletCreator "byte list" "'s servlet"

fun creator_get :: "'s creator \<Rightarrow> 's servlet" where
  "creator_get (HoldServletCreator sv) = sv"
| "creator_get (ServletCreator name sv) = sv"

fun creator_getName :: "'s creator \<Rightarrow> byte list" where
  "creator_getName (HoldServletCreator sv) = sv_name sv"
| "creator_getName (ServletCreator name sv) = name"

section \<open>The dispatcher\<close>

record 's dispatch =
  sd_datas :: "(byte list \<times> 's creator) list"
  sd_globs :: "(byte list \<times> 's creator) list"
  sd_default :: "'s servlet option"

definition new_ServletDispatch :: "'s dispatch" where
  "new_ServletDispatch = \<lparr> sd_datas = [], sd_globs = [], sd_default = Some (NotFoundServlet (text_of ''azzato/1.0.0'')) \<rparr>"

definition addServletCreator :: "byte list \<Rightarrow> 's creator \<Rightarrow> 's dispatch \<Rightarrow> 's dispatch" where
  "addServletCreator uri c d = d\<lparr> sd_datas := (uri, c) # drop_key uri (sd_datas d) \<rparr>"

definition addServlet :: "byte list \<Rightarrow> 's servlet \<Rightarrow> 's dispatch \<Rightarrow> 's dispatch" where
  "addServlet uri sv d = d\<lparr> sd_datas := (uri, HoldServletCreator sv) # drop_key uri (sd_datas d) \<rparr>"

definition addServlet_cb :: "byte list \<Rightarrow> ('s exchange \<Rightarrow> int \<times> 's exchange) \<Rightarrow> 's dispatch \<Rightarrow> 's dispatch" where
  "addServlet_cb uri cb d = d\<lparr> sd_datas := (uri, HoldServletCreator (FunctionServlet cb)) # drop_key uri (sd_datas d) \<rparr>"

text \<open>The loop that erases the first entry of a pattern.\<close>

fun erase_first :: "'k \<Rightarrow> ('k \<times> 'v) list \<Rightarrow> ('k \<times> 'v) list" where
  "erase_first k [] = []"
| "erase_first k ((a, b) # xs) = (if a = k then xs else (a, b) # erase_first k xs)"

definition addGlobServletCreator :: "byte list \<Rightarrow> 's creator \<Rightarrow> 's dispatch \<Rightarrow> 's dispatch" where
  "addGlobServletCreator uri c d = d\<lparr> sd_globs := erase_first uri (sd_globs d) @ [(uri, c)] \<rparr>"

definition addGlobServlet :: "byte list \<Rightarrow> 's servlet \<Rightarrow> 's dispatch \<Rightarrow> 's dispatch" where
  "addGlobServlet uri sv d = d\<lparr> sd_globs := erase_first uri (sd_globs d) @ [(uri, HoldServletCreator sv)] \<rparr>"

definition addGlobServlet_cb :: "byte list \<Rightarrow> ('s exchange \<Rightarrow> int \<times> 's exchange) \<Rightarrow> 's dispatch \<Rightarrow> 's dispatch" where
  "addGlobServlet_cb uri cb d = addGlobServlet uri (FunctionServlet cb) d"

definition delServlet :: "byte list \<Rightarrow> 's dispatch \<Rightarrow> 's dispatch" where
  "delServlet uri d = d\<lparr> sd_datas := drop_key uri (sd_datas d) \<rparr>"

definition delGlobServlet :: "byte list \<Rightarrow> 's dispatch \<Rightarrow> 's dispatch" where
  "delGlobServlet uri d = d\<lparr> sd_globs := erase_first uri (sd_globs d) \<rparr>"

definition setDefault :: "'s servlet option \<Rightarrow> 's dispatch \<Rightarrow> 's dispatch" where
  "setDefault v d = d\<lparr> sd_default := v \<rparr>"

definition getServlet :: "byte list \<Rightarrow> 's dispatch \<Rightarrow> 's servlet option" where
  "getServlet uri d = map_option creator_get (map_of (sd_datas d) uri)"

definition getGlobServlet :: "byte list \<Rightarrow> 's dispatch \<Rightarrow> 's servlet option" where
  "getGlobServlet uri d = map_option creator_get (map_of (sd_globs d) uri)"

definition getMatchedServlet :: "(byte list \<Rightarrow> byte list \<Rightarrow> bool) \<Rightarrow> byte list \<Rightarrow> 's dispatch \<Rightarrow> 's servlet option" where
  "getMatchedServlet fnmatch uri d =
    (case map_of (sd_datas d) uri of
       Some c \<Rightarrow> Some (creator_get c)
     | None \<Rightarrow>
         (case find (\<lambda>(pat, c). fnmatch (c_str pat) (c_str uri)) (sd_globs d) of
            Some (pat, c) \<Rightarrow> Some (creator_get c)
          | None \<Rightarrow> sd_default d))"

text \<open>The results go into an ordered map of the caller.\<close>

definition listAllServletCreator :: "(byte list \<rightharpoonup> 's creator) \<Rightarrow> 's dispatch \<Rightarrow> (byte list \<rightharpoonup> 's creator)" where
  "listAllServletCreator infos d = fold (\<lambda>(k, c) m. m(k \<mapsto> c)) (sd_datas d) infos"

definition listAllGlobServletCreator :: "(byte list \<rightharpoonup> 's creator) \<Rightarrow> 's dispatch \<Rightarrow> (byte list \<rightharpoonup> 's creator)" where
  "listAllGlobServletCreator infos d = fold (\<lambda>(k, c) m. m(k \<mapsto> c)) (sd_globs d) infos"

definition dispatch_handle :: "(byte list \<Rightarrow> byte list \<Rightarrow> bool) \<Rightarrow> 's dispatch \<Rightarrow> 's exchange \<Rightarrow> int \<times> 's exchange" where
  "dispatch_handle fnmatch d ex =
    (case getMatchedServlet fnmatch (rq_path (fst ex)) d of
       None \<Rightarrow> (0, ex)
     | Some sv \<Rightarrow> (0, snd (sv_handle sv ex)))"

section \<open>Session data\<close>

text \<open>
  Sessions are held by value in the manager; the cast of \<open>boost::any\<close> is an argument, None for a value
  of another type. The check of the manager is one step.
\<close>

record 'v session_data =
  sn_id :: "byte list"
  sn_lastAccessTime :: nat
  sn_datas :: "(byte list \<times> 'v) list"

definition new_SessionData :: "nat \<Rightarrow> byte list option \<Rightarrow> 'v session_data" where
  "new_SessionData now gen = \<lparr> sn_id = (case gen of None \<Rightarrow> [] | Some i \<Rightarrow> i), sn_lastAccessTime = now, sn_datas = [] \<rparr>"

definition sn_setData :: "byte list \<Rightarrow> 'v \<Rightarrow> 'v session_data \<Rightarrow> 'v session_data" where
  "sn_setData key v s = s\<lparr> sn_datas := (key, v) # drop_key key (sn_datas s) \<rparr>"

definition sn_getData :: "('v \<Rightarrow> 'a option) \<Rightarrow> byte list \<Rightarrow> 'a \<Rightarrow> 'v session_data \<Rightarrow> 'a" where
  "sn_getData any_cast key dflt s =
    (case map_of (sn_datas s) key of
       None \<Rightarrow> dflt
     | Some v \<Rightarrow> (case any_cast v of None \<Rightarrow> dflt | Some x \<Rightarrow> x))"

definition sn_del :: "byte list \<Rightarrow> 'v session_data \<Rightarrow> 'v session_data" where
  "sn_del key s = s\<lparr> sn_datas := drop_key key (sn_datas s) \<rparr>"

definition sn_has :: "byte list \<Rightarrow> 'v session_data \<Rightarrow> bool" where
  "sn_has key s \<longleftrightarrow> map_of (sn_datas s) key \<noteq> None"

type_synonym 'v sessions = "(byte list \<times> 'v session_data) list"

definition sm_add :: "'v session_data \<Rightarrow> 'v sessions \<Rightarrow> 'v sessions" where
  "sm_add info m = (sn_id info, info) # drop_key (sn_id info) m"

definition sm_get :: "nat \<Rightarrow> byte list \<Rightarrow> 'v sessions \<Rightarrow> 'v session_data option \<times> 'v sessions" where
  "sm_get now i m =
    (case map_of m i of
       None \<Rightarrow> (None, m)
     | Some s \<Rightarrow> (let s' = s\<lparr> sn_lastAccessTime := now \<rparr> in
         (Some s', map (\<lambda>(k, x). if k = i then (k, s') else (k, x)) m)))"

definition sm_del :: "byte list \<Rightarrow> 'v sessions \<Rightarrow> 'v sessions" where
  "sm_del i m = drop_key i m"

text \<open>The clock minus \<open>ts\<close> is an unsigned difference.\<close>

definition sm_check :: "nat \<Rightarrow> nat \<Rightarrow> 'v sessions \<Rightarrow> 'v sessions" where
  "sm_check now ts m =
    fold sm_del (map fst (filter (\<lambda>(k, s). sn_lastAccessTime s < usub64 now ts) m)) m"

section \<open>Histories of the dispatcher\<close>

datatype 's sd_op = Add "byte list" "'s creator" | Del "byte list" | AddGlob "byte list" "'s creator" | DelGlob "byte list"

fun sd_step :: "'s sd_op \<Rightarrow> 's dispatch \<Rightarrow> 's dispatch" where
  "sd_step (Add u c) d = addServletCreator u c d"
| "sd_step (Del u) d = delServlet u d"
| "sd_step (AddGlob u c) d = addGlobServletCreator u c d"
| "sd_step (DelGlob u) d = delGlobServlet u d"

text \<open>The exact registrations a history leaves, and the pattern registrations with the time of each.\<close>

fun exact_reg :: "'s sd_op \<Rightarrow> (byte list \<rightharpoonup> 's creator) \<Rightarrow> (byte list \<rightharpoonup> 's creator)" where
  "exact_reg (Add u c) m = m(u \<mapsto> c)"
| "exact_reg (Del u) m = m(u := None)"
| "exact_reg _ m = m"

fun glob_reg :: "nat \<times> 's sd_op \<Rightarrow> (byte list \<rightharpoonup> nat \<times> 's creator) \<Rightarrow> (byte list \<rightharpoonup> nat \<times> 's creator)" where
  "glob_reg (i, AddGlob u c) m = m(u \<mapsto> (i, c))"
| "glob_reg (i, DelGlob u) m = m(u := None)"
| "glob_reg _ m = m"

definition globs_ok :: "nat \<Rightarrow> (byte list \<times> 's creator) list \<Rightarrow> (byte list \<rightharpoonup> nat \<times> 's creator) \<Rightarrow> bool" where
  "globs_ok n gs m \<longleftrightarrow>
    distinct (map fst gs) \<and> (\<forall>u. map_of gs u = map_option snd (m u)) \<and> (\<forall>u i c. m u = Some (i, c) \<longrightarrow> i < n) \<and>
    sorted_wrt (\<lambda>(u, c) (v, d). fst (the (m u)) < fst (the (m v))) gs"

lemma erase_first_drop: "distinct (map fst xs) \<Longrightarrow> erase_first k xs = drop_key k xs"
  by (induction k xs rule: erase_first.induct) (auto simp: drop_key_absent)

lemma globs_ok_del:
  assumes "globs_ok n gs m"
  shows "globs_ok n (erase_first u gs) (m(u := None))"
proof -
  have d: "distinct (map fst gs)" using assms by (simp add: globs_ok_def)
  have "sorted_wrt (\<lambda>(u, c) (v, d). fst (the (m u)) < fst (the (m v))) (drop_key u gs)"
    using assms by (simp add: globs_ok_def drop_key_def sorted_wrt_filter)
  then have "sorted_wrt (\<lambda>(a, c) (b, d). fst (the ((m(u := None)) a)) < fst (the ((m(u := None)) b))) (drop_key u gs)"
    by (rule sorted_wrt_mono_rel [rotated]) (auto simp: drop_key_def)
  then show ?thesis
    using assms d by (auto simp: globs_ok_def erase_first_drop distinct_drop_key map_of_drop_key)
qed

lemma globs_ok_add:
  assumes "globs_ok n gs m"
  shows "globs_ok (Suc n) (erase_first u gs @ [(u, c)]) (m(u \<mapsto> (n, c)))"
proof -
  let ?gs = "erase_first u gs" and ?m = "m(u := None)"
  have g: "globs_ok n ?gs ?m" using assms by (rule globs_ok_del)
  have out: "u \<notin> fst ` set ?gs"
  proof -
    have "map_of ?gs u = None" using g by (simp add: globs_ok_def)
    then show ?thesis by (simp add: map_of_eq_None_iff)
  qed
  have lt: "\<exists>i d. m a = Some (i, d) \<and> i < n \<and> a \<noteq> u" if "(a, b) \<in> set ?gs" for a b
  proof -
    have "map_of ?gs a \<noteq> None" using that by (auto simp: map_of_eq_None_iff rev_image_eqI)
    then obtain i d where "?m a = Some (i, d)" using g by (fastforce simp: globs_ok_def split: if_splits)
    then show ?thesis using g by (auto simp: globs_ok_def split: if_splits)
  qed
  have "sorted_wrt (\<lambda>(a, c) (b, d). fst (the (?m a)) < fst (the (?m b))) ?gs" using g by (simp add: globs_ok_def)
  then have "sorted_wrt (\<lambda>(a, d) (b, e). fst (the ((m(u \<mapsto> (n, c))) a)) < fst (the ((m(u \<mapsto> (n, c))) b))) ?gs"
    by (rule sorted_wrt_mono_rel [rotated]) (use out in \<open>auto simp: rev_image_eqI\<close>)
  moreover have "\<forall>(a, d) \<in> set ?gs. fst (the ((m(u \<mapsto> (n, c))) a)) < n" using lt by fastforce
  ultimately have s: "sorted_wrt (\<lambda>(a, d) (b, e). fst (the ((m(u \<mapsto> (n, c))) a)) < fst (the ((m(u \<mapsto> (n, c))) b))) (?gs @ [(u, c)])"
    by (auto simp: sorted_wrt_append)
  have mp: "map_of (?gs @ [(u, c)]) v = map_option snd ((m(u \<mapsto> (n, c))) v)" for v
    using g out by (auto simp: globs_ok_def map_add_def map_of_eq_None_iff split: option.split)
  show ?thesis
    using g out s mp assms by (auto simp: globs_ok_def less_Suc_eq)
qed

lemma sd_run_ok:
  assumes "globs_ok n (sd_globs d) m" "\<forall>u. map_of (sd_datas d) u = e u"
  shows "globs_ok (n + length ops) (sd_globs (fold sd_step ops d)) (fold glob_reg (List.enumerate n ops) m) \<and>
    (\<forall>u. map_of (sd_datas (fold sd_step ops d)) u = fold exact_reg ops e u) \<and> sd_default (fold sd_step ops d) = sd_default d"
  using assms
proof (induction ops arbitrary: n d m e)
  case (Cons op ops)
  have mono: "globs_ok (Suc n) gs m'" if "globs_ok n gs m'" for gs and m' :: "byte list \<rightharpoonup> nat \<times> 'a creator"
    using that by (auto simp: globs_ok_def less_Suc_eq)
  have "globs_ok (Suc n) (sd_globs (sd_step op d)) (glob_reg (n, op) m) \<and>
      (\<forall>u. map_of (sd_datas (sd_step op d)) u = exact_reg op e u) \<and> sd_default (sd_step op d) = sd_default d"
    using Cons.prems globs_ok_add mono mono [OF globs_ok_del]
    by (cases op) (auto simp: addServletCreator_def delServlet_def addGlobServletCreator_def delGlobServlet_def map_of_drop_key)
  then show ?case using Cons.IH [of "Suc n" "sd_step op d" "glob_reg (n, op) m" "exact_reg op e"] by simp
qed simp

lemma find_sorted:
  assumes "sorted_wrt (\<lambda>x y. f x < (f y :: nat)) xs" "x \<in> set xs" "P x" "\<forall>y \<in> set xs. P y \<longrightarrow> f x \<le> f y"
  shows "find P xs = Some x"
  using assms by (induction xs) (auto simp: not_less [symmetric])

section \<open>Properties\<close>

text \<open>
  C37: After any history of registrations and removals, a path is served by the servlet registered for
  exactly this path if there is one; else by the matching pattern whose last registration is the
  oldest, removed patterns not counting and a repeated registration counting as new; else by
  the default servlet.
\<close>

theorem servlet_routing:
  fixes ops :: "'s sd_op list"
  defines "d \<equiv> fold sd_step ops new_ServletDispatch"
    and "exact \<equiv> fold exact_reg ops Map.empty" and "globs \<equiv> fold glob_reg (List.enumerate 0 ops) Map.empty"
  shows "(\<forall>c. exact uri = Some c \<longrightarrow> getMatchedServlet fnmatch uri d = Some (creator_get c)) \<and>
    (\<forall>p i c. exact uri = None \<longrightarrow> globs p = Some (i, c) \<longrightarrow> fnmatch (c_str p) (c_str uri) \<longrightarrow>
       (\<forall>p' i' c'. globs p' = Some (i', c') \<longrightarrow> fnmatch (c_str p') (c_str uri) \<longrightarrow> i \<le> i') \<longrightarrow>
       getMatchedServlet fnmatch uri d = Some (creator_get c)) \<and>
    (exact uri = None \<longrightarrow> (\<forall>p i c. globs p = Some (i, c) \<longrightarrow> \<not> fnmatch (c_str p) (c_str uri)) \<longrightarrow>
       getMatchedServlet fnmatch uri d = Some (NotFoundServlet (text_of ''azzato/1.0.0'')))"
proof -
  have "globs_ok 0 (sd_globs (new_ServletDispatch :: 's dispatch)) Map.empty"
    "\<forall>u. map_of (sd_datas (new_ServletDispatch :: 's dispatch)) u = Map.empty u"
    by (simp_all add: globs_ok_def new_ServletDispatch_def)
  from sd_run_ok [OF this, of ops]
  have ok: "globs_ok (length ops) (sd_globs d) globs" and ex: "map_of (sd_datas d) uri = exact uri"
    and df: "sd_default d = Some (NotFoundServlet (text_of ''azzato/1.0.0''))"
    by (simp_all add: d_def exact_def globs_def new_ServletDispatch_def)
  let ?P = "\<lambda>(pat, c). fnmatch (c_str pat) (c_str uri)" and ?f = "\<lambda>(p, c). fst (the (globs p))"
  have mem: "(p, c) \<in> set (sd_globs d) \<longleftrightarrow> (\<exists>i. globs p = Some (i, c))" for p c
    using ok by (auto simp: globs_ok_def map_of_eq_Some_iff [symmetric] simp del: map_of_eq_Some_iff)
  have srt: "sorted_wrt (\<lambda>x y. ?f x < ?f y) (sd_globs d)" using ok by (simp add: globs_ok_def case_prod_unfold)
  have hit: "find ?P (sd_globs d) = Some (p, c)"
    if "globs p = Some (i, c)" "fnmatch (c_str p) (c_str uri)"
      "\<forall>p' i' c'. globs p' = Some (i', c') \<longrightarrow> fnmatch (c_str p') (c_str uri) \<longrightarrow> i \<le> i'" for p i c
    by (rule find_sorted [OF srt]) (use that mem in fastforce)+
  have miss: "find ?P (sd_globs d) = None" if "\<forall>p i c. globs p = Some (i, c) \<longrightarrow> \<not> fnmatch (c_str p) (c_str uri)"
    using that mem by (auto simp: find_None_iff)
  show ?thesis using hit miss by (simp add: getMatchedServlet_def ex df)
qed

theorem servlet_routing_witness:
  "getMatchedServlet (\<lambda>p u. True) [1] (fold sd_step [AddGlob [2] (HoldServletCreator (FunctionServlet (\<lambda>x. (7, x)))),
     AddGlob [3] (HoldServletCreator (FunctionServlet (\<lambda>x. (8, x)))), AddGlob [2] (HoldServletCreator (FunctionServlet (\<lambda>x. (9, x))))]
     (new_ServletDispatch :: unit dispatch)) = Some (FunctionServlet (\<lambda>x. (8, x)))"
proof -
  let ?c = "HoldServletCreator (FunctionServlet (\<lambda>x. (8, x))) :: unit creator"
  let ?ops = "[AddGlob [2] (HoldServletCreator (FunctionServlet (\<lambda>x. (7, x)))), AddGlob [3] ?c,
    AddGlob [2] (HoldServletCreator (FunctionServlet (\<lambda>x. (9, x))))]"
  have "getMatchedServlet (\<lambda>p u. True) [1] (fold sd_step ?ops new_ServletDispatch) = Some (creator_get ?c)"
    by (rule conjunct1 [OF conjunct2 [OF servlet_routing], rule_format, where p = "[3]" and i = 1]) (auto split: if_splits)
  then show ?thesis by simp
qed

text \<open>The check of the session manager keeps exactly the sessions used since the given time.\<close>

lemma sm_check_exact:
  assumes "distinct (map fst m)"
  shows "sm_check now ts m = filter (\<lambda>(k, s). \<not> sn_lastAccessTime s < usub64 now ts) m"
proof -
  have f: "fold sm_del ks m = filter (\<lambda>p. fst p \<notin> set ks) m" for ks
    by (induction ks rule: rev_induct) (auto simp: sm_del_def drop_key_def intro: filter_cong)
  show ?thesis unfolding sm_check_def f using assms
    by (intro filter_cong) (auto simp: distinct_map inj_on_def)
qed

end
