(* ===== verification/Rock.thy ===== *)
theory Rock
  imports SocketStream
begin

text \<open>
  The messages of the RPC protocol and their framing (\<open>src/protocol.cpp\<close>, \<open>src/rock/rock_protocol.cpp\<close>):
  requests, responses and notifications written to a byte array, and the decoder that sends and
  receives them on a stream behind a header of eight bytes. zlib is an argument: from the bytes
  written it gives whether \<open>write\<close> and \<open>flush\<close> return \<open>Z_OK\<close>, and the output buffers; setting it up is
  taken to succeed. The configured limits are arguments too. The array a body is read into is fresh,
  so reading into it raises nothing the decoder would have to catch.

  Shown: which messages arrive, and that a compressed message is never sent, both consequences of
  defects of the code.
\<close>

section \<open>Exceptions\<close>

text \<open>\<open>catch(...)\<close> stops exceptions, not failed assertions or invalid accesses.\<close>

definition thrown :: "fault \<Rightarrow> bool" where
  "thrown e \<longleftrightarrow> e = OutOfRange \<or> e = LogicError \<or> e = InvalidArgument"

definition caught :: "'a result \<Rightarrow> 'a option result" where
  "caught m = (case m of Inr x \<Rightarrow> Inr (Some x) | Inl e \<Rightarrow> if thrown e then Inr None else Inl e)"

section \<open>Messages\<close>

definition Request_serialize :: "u32 \<Rightarrow> u32 \<Rightarrow> bytearray \<Rightarrow> bytearray result" where
  "Request_serialize sn cmd ba = bind_res (write_int sn ba) (write_int cmd)"

definition Request_parse :: "bytearray \<Rightarrow> (u32 \<times> u32 \<times> bytearray) result" where
  "Request_parse ba =
    bind_res (setPosition 0 ba) (\<lambda>ba.
    bind_res (read_int ba) (\<lambda>(sn, ba).
    bind_res (read_int ba) (\<lambda>(cmd, ba). Inr (sn, cmd, ba))))"

definition Response_serialize :: "u32 \<Rightarrow> u32 \<Rightarrow> u32 \<Rightarrow> byte list \<Rightarrow> bytearray \<Rightarrow> bytearray result" where
  "Response_serialize sn cmd rslt resultStr ba =
    bind_res (write_int sn ba) (\<lambda>ba.
    bind_res (write_int cmd ba) (\<lambda>ba.
    bind_res (write_int rslt ba) (write_string Varint resultStr)))"

definition Response_parse :: "bytearray \<Rightarrow> (u32 \<times> u32 \<times> u32 \<times> byte list \<times> bytearray) result" where
  "Response_parse ba =
    bind_res (setPosition 0 ba) (\<lambda>ba.
    bind_res (read_int ba) (\<lambda>(sn, ba).
    bind_res (read_int ba) (\<lambda>(cmd, ba).
    bind_res (read_int ba) (\<lambda>(rslt, ba).
    bind_res (read_string Varint ba) (\<lambda>(resultStr, ba). Inr (sn, cmd, rslt, resultStr, ba))))))"

definition Notify_serialize :: "u32 \<Rightarrow> bytearray \<Rightarrow> bytearray result" where
  "Notify_serialize notify ba = write_int notify ba"

definition Notify_parse :: "bytearray \<Rightarrow> (u32 \<times> bytearray) result" where
  "Notify_parse ba = bind_res (setPosition 0 ba) read_int"

definition RockBody_serialize :: "byte list \<Rightarrow> bytearray \<Rightarrow> bytearray result" where
  "RockBody_serialize body = write_string Varint body"

definition RockBody_parse :: "bytearray \<Rightarrow> (byte list \<times> bytearray) result" where
  "RockBody_parse = read_string Varint"

text \<open>The message classes with their fields: serial number and command, result and its text, body.\<close>

datatype rock_message =
    RockRequest u32 u32 "byte list"
  | RockResponse u32 u32 u32 "byte list" "byte list"
  | RockNotify u32 "byte list"

fun getType :: "rock_message \<Rightarrow> byte" where
  "getType (RockRequest sn cmd body) = 1"
| "getType (RockResponse sn cmd rslt resultStr body) = 2"
| "getType (RockNotify notify body) = 3"

text \<open>The response to a request, with the defaults 404 and ``unhandle'' of its constructor.\<close>

fun createResponse :: "rock_message \<Rightarrow> rock_message option" where
  "createResponse (RockRequest sn cmd body) = Some (RockResponse sn cmd 404 [117, 110, 104, 97, 110, 100, 108, 101] [])"
| "createResponse _ = None"

fun serializeToByteArray :: "rock_message \<Rightarrow> bytearray \<Rightarrow> bytearray result" where
  "serializeToByteArray (RockRequest sn cmd body) ba = bind_res (Request_serialize sn cmd ba) (RockBody_serialize body)"
| "serializeToByteArray (RockResponse sn cmd rslt resultStr body) ba =
    bind_res (Response_serialize sn cmd rslt resultStr ba) (RockBody_serialize body)"
| "serializeToByteArray (RockNotify notify body) ba = bind_res (Notify_serialize notify ba) (RockBody_serialize body)"

definition RockRequest_parse :: "bytearray \<Rightarrow> rock_message result" where
  "RockRequest_parse ba = bind_res (Request_parse ba) (\<lambda>(sn, cmd, ba).
    bind_res (RockBody_parse ba) (\<lambda>(body, _). Inr (RockRequest sn cmd body)))"

definition RockResponse_parse :: "bytearray \<Rightarrow> rock_message result" where
  "RockResponse_parse ba = bind_res (Response_parse ba) (\<lambda>(sn, cmd, rslt, resultStr, ba).
    bind_res (RockBody_parse ba) (\<lambda>(body, _). Inr (RockResponse sn cmd rslt resultStr body)))"

definition RockNotify_parse :: "bytearray \<Rightarrow> rock_message result" where
  "RockNotify_parse ba = bind_res (Notify_parse ba) (\<lambda>(notify, ba).
    bind_res (RockBody_parse ba) (\<lambda>(body, _). Inr (RockNotify notify body)))"

definition toByteArray :: "rock_message \<Rightarrow> bytearray option result" where
  "toByteArray m = caught (serializeToByteArray m (new_ByteArray 4096))"

section \<open>The decoder\<close>

text \<open>The header as it lies in memory; the length is an \<open>int32_t\<close> in network order.\<close>

record rock_header =
  rh_magic :: "byte list"
  rh_version :: byte
  rh_flag :: byte
  rh_length :: u32

definition new_RockMsgHeader :: rock_header where
  "new_RockMsgHeader = \<lparr> rh_magic = [0xab, 0xcd], rh_version = 1, rh_flag = 0, rh_length = 0 \<rparr>"

definition header_bytes :: "rock_header \<Rightarrow> byte list" where
  "header_bytes h = rh_magic h @ [rh_version h, rh_flag h] @ le_bytes (rh_length h)"

definition header_of :: "byte list \<Rightarrow> rock_header" where
  "header_of bs = \<lparr> rh_magic = take 2 bs, rh_version = bs ! 2, rh_flag = bs ! 3, rh_length = of_le_bytes (drop 4 bs) \<rparr>"

fun write_buffers :: "byte list list \<Rightarrow> bytearray \<Rightarrow> bytearray result" where
  "write_buffers [] ba = Inr ba"
| "write_buffers (b # bs) ba = bind_res (ba_write b ba) (write_buffers bs)"

definition getByteArray :: "byte list list \<Rightarrow> bytearray result" where
  "getByteArray buffs = write_buffers buffs (new_ByteArray 4096)"

type_synonym zlib = "byte list \<Rightarrow> bool \<times> bool \<times> byte list list"

text \<open>\<open>write(ba, -1)\<close> hands zlib the bytes behind the cursor.\<close>

definition zlib_run :: "zlib \<Rightarrow> bytearray \<Rightarrow> (bool \<times> bool \<times> byte list list) result" where
  "zlib_run z ba = bind_res (getReadBuffers (2 ^ 64 - 1) ba) (\<lambda>(_, iovs). Inr (z (iov_bytes (ba_nodes ba) iovs)))"

definition decode_message :: "bytearray \<Rightarrow> rock_message option result" where
  "decode_message ba =
    bind_res (read_int ba) (\<lambda>(type :: byte, ba).
      if type = 1 then caught (RockRequest_parse ba)
      else if type = 2 then caught (RockResponse_parse ba)
      else if type = 3 then caught (RockNotify_parse ba)
      else Inr None)"

definition decode_payload :: "zlib \<Rightarrow> byte \<Rightarrow> bytearray \<Rightarrow> rock_message option result" where
  "decode_payload gunzip flag ba =
    bind_res (setPosition 0 ba) (\<lambda>ba.
      if flag AND 1 \<noteq> 0 then
        bind_res (zlib_run gunzip ba) (\<lambda>(written, flushed, buffs).
          if \<not> written \<or> \<not> flushed then Inr None
          else bind_res (getByteArray buffs) decode_message)
      else decode_message ba)"

definition parseFrom :: "zlib \<Rightarrow> nat \<Rightarrow> sockstream \<Rightarrow> (rock_message option \<times> sockstream) result" where
  "parseFrom gunzip max_length ss =
    (let (r, bs, ss1) = readFixSize ss_read 8 ss; header = header_of bs in
     if r \<le> 0 then Inr (None, ss1)
     else if rh_magic header \<noteq> [0xab, 0xcd] then Inr (None, ss1)
     else if rh_version header \<noteq> 1 then Inr (None, ss1)
     else let len = byteswap (rh_length header) in
       if max_length \<le> unat len then Inr (None, ss1)
       else bind_res (readFixSize_ba ss_read_ba (unat (scast len :: u64)) (new_ByteArray 4096, ss1)) (\<lambda>(r, ba, ss2).
         if r \<le> 0 then Inr (None, ss2)
         else bind_res (caught (decode_payload gunzip (rh_flag header) ba)) (\<lambda>m. Inr (Option.bind m id, ss2))))"

definition send_frame :: "byte \<Rightarrow> bytearray \<Rightarrow> sockstream \<Rightarrow> (int \<times> sockstream) result" where
  "send_frame flag ba ss =
    (let header = new_RockMsgHeader\<lparr> rh_flag := flag, rh_length := byteswap (of_nat (ba_size ba)) \<rparr>;
         (r, ss1) = writeFixSize ss_write (header_bytes header) ss in
     if r \<le> 0 then Inr (-3, ss1)
     else bind_res (writeFixSize_ba ss_write_ba (getReadSize ba) (ba, ss1)) (\<lambda>(r, ba, ss2).
       if r \<le> 0 then Inr (-4, ss2) else Inr (to_int32 (8 + ba_size ba), ss2)))"

definition serializeTo :: "zlib \<Rightarrow> nat \<Rightarrow> rock_message \<Rightarrow> sockstream \<Rightarrow> (int \<times> sockstream) result" where
  "serializeTo gzip gzip_min_length m ss =
    bind_res (toByteArray m) (\<lambda>ba. case ba of None \<Rightarrow> Inl NullDeref | Some ba \<Rightarrow>
    bind_res (setPosition 0 ba) (\<lambda>ba.
      if gzip_min_length \<le> unat (of_nat (ba_size ba) :: u32) then
        bind_res (zlib_run gzip ba) (\<lambda>(written, flushed, buffs).
          if \<not> written then Inr (-1, ss)
          else if \<not> flushed then Inr (-2, ss)
          else bind_res (getByteArray buffs) (\<lambda>ba. send_frame 1 ba ss))
      else send_frame 0 ba ss))"

section \<open>Messages as fields\<close>

fun message_fields :: "rock_message \<Rightarrow> field list" where
  "message_fields (RockRequest sn cmd body) = [FInt32 sn, FInt32 cmd, FString Varint body]"
| "message_fields (RockResponse sn cmd rslt resultStr body) =
    [FInt32 sn, FInt32 cmd, FInt32 rslt, FString Varint resultStr, FString Varint body]"
| "message_fields (RockNotify notify body) = [FInt32 notify, FString Varint body]"

text \<open>The number a message starts with: its serial number, or what it notifies of.\<close>

fun first_number :: "rock_message \<Rightarrow> u32" where
  "first_number (RockRequest sn cmd body) = sn"
| "first_number (RockResponse sn cmd rslt resultStr body) = sn"
| "first_number (RockNotify notify body) = notify"

definition message_bytes :: "rock_message \<Rightarrow> byte list" where
  "message_bytes m = concat (map (field_bytes BigEndian) (message_fields m))"

definition message_ok :: "rock_message \<Rightarrow> bool" where
  "message_ok m \<longleftrightarrow> list_all field_ok (message_fields m)"

definition parse_as :: "rock_message \<Rightarrow> bytearray \<Rightarrow> rock_message result" where
  "parse_as m = (case m of RockRequest _ _ _ \<Rightarrow> RockRequest_parse | RockResponse _ _ _ _ _ \<Rightarrow> RockResponse_parse
     | RockNotify _ _ \<Rightarrow> RockNotify_parse)"

lemmas serialize_defs = Request_serialize_def Response_serialize_def Notify_serialize_def RockBody_serialize_def
lemmas parse_defs = RockRequest_parse_def RockResponse_parse_def RockNotify_parse_def Request_parse_def
  Response_parse_def Notify_parse_def RockBody_parse_def

lemma serialize_fields: "serializeToByteArray m ba = write_fields (message_fields m) ba"
  by (cases m) (simp_all add: serialize_defs bind_res_def split: sum.splits)

lemma parse_fields:
  assumes "setPosition 0 ba = Inr ba0" "read_fields (map field_kind (message_fields m)) ba0 = Inr (message_fields m, ba1)"
  shows "parse_as m ba = Inr m"
  using assms
  by (cases m) (auto simp: parse_as_def parse_defs map_fst_res_def bind_res_def split: sum.splits prod.splits)

lemma fresh_array:
  "ba_wf (new_ByteArray 4096)" "ba_endian (new_ByteArray 4096) = BigEndian" "ba_position (new_ByteArray 4096) = 0"
  "ba_size (new_ByteArray 4096) = 0"
  using ba_wf_new [of 4096] by simp_all (simp_all add: new_ByteArray_def)

lemma message_array:
  assumes "message_ok m"
  shows "\<exists>ba. toByteArray m = Inr (Some ba) \<and> ba_wf ba \<and> ba_endian ba = BigEndian \<and> ba_data ba = message_bytes m"
  using write_fields_law [OF _ fresh_array(1), of "message_fields m"] assms
  by (auto simp: toByteArray_def caught_def serialize_fields message_ok_def message_bytes_def overwrite_def fresh_array)

section \<open>The first byte\<close>

definition top_byte :: "u32 \<Rightarrow> byte" where
  "top_byte w = ucast (drop_bit 24 w)"

lemma byte_bytes: "int_bytes e (v :: byte) = [v]"
  by (simp add: int_bytes_def le_bytes_def sizeof_word_def)

lemma message_bytes_first: "\<exists>rest. message_bytes m = top_byte (first_number m) # rest"
proof -
  have "int_bytes BigEndian (w :: u32) = top_byte w # [ucast (drop_bit 16 w), ucast (drop_bit 8 w), ucast w]" for w
    by (simp add: int_bytes_def le_bytes_def sizeof_word_def host_order_def top_byte_def upt_rec)
  then show ?thesis by (cases m) (simp_all add: message_bytes_def)
qed

lemma message_upcoming:
  assumes "ba_wf ba" "ba_endian ba = BigEndian" "ba_data ba = message_bytes m"
  shows "\<exists>ba0. setPosition 0 ba = Inr ba0 \<and> ba_wf ba0 \<and> ba_endian ba0 = BigEndian \<and> ba_data ba0 = message_bytes m \<and>
    ba_position ba0 = 0 \<and> ba.upcoming ba0 (message_bytes m)"
  using ba.seek_law [OF assms(1), of 0] assms by (auto simp: ba.upcoming_def)

lemma decode_message_exact:
  assumes ok: "message_ok m" and ba: "ba_wf ba" "ba_endian ba = BigEndian" "ba_data ba = message_bytes m" "ba_position ba = 0"
  shows "top_byte (first_number m) = getType m \<Longrightarrow> decode_message ba = Inr (Some m)"
    and "top_byte (first_number m) \<notin> {1, 2, 3} \<Longrightarrow> decode_message ba = Inr None"
proof -
  let ?t = "top_byte (first_number m)"
  obtain rest where rest: "message_bytes m = ?t # rest" using message_bytes_first by blast
  then have "ba.upcoming ba (int_bytes (ba_endian ba) ?t @ rest)" using ba by (auto simp: ba.upcoming_def byte_bytes)
  then obtain ba1 where b1: "read_int ba = Inr (?t, ba1)" "ba.upcoming ba1 rest" "ba_endian ba1 = BigEndian" "ba_data ba1 = message_bytes m"
    using fx8.rd_law [OF TrueI, of ba ?t rest] ba by auto
  obtain ba2 where b2: "setPosition 0 ba1 = Inr ba2" "ba_endian ba2 = BigEndian" "ba.upcoming ba2 (message_bytes m)"
    using message_upcoming [OF ba.upcoming_inv [OF b1(2)] b1(3,4)] by blast
  obtain ba3 where "read_fields (map field_kind (message_fields m)) ba2 = Inr (message_fields m, ba3)"
    using read_fields_law [of "message_fields m" ba2 "[]"] ok b2(2,3) by (auto simp: message_ok_def message_bytes_def)
  then have p: "parse_as m ba1 = Inr m" using parse_fields [OF b2(1)] by blast
  show "decode_message ba = Inr (Some m)" if "?t = getType m"
    using p that b1(1) by (cases m) (simp_all add: decode_message_def parse_as_def caught_def)
  show "decode_message ba = Inr None" if "?t \<notin> {1, 2, 3}"
    using that b1(1) by (simp add: decode_message_def)
qed

section \<open>Whole arrays on a stream\<close>

lemma read_array_ready:
  assumes "ss_rready s" "n \<le> length (ss_pend s)" "0 < n" "n < 2 ^ 31"
  shows "\<exists>ba s'. readFixSize_ba ss_read_ba n (new_ByteArray 4096, s) = Inr (int n, ba, s') \<and> ba_wf ba \<and>
    ba_endian ba = BigEndian \<and> ba_data ba = take n (ss_pend s) \<and> ss_pend s' = drop n (ss_pend s)"
proof -
  obtain s' where s': "readFixSize ss_read n s = (int n, take n (ss_pend s), s')" "ss_pend s' = drop n (ss_pend s)"
    using sk.readFixSize_ready [OF assms] by blast
  obtain r where l: "readFix_loop ss_read (to_int64 n) s = (r, take n (ss_pend s), s')" "fix_result n r = int n"
    using s'(1) by (auto simp: readFixSize_def split: prod.splits)
  from fixBa_read [OF l(1) fresh_array(1)] l(2) s'(2) show ?thesis
    by (auto simp: readFixSize_ba_def overwrite_def fresh_array)
qed

lemma write_array_ready:
  assumes "ss_wready (length (ba_data ba)) s" "ba_wf ba" "ba_position ba = 0" "ba_data ba \<noteq> []" "length (ba_data ba) < 2 ^ 31"
  shows "\<exists>ba' s'. writeFixSize_ba ss_write_ba (length (ba_data ba)) (ba, s) = Inr (int (length (ba_data ba)), ba', s') \<and>
    ss_sent s' = ss_sent s @ ba_data ba \<and> ba_size ba' = ba_size ba"
proof -
  let ?bs = "ba_data ba"
  obtain r s' where l: "writeFix_loop ss_write ?bs (int (length ?bs)) s = (r, s')"
    by (cases "writeFix_loop ss_write ?bs (int (length ?bs)) s")
  have r: "r = None" using sk.writeFix_loop_ready [OF l, of 0] assms(1) by simp
  then have "ss_sent s' = ss_sent s @ ?bs" using sk.writeFix_loop_law [OF l] by simp
  moreover obtain ba' where "fixBa_loop ss_write_ba (int (length ?bs)) (ba, s) = Inr (r, ba', s')" "ba_size ba' = ba_size ba"
    using fixBa_write [OF l assms(2) refl] assms(3) by auto
  ultimately show ?thesis using r assms(5) by (simp add: writeFixSize_ba_def fix_result_def to_int64_small to_int32_small)
qed

section \<open>Frames\<close>

definition frame_header :: "byte \<Rightarrow> nat \<Rightarrow> byte list" where
  "frame_header flag n = [0xab, 0xcd, 1, flag] @ le_bytes (byteswap (of_nat n :: u32))"

lemma frame_header_bytes:
  "header_bytes (new_RockMsgHeader\<lparr> rh_flag := flag, rh_length := byteswap (of_nat n) \<rparr>) = frame_header flag n"
  by (simp add: header_bytes_def new_RockMsgHeader_def frame_header_def)

lemma length_frame_header [simp]: "length (frame_header flag n) = 8"
  by (simp add: frame_header_def)

lemma header_of_frame:
  "header_of (frame_header flag n) =
    \<lparr> rh_magic = [0xab, 0xcd], rh_version = 1, rh_flag = flag, rh_length = byteswap (of_nat n) \<rparr>"
  by (simp add: header_of_def frame_header_def)

lemma send_frame_ready:
  assumes "ss_wready (8 + length (ba_data ba)) s" "ba_wf ba" "ba_position ba = 0" "ba_data ba \<noteq> []" "8 + length (ba_data ba) < 2 ^ 31"
  shows "\<exists>s'. send_frame flag ba s = Inr (int (8 + length (ba_data ba)), s') \<and>
    ss_sent s' = ss_sent s @ frame_header flag (length (ba_data ba)) @ ba_data ba"
proof -
  let ?h = "frame_header flag (length (ba_data ba))"
  have sz: "ba_size ba = length (ba_data ba)" using assms(2) by simp
  then have rs: "getReadSize ba = length (ba_data ba)" using assms(3) by (simp add: getReadSize_def)
  have "?h \<noteq> []" by (simp add: frame_header_def)
  then obtain s1 where s1: "writeFixSize ss_write ?h s = (8, s1)" "ss_sent s1 = ss_sent s @ ?h" "ss_wready (length (ba_data ba)) s1"
    using sk.writeFixSize_ready [of ?h "length (ba_data ba)" s] assms(1) by auto
  obtain ba' s2 where "writeFixSize_ba ss_write_ba (length (ba_data ba)) (ba, s1) = Inr (int (length (ba_data ba)), ba', s2)"
      "ss_sent s2 = ss_sent s1 @ ba_data ba" "ba_size ba' = ba_size ba"
    using write_array_ready [OF s1(3) assms(2,3,4)] assms(5) by auto
  then show ?thesis
    using s1 sz rs assms(4,5) frame_header_bytes [where flag = flag and n = "ba_size ba"]
    by (simp add: send_frame_def Let_def to_int32_small)
qed

text \<open>An array whose cursor is at its end has nothing to send: only the header goes out.\<close>

lemma send_frame_at_end:
  assumes "ss_wready 8 s" "ba_wf ba" "ba_position ba = ba_size ba"
  shows "\<exists>s'. send_frame flag ba s = Inr (-4, s') \<and> ss_sent s' = ss_sent s @ frame_header flag (ba_size ba)"
proof -
  let ?h = "frame_header flag (ba_size ba)"
  have "?h \<noteq> []" by (simp add: frame_header_def)
  then obtain s1 where "writeFixSize ss_write ?h s = (8, s1)" "ss_sent s1 = ss_sent s @ ?h"
    using sk.writeFixSize_ready [of ?h 0 s] assms(1) by auto
  moreover have "getReadSize ba = 0" using assms(3) by (simp add: getReadSize_def)
  ultimately show ?thesis
    using frame_header_bytes [where flag = flag and n = "ba_size ba"]
    by (simp add: send_frame_def Let_def writeFixSize_ba_def to_int64_def to_int32_def fix_result_def fixBa_loop.simps)
qed

lemma getByteArray_at_end:
  "\<exists>ba. getByteArray buffs = Inr ba \<and> ba_wf ba \<and> ba_data ba = concat buffs \<and> ba_position ba = ba_size ba"
proof -
  have "\<exists>ba'. write_buffers buffs ba = Inr ba' \<and> ba_wf ba' \<and> ba_data ba' = ba_data ba @ concat buffs \<and> ba_position ba' = ba_size ba'"
    if "ba_wf ba" "ba_position ba = ba_size ba" for ba
    using that
  proof (induction buffs arbitrary: ba)
    case (Cons b bs)
    obtain ba1 where "ba_write b ba = Inr ba1" "ba_wf ba1" "ba_data ba1 = overwrite (ba_data ba) (ba_position ba) b"
        "ba_position ba1 = ba_position ba + length b"
      using ba.put_law [OF Cons.prems(1), of b] by blast
    moreover from this have "ba_data ba1 = ba_data ba @ b" "ba_position ba1 = ba_size ba1"
      using Cons.prems length_ba_data [of ba1] length_ba_data [of ba] by (auto simp: overwrite_def)
    ultimately show ?case using Cons.IH [of ba1] by auto
  qed simp
  from this [of "new_ByteArray 4096"] show ?thesis
    by (simp add: getByteArray_def fresh_array)
qed

section \<open>Receiving and sending frames\<close>

lemma scast_small: "n < 2 ^ 31 \<Longrightarrow> unat (scast (of_nat n :: u32) :: u64) = n"
proof -
  assume n: "n < 2 ^ 31"
  have s: "sint (of_nat n :: u32) = int n" using to_int32_small [OF n] by (simp only: to_int32_def)
  have "(scast (of_nat n :: u32) :: u64) = of_int (sint (of_nat n :: u32))" by (rule of_int_sint [symmetric])
  also have "\<dots> = of_nat n" by (simp only: s of_int_of_nat_eq)
  finally show ?thesis using n by (simp only:) (rule unat_word_of_nat, simp)
qed

lemma parseFrom_frame:
  assumes "ss_rready s" "ss_pend s = frame_header flag (length bs) @ bs" "bs \<noteq> []" "length bs < 2 ^ 31" "length bs < max_length"
  shows "\<exists>ba s'. ba_wf ba \<and> ba_endian ba = BigEndian \<and> ba_data ba = bs \<and> ss_pend s' = [] \<and>
    parseFrom gunzip max_length s = bind_res (caught (decode_payload gunzip flag ba)) (\<lambda>m. Inr (Option.bind m id, s'))"
proof -
  let ?n = "length bs"
  obtain s1 where s1: "readFixSize ss_read 8 s = (8, frame_header flag ?n, s1)" "ss_pend s1 = bs" "ss_rready s1"
    using sk.readFixSize_ready [of s 8] assms(1,2) by auto
  obtain ba s2 where b: "readFixSize_ba ss_read_ba ?n (new_ByteArray 4096, s1) = Inr (int ?n, ba, s2)" "ba_wf ba"
      "ba_endian ba = BigEndian" "ba_data ba = bs" "ss_pend s2 = []"
    using read_array_ready [OF s1(3), of ?n] s1(2) assms(3,4) by auto
  have "unat (of_nat ?n :: u32) = ?n" using assms(4) by (intro unat_word_of_nat) simp
  then have "parseFrom gunzip max_length s = bind_res (caught (decode_payload gunzip flag ba)) (\<lambda>m. Inr (Option.bind m id, s2))"
    using s1(1) b(1) assms(3,4,5)
    by (simp add: parseFrom_def Let_def header_of_frame byteswap_byteswap scast_small)
  then show ?thesis using b by blast
qed

lemma zlib_run_whole:
  assumes "ba_wf ba" "ba_position ba = 0" "ba_size ba < 2 ^ 64"
  shows "zlib_run z ba = Inr (z (ba_data ba))"
  using getReadBuffers_correct [OF assms(1), of "2 ^ 64 - 1"] assms length_ba_data [OF assms(1)]
  by (auto simp: zlib_run_def)

lemma message_cursor:
  assumes "message_ok m"
  shows "\<exists>ba. toByteArray m = Inr (Some ba) \<and> (\<exists>ba0. setPosition 0 ba = Inr ba0 \<and> ba_wf ba0 \<and> ba_endian ba0 = BigEndian \<and>
    ba_data ba0 = message_bytes m \<and> ba_position ba0 = 0 \<and> ba_size ba0 = length (message_bytes m))"
proof -
  obtain ba where ba: "toByteArray m = Inr (Some ba)" "ba_wf ba" "ba_endian ba = BigEndian" "ba_data ba = message_bytes m"
    using message_array [OF assms] by blast
  obtain ba0 where b0: "setPosition 0 ba = Inr ba0" "ba_wf ba0" "ba_endian ba0 = BigEndian" "ba_data ba0 = message_bytes m"
      "ba_position ba0 = 0" using message_upcoming [OF ba(2-4)] by blast
  have "ba_size ba0 = length (message_bytes m)" using length_ba_data [OF b0(2)] b0(4) by simp
  then show ?thesis using ba(1) b0 by blast
qed

lemma serializeTo_small:
  assumes "message_ok m" "8 + length (message_bytes m) < 2 ^ 31" "length (message_bytes m) < gzip_min"
    "ss_wready (8 + length (message_bytes m)) c"
  shows "\<exists>c'. serializeTo gzip gzip_min m c = Inr (int (8 + length (message_bytes m)), c') \<and>
    ss_sent c' = ss_sent c @ frame_header 0 (length (message_bytes m)) @ message_bytes m"
proof -
  let ?n = "length (message_bytes m)"
  obtain ba ba0 where ba: "toByteArray m = Inr (Some ba)" "setPosition 0 ba = Inr ba0" "ba_wf ba0"
      "ba_data ba0 = message_bytes m" "ba_position ba0 = 0" "ba_size ba0 = ?n"
    using message_cursor [OF assms(1)] by blast
  have "unat (of_nat ?n :: u32) = ?n" using assms(2) by (intro unat_word_of_nat) simp
  moreover have "ba_data ba0 \<noteq> []" using ba(4) message_bytes_first [of m] by auto
  ultimately show ?thesis
    using ba assms send_frame_ready [of ba0 c 0] by (simp add: serializeTo_def)
qed

text \<open>The array that \<open>getByteArray\<close> returns has its cursor at the end, so no type can be read from it.\<close>

lemma compressed_never_decoded:
  assumes "ba_wf ba" "flag AND 1 \<noteq> 0" "ba_size ba < 2 ^ 64"
  shows "caught (decode_payload gunzip flag ba) \<in> {Inr None, Inr (Some None)}"
proof -
  obtain ba0 where b0: "setPosition 0 ba = Inr ba0" "ba_wf ba0" "ba_data ba0 = ba_data ba" "ba_position ba0 = 0"
    using ba.seek_law [OF assms(1), of 0] by auto
  obtain w f buffs where z: "gunzip (ba_data ba0) = (w, f, buffs)" by (cases "gunzip (ba_data ba0)")
  obtain z where "getByteArray buffs = Inr z" "ba_wf z" "ba_position z = ba_size z" using getByteArray_at_end by blast
  moreover from this have "(read_int z :: (byte \<times> bytearray) result) = Inl OutOfRange"
    using ba.get_short [of z 1] by (simp add: read_int_def sizeof_word_def)
  ultimately show ?thesis
    using b0 z assms(2,3) zlib_run_whole [OF b0(2,4), of gunzip] length_ba_data [OF b0(2)] length_ba_data [OF assms(1)]
    by (auto simp: decode_payload_def decode_message_def caught_def thrown_def)
qed

section \<open>Properties\<close>

text \<open>
  C29: A message below the compression threshold is sent whole, and the decoder at the other end takes
  the highest byte of its first number, the serial number or what it notifies of, for its type, since
  the type itself is never written: the message arrives unchanged if that byte happens to be its
  type, and is refused if the byte is no type at all, as for every serial number below \<open>2 ^ 24\<close>.
\<close>

theorem rock_delivered_by_first_byte:
  assumes "message_ok m" "8 + length (message_bytes m) < 2 ^ 31"
    "length (message_bytes m) < gzip_min" "length (message_bytes m) < max_length"
    and sender: "ss_wready (8 + length (message_bytes m)) c" "ss_sent c = []"
    and receiver: "serializeTo gzip gzip_min m c = Inr (r, c')" "ss_pend s = ss_sent c'" "ss_rready s"
  shows "r = int (8 + length (message_bytes m)) \<and>
    (top_byte (first_number m) = getType m \<longrightarrow>
      (\<exists>s'. parseFrom gunzip max_length s = Inr (Some m, s') \<and> ss_pend s' = [])) \<and>
    (top_byte (first_number m) \<notin> {1, 2, 3} \<longrightarrow>
      (\<exists>s'. parseFrom gunzip max_length s = Inr (None, s') \<and> ss_pend s' = []))"
proof -
  let ?bs = "message_bytes m"
  have sent: "r = int (8 + length ?bs)" "ss_sent c' = frame_header 0 (length ?bs) @ ?bs"
    using serializeTo_small [OF assms(1-3) sender(1), of gzip] receiver(1) sender(2) by auto
  have "?bs \<noteq> []" using message_bytes_first [of m] by auto
  then obtain ba s' where p: "ba_wf ba" "ba_endian ba = BigEndian" "ba_data ba = ?bs" "ss_pend s' = []"
      "parseFrom gunzip max_length s = bind_res (caught (decode_payload gunzip 0 ba)) (\<lambda>m. Inr (Option.bind m id, s'))"
    using parseFrom_frame [OF receiver(3), of 0 ?bs max_length gunzip] receiver(2) sent(2) assms(2,4) by auto
  obtain ba0 where b0: "setPosition 0 ba = Inr ba0" "ba_wf ba0" "ba_endian ba0 = BigEndian" "ba_data ba0 = ?bs" "ba_position ba0 = 0"
    using message_upcoming [OF p(1-3)] by blast
  have d: "decode_payload gunzip 0 ba = decode_message ba0" using b0(1) by (simp add: decode_payload_def)
  then show ?thesis
    using sent(1) p(4,5) decode_message_exact [OF assms(1) b0(2-5)] by (auto simp: caught_def)
qed

definition rock_demo :: rock_message where
  "rock_demo = RockRequest 0x01000000 7 [1, 2]"

definition rock_client :: sockstream where
  "rock_client = \<lparr> ss_socket = Some \<lparr> sk_sock = 3, sk_isConnected = True, sk_rx = [], sk_rxans = [], sk_tx = [],
     sk_txans = replicate 30 5 \<rparr>, ss_owner = True \<rparr>"

definition rock_server :: sockstream where
  "rock_server = \<lparr> ss_socket = Some \<lparr> sk_sock = 4, sk_isConnected = True, sk_rx = frame_header 0 11 @ message_bytes rock_demo,
     sk_rxans = replicate 30 3, sk_tx = [], sk_txans = [] \<rparr>, ss_owner = True \<rparr>"

lemma rock_demo_facts: "message_ok rock_demo" "length (message_bytes rock_demo) = 11" "first_number rock_demo = 0x01000000"
  "getType rock_demo = 1" "ss_wready 30 rock_client" "ss_sent rock_client = []" "ss_rready rock_server"
  "ss_pend rock_server = frame_header 0 11 @ message_bytes rock_demo"
proof -
  show l: "length (message_bytes rock_demo) = 11"
    by (simp add: message_bytes_def rock_demo_def varuint64_bytes.simps)
  show "message_ok rock_demo" "first_number rock_demo = 0x01000000" "getType rock_demo = 1"
    by (simp_all add: message_ok_def rock_demo_def)
  show "ss_wready 30 rock_client" "ss_sent rock_client = []" "ss_rready rock_server"
    "ss_pend rock_server = frame_header 0 11 @ message_bytes rock_demo"
    using l by (simp_all add: ss_view_defs rock_client_def rock_server_def list_all_iff)
qed

lemma wready_less: "ss_wready n ss \<Longrightarrow> k \<le> n \<Longrightarrow> ss_wready k ss"
  by (auto simp: ss_wready_def split: option.splits)

theorem rock_delivered_by_first_byte_witness:
  "\<exists>s'. parseFrom (\<lambda>_. (True, True, [])) 1000 rock_server = Inr (Some rock_demo, s') \<and> ss_pend s' = []"
proof -
  note f = rock_demo_facts
  have w: "ss_wready (8 + length (message_bytes rock_demo)) rock_client" using wready_less [OF f(5)] f(2) by simp
  have small: "8 + length (message_bytes rock_demo) < 2 ^ 31" "length (message_bytes rock_demo) < 4096"
    "length (message_bytes rock_demo) < 1000" using f(2) by simp_all
  obtain c' where c': "serializeTo (\<lambda>_. (True, True, [])) 4096 rock_demo rock_client = Inr (int (8 + length (message_bytes rock_demo)), c')"
      "ss_sent c' = frame_header 0 11 @ message_bytes rock_demo"
    using serializeTo_small [OF f(1) small(1,2) w] f(2,6) by auto
  have t: "top_byte (first_number rock_demo) = getType rock_demo" by (simp add: f(3,4) top_byte_def)
  show ?thesis
    using rock_delivered_by_first_byte [OF f(1) small w f(6) c'(1) _ f(7)] t f(8) c'(2) by auto
qed

text \<open>
  C30: A message that is compressed is never sent: the array with the compressed bytes has its cursor at
  the end, so the decoder's write of the body fails with -4, after a header that announces a body
  has gone out.
\<close>

theorem rock_large_message_lost:
  assumes "message_ok m" "gzip_min \<le> length (message_bytes m)" "length (message_bytes m) < 2 ^ 32"
    "gzip (message_bytes m) = (True, True, buffs)" "ss_wready 8 c"
  shows "\<exists>c'. serializeTo gzip gzip_min m c = Inr (-4, c') \<and> ss_sent c' = ss_sent c @ frame_header 1 (length (concat buffs))"
proof -
  let ?n = "length (message_bytes m)"
  obtain ba ba0 where ba: "toByteArray m = Inr (Some ba)" "setPosition 0 ba = Inr ba0" "ba_wf ba0"
      "ba_data ba0 = message_bytes m" "ba_position ba0 = 0" "ba_size ba0 = ?n"
    using message_cursor [OF assms(1)] by blast
  have u: "unat (of_nat ?n :: u32) = ?n" using assms(3) by (intro unat_word_of_nat) simp
  have z: "zlib_run gzip ba0 = Inr (True, True, buffs)" using zlib_run_whole [OF ba(3,5), of gzip] ba(4,6) assms(3,4) by simp
  obtain za where za: "getByteArray buffs = Inr za" "ba_wf za" "ba_data za = concat buffs" "ba_position za = ba_size za"
    using getByteArray_at_end by blast
  have "ba_size za = length (concat buffs)" using length_ba_data [OF za(2)] za(3) by simp
  then show ?thesis
    using ba u z za(1) assms(2) send_frame_at_end [OF assms(5) za(2,4), of 1] by (simp add: serializeTo_def del: length_concat)
qed

theorem rock_large_message_lost_witness:
  "\<exists>c'. serializeTo (\<lambda>bs. (True, True, [bs])) 1 rock_demo rock_client = Inr (-4, c')"
proof -
  have "ss_wready 8 rock_client" using wready_less [OF rock_demo_facts(5)] by simp
  then show ?thesis
    using rock_large_message_lost [OF rock_demo_facts(1), of 1 "\<lambda>bs. (True, True, [bs])" "[message_bytes rock_demo]" rock_client]
    by (auto simp: rock_demo_facts(2))
qed

end
