(* ===== verification/Bitmap.thy ===== *)
theory Bitmap
  imports ByteCodec
begin

text \<open>
  Bit sets with run-length compression (\<open>src/datastruct/bitmap.cpp\<close>, \<open>include/datastruct/bitmap.h\<close>), with
  the default 16-bit words: 14 bits of a word hold values; in a compressed bitmap the highest bit
  marks a run, the next one its value and the others its length. \<open>_dataSize\<close> is the length of the data.

  The loops over 64-bit blocks followed by a loop over the remaining words visit every word once; a
  bitwise operation on a block acts on its four words, so the loops are one pass over the words
  unless the block matters. Positions are naturals; the source's 32-bit counters do not wrap for data
  that covers the size of the bitmap.

  Shown: the locale \<open>segment_pass\<close>, interpreted on the loops of \<open>uncompress\<close>, \<open>&=\<close> and \<open>|=\<close>, says that a
  pass over runs is a pass over the words they stand for; with it, compression round trips and a
  compressed operand acts as the bitmap it came from. Writing to a byte array is an instance of
  \<open>byte_codec\<close>. Not modelled: the iterator classes, \<open>rforeach\<close>, the compression rate and the text form.
\<close>

type_synonym w16 = "16 word"

definition VALUE_SIZE :: nat where "VALUE_SIZE = 14"
definition COMPRESS_MASK :: w16 where "COMPRESS_MASK = push_bit 15 1"
definition VALUE_MASK :: w16 where "VALUE_MASK = push_bit 14 1"
definition COUNT_MASK :: w16 where "COUNT_MASK = push_bit 14 1 - 1"
definition U64_DIV_BASE :: nat where "U64_DIV_BASE = 4"
definition U64_VALUE_SIZE :: nat where "U64_VALUE_SIZE = VALUE_SIZE * U64_DIV_BASE"
definition POS :: "nat \<Rightarrow> w16" where "POS i = push_bit i 1"
definition NPOS :: "nat \<Rightarrow> w16" where "NPOS i = NOT (POS i)"
definition MASK :: "nat \<Rightarrow> w16" where "MASK i = POS i - 1"

record bitmap =
  bm_compress :: bool
  bm_size :: nat
  bm_data :: "w16 list"

definition new_Bitmap :: "nat \<Rightarrow> byte \<Rightarrow> bitmap" where
  "new_Bitmap sz def = \<lparr> bm_compress = False, bm_size = sz,
     bm_data = replicate (ceil_div sz VALUE_SIZE) (push_bit 8 (ucast def) OR ucast def) \<rparr>"

section \<open>Single bits and ranges of words\<close>

definition bm_get :: "nat \<Rightarrow> bitmap \<Rightarrow> bool result" where
  "bm_get idx b =
    (let cur = idx div VALUE_SIZE in
     if length (bm_data b) \<le> cur then Inl OutOfBounds
     else Inr (bm_data b ! cur AND POS (idx mod VALUE_SIZE) \<noteq> 0))"

definition bm_set :: "nat \<Rightarrow> bool \<Rightarrow> bitmap \<Rightarrow> bitmap result" where
  "bm_set idx v b =
    (let cur = idx div VALUE_SIZE; pos = idx mod VALUE_SIZE in
     if length (bm_data b) \<le> cur then Inl OutOfBounds
     else Inr (b\<lparr> bm_data := (bm_data b)[cur := (if v then bm_data b ! cur OR POS pos else bm_data b ! cur AND NPOS pos)] \<rparr>))"

definition fill :: "bool \<Rightarrow> w16" where
  "fill v = (if v then COUNT_MASK else 0)"

definition set_range :: "nat \<Rightarrow> nat \<Rightarrow> bool \<Rightarrow> w16 list \<Rightarrow> w16 list result" where
  "set_range from sz v data =
    (if sz = 0 then Inr data
     else let cur_from = from div VALUE_SIZE; cur_to = (from + sz) div VALUE_SIZE in
       if from mod VALUE_SIZE \<noteq> 0 \<or> (from + sz) mod VALUE_SIZE \<noteq> 0 then Inl AssertFailed
       else if length data < cur_to then Inl OutOfBounds
       else Inr (overwrite data cur_from (replicate (cur_to - cur_from) (fill v))))"

definition get_range :: "nat \<Rightarrow> nat \<Rightarrow> bool \<Rightarrow> w16 list \<Rightarrow> bool result" where
  "get_range from sz v data =
    (if sz = 0 then Inr False
     else let cur_from = from div VALUE_SIZE; cur_to = (from + sz) div VALUE_SIZE in
       if from mod VALUE_SIZE \<noteq> 0 \<or> (from + sz) mod VALUE_SIZE \<noteq> 0 then Inl AssertFailed
       else if length data < cur_to then Inl OutOfBounds
       else Inr (list_ex (\<lambda>w. if v then w AND COUNT_MASK \<noteq> 0 else w AND COUNT_MASK = 0)
              (take (cur_to - cur_from) (drop cur_from data))))"

section \<open>Compression\<close>

definition count_bits :: "w16 \<Rightarrow> nat" where
  "count_bits w = length (filter (bit w) [0..<16])"

text \<open>The words of one run, its length in groups of 14 bits, the lowest first.\<close>

function run_words :: "bool \<Rightarrow> nat \<Rightarrow> w16 list" where
  "run_words v n =
    (if n = 0 then []
     else (COMPRESS_MASK OR (if v then VALUE_MASK else 0) OR (of_nat n AND COUNT_MASK)) # run_words v (n div 2 ^ VALUE_SIZE))"
  by pat_completeness auto
termination
  by (relation "measure snd") (auto simp: VALUE_SIZE_def)

declare run_words.simps [simp del]

definition flush_run :: "bool \<Rightarrow> nat \<Rightarrow> w16 list" where
  "flush_run v n = (if 1 < n div VALUE_SIZE then run_words v n else if n \<noteq> 0 then [fill v] else [])"

fun compress_loop :: "bool \<Rightarrow> nat \<Rightarrow> w16 list \<Rightarrow> w16 list" where
  "compress_loop v n [] = flush_run v n"
| "compress_loop v n (cur # ws) =
    (let c = count_bits (cur AND COUNT_MASK) in
     if c = 0 \<and> \<not> v \<or> c = VALUE_SIZE \<and> v then compress_loop v (n + VALUE_SIZE) ws
     else flush_run v n @
       (if c = 0 \<or> c = VALUE_SIZE then compress_loop (c = VALUE_SIZE) VALUE_SIZE ws
        else cur # compress_loop v 0 ws))"

definition bm_compressed :: "bitmap \<Rightarrow> bitmap" where
  "bm_compressed b =
    (if bm_compress b then b
     else \<lparr> bm_compress = True, bm_size = bm_size b, bm_data = compress_loop False 0 (bm_data b) \<rparr>)"

section \<open>Reading compressed data\<close>

text \<open>
  The loops over compressed data join the words of a run, here into segments: a run with its
  value and its length, or a word of bits.
\<close>

datatype segment = Run bool nat | Plain w16

definition is_run :: "w16 \<Rightarrow> bool" where
  "is_run w \<longleftrightarrow> w AND COMPRESS_MASK \<noteq> 0"

definition run_value :: "w16 \<Rightarrow> bool" where
  "run_value w \<longleftrightarrow> w AND VALUE_MASK \<noteq> 0"

fun join_run :: "bool \<Rightarrow> nat \<Rightarrow> nat \<Rightarrow> w16 list \<Rightarrow> nat \<times> w16 list" where
  "join_run v k count [] = (count, [])"
| "join_run v k count (w # ws) =
    (if is_run w \<and> run_value w = v
     then join_run v (Suc k) ((unat (w AND COUNT_MASK) * 2 ^ (VALUE_SIZE * k)) mod 2 ^ 32 OR count) ws
     else (count, w # ws))"

lemma join_run_shorter: "length (snd (join_run v k c ws)) \<le> length ws"
  by (induction v k c ws rule: join_run.induct) (auto simp: le_SucI)

function segments :: "w16 list \<Rightarrow> segment list" where
  "segments [] = []"
| "segments (w # ws) =
    (if is_run w
     then Run (run_value w) (fst (join_run (run_value w) 1 (unat (w AND COUNT_MASK)) ws))
          # segments (snd (join_run (run_value w) 1 (unat (w AND COUNT_MASK)) ws))
     else Plain (w AND COUNT_MASK) # segments ws)"
  by pat_completeness auto
termination
  by (relation "measure length") (auto simp: less_Suc_eq_le join_run_shorter)

declare segments.simps(2) [simp del]

fun uncompress_loop :: "segment list \<Rightarrow> nat \<Rightarrow> w16 list \<Rightarrow> w16 list result" where
  "uncompress_loop [] cur_pos data = Inr data"
| "uncompress_loop (Run v count # ss) cur_pos data =
    bind_res (set_range cur_pos count v data) (uncompress_loop ss (cur_pos + count))"
| "uncompress_loop (Plain w # ss) cur_pos data =
    (if length data \<le> cur_pos div VALUE_SIZE then Inl OutOfBounds
     else uncompress_loop ss (cur_pos + VALUE_SIZE) (data[cur_pos div VALUE_SIZE := w]))"

definition uncompress :: "bitmap \<Rightarrow> bitmap result" where
  "uncompress b =
    (if \<not> bm_compress b then Inr b
     else let d = new_Bitmap (bm_size b) 0 in
       bind_res (uncompress_loop (segments (bm_data b)) 0 (bm_data d)) (\<lambda>data. Inr (d\<lparr> bm_data := data \<rparr>)))"

section \<open>Set operations\<close>

fun and_loop :: "segment list \<Rightarrow> nat \<Rightarrow> w16 list \<Rightarrow> w16 list result" where
  "and_loop [] cur_pos data = Inr data"
| "and_loop (Run v count # ss) cur_pos data =
    (if \<not> v then bind_res (set_range cur_pos count False data) (and_loop ss (cur_pos + count))
     else and_loop ss (cur_pos + count) data)"
| "and_loop (Plain w # ss) cur_pos data =
    (let i = cur_pos div VALUE_SIZE in
     if length data \<le> i then Inl OutOfBounds
     else and_loop ss (cur_pos + VALUE_SIZE) (data[i := data ! i AND w]))"

fun or_loop :: "segment list \<Rightarrow> nat \<Rightarrow> w16 list \<Rightarrow> w16 list result" where
  "or_loop [] cur_pos data = Inr data"
| "or_loop (Run v count # ss) cur_pos data =
    (if v then bind_res (set_range cur_pos count True data) (or_loop ss (cur_pos + count))
     else or_loop ss (cur_pos + count) data)"
| "or_loop (Plain w # ss) cur_pos data =
    (let i = cur_pos div VALUE_SIZE in
     if length data \<le> i then Inl OutOfBounds
     else or_loop ss (cur_pos + VALUE_SIZE) (data[i := data ! i OR w]))"

definition bm_and :: "bitmap \<Rightarrow> bitmap \<Rightarrow> bitmap result" where
  "bm_and a b =
    (if bm_size a \<noteq> bm_size b then Inl LogicError
     else if \<not> bm_compress a \<and> \<not> bm_compress b then
       (if length (bm_data b) < length (bm_data a) then Inl OutOfBounds
        else Inr (a\<lparr> bm_data := map2 (AND) (bm_data a) (bm_data b) \<rparr>))
     else if bm_compress a then Inl LogicError
     else bind_res (and_loop (segments (bm_data b)) 0 (bm_data a)) (\<lambda>d. Inr (a\<lparr> bm_data := d \<rparr>)))"

definition bm_or :: "bitmap \<Rightarrow> bitmap \<Rightarrow> bitmap result" where
  "bm_or a b =
    (if bm_size a \<noteq> bm_size b then Inl LogicError
     else if \<not> bm_compress a \<and> \<not> bm_compress b then
       (if length (bm_data b) < length (bm_data a) then Inl OutOfBounds
        else Inr (a\<lparr> bm_data := map2 (OR) (bm_data a) (bm_data b) \<rparr>))
     else if bm_compress a then Inl LogicError
     else bind_res (or_loop (segments (bm_data b)) 0 (bm_data a)) (\<lambda>d. Inr (a\<lparr> bm_data := d \<rparr>)))"

definition bm_not :: "bitmap \<Rightarrow> bitmap" where
  "bm_not b =
    (if \<not> bm_compress b then b\<lparr> bm_data := map NOT (bm_data b) \<rparr>
     else b\<lparr> bm_data := map (\<lambda>cur. if is_run cur
            then (if run_value cur then cur AND NOT VALUE_MASK else cur OR VALUE_MASK)
            else NOT cur AND COUNT_MASK) (bm_data b) \<rparr>)"

definition bm_eq :: "bitmap \<Rightarrow> bitmap \<Rightarrow> bool" where
  "bm_eq a b \<longleftrightarrow>
    bm_compress a = bm_compress b \<and> bm_size a = bm_size b \<and> length (bm_data a) = length (bm_data b) \<and>
    bm_data a = bm_data b \<and>
    (let left = bm_size a mod VALUE_SIZE in
     left \<noteq> 0 \<longrightarrow> last (bm_data a) AND MASK left = last (bm_data b) AND MASK left)"

fun cross_loop :: "w16 list \<Rightarrow> segment list \<Rightarrow> nat \<Rightarrow> bool result" where
  "cross_loop data [] cur_pos = Inr False"
| "cross_loop data (Run v count # ss) cur_pos =
    (if v then bind_res (get_range cur_pos count True data) (\<lambda>r. if r then Inr True else cross_loop data ss (cur_pos + count))
     else cross_loop data ss (cur_pos + count))"
| "cross_loop data (Plain w # ss) cur_pos =
    (let i = cur_pos div VALUE_SIZE in
     if length data \<le> i then Inl OutOfBounds
     else if data ! i AND w \<noteq> 0 then Inr True else cross_loop data ss (cur_pos + VALUE_SIZE))"

definition normalCross :: "bitmap \<Rightarrow> bitmap \<Rightarrow> bool result" where
  "normalCross a b =
    (if length (bm_data b) < length (bm_data a) then Inl OutOfBounds
     else Inr (list_ex (\<lambda>(x, y). x AND y \<noteq> 0) (zip (bm_data a) (bm_data b))))"

definition bm_cross :: "bitmap \<Rightarrow> bitmap \<Rightarrow> bool result" where
  "bm_cross a b =
    (if \<not> bm_compress a \<and> bm_compress b then cross_loop (bm_data a) (segments (bm_data b)) 0
     else if \<not> bm_compress a \<and> \<not> bm_compress b then normalCross a b
     else Inr False)"

section \<open>Queries\<close>

text \<open>In the compressed branch of \<open>any\<close> a word is stored into a byte first.\<close>

definition bm_any :: "bitmap \<Rightarrow> bool" where
  "bm_any b =
    (if bm_data b = [] then False
     else if \<not> bm_compress b then
       list_ex (\<lambda>w. w \<noteq> 0) (butlast (bm_data b)) \<or> last (bm_data b) AND MASK (bm_size b mod VALUE_SIZE) \<noteq> 0
     else list_ex (\<lambda>w. let cur = ucast (ucast w :: byte) :: w16 in
            if cur AND COMPRESS_MASK \<noteq> 0 then cur AND VALUE_MASK \<noteq> 0 else cur \<noteq> 0) (bm_data b))"

text \<open>A growing bitmap writes the last old word, which does not exist in an empty one.\<close>

definition bm_resize :: "nat \<Rightarrow> bool \<Rightarrow> bitmap \<Rightarrow> bitmap result" where
  "bm_resize sz v b =
    (if bm_compress b then Inl LogicError
     else let len = ceil_div sz VALUE_SIZE; n = length (bm_data b); left = bm_size b mod VALUE_SIZE in
       if n < len then
         (if n = 0 then Inl OutOfBounds
          else let d = bm_data b @ replicate (len - n) (if v then -1 else 0);
                   w = (if v then d ! (n - 1) OR MASK left else d ! (n - 1) AND MASK left)
               in Inr (b\<lparr> bm_data := d[n - 1 := w], bm_size := sz \<rparr>))
       else Inr (b\<lparr> bm_data := take len (bm_data b), bm_size := sz \<rparr>))"

definition word_positions :: "nat \<Rightarrow> w16 \<Rightarrow> nat \<Rightarrow> nat list" where
  "word_positions sz w cur_pos =
    map (\<lambda>n. cur_pos + n) (filter (\<lambda>n. w AND POS n \<noteq> 0) [0..<min VALUE_SIZE (sz - cur_pos)])"

fun list_words :: "nat \<Rightarrow> w16 list \<Rightarrow> nat \<Rightarrow> nat list" where
  "list_words sz [] cur_pos = []"
| "list_words sz (w # ws) cur_pos =
    (if w = 0 then list_words sz ws (cur_pos + VALUE_SIZE)
     else word_positions sz w cur_pos @ list_words sz ws (cur_pos + min VALUE_SIZE (sz - cur_pos)))"

definition listPosAsc :: "bitmap \<Rightarrow> nat list" where
  "listPosAsc b = list_words (bm_size b) (bm_data b) 0"

text \<open>The positions the callback is called with, up to the first for which it returns false.\<close>

fun visit :: "(nat \<Rightarrow> bool) \<Rightarrow> nat list \<Rightarrow> nat list" where
  "visit cb [] = []"
| "visit cb (p # ps) = p # (if cb p then visit cb ps else [])"

definition bm_foreach :: "(nat \<Rightarrow> bool) \<Rightarrow> bitmap \<Rightarrow> nat list" where
  "bm_foreach cb b = visit cb (listPosAsc b)"

definition getCount :: "bitmap \<Rightarrow> nat" where
  "getCount b =
    (if \<not> bm_compress b then
       (let len = length (bm_data b) div U64_DIV_BASE; whole = take (len * U64_DIV_BASE) (bm_data b) in
        sum_list (map count_bits whole)
        + length (list_words (bm_size b) (drop (len * U64_DIV_BASE) (bm_data b)) (len * U64_VALUE_SIZE)))
     else sum_list (map (\<lambda>w. if is_run w then (if run_value w then unat (w AND COUNT_MASK) else 0) else count_bits w) (bm_data b)))"

section \<open>In a byte array\<close>

text \<open>The words are written as they are in memory, of a little-endian host, whatever the order of the array.\<close>

definition bm_writeTo :: "bitmap \<Rightarrow> bytearray \<Rightarrow> bytearray result" where
  "bm_writeTo b ba =
    bind_res (write_int (if bm_compress b then 1 else 0 :: byte) ba) (\<lambda>ba.
    bind_res (write_int (of_nat (bm_size b) :: u32) ba) (\<lambda>ba.
    bind_res (write_int (of_nat (length (bm_data b)) :: u32) ba) (\<lambda>ba.
    ba_write (concat (map le_bytes (bm_data b))) ba)))"

fun words_of :: "byte list \<Rightarrow> w16 list" where
  "words_of (x # y # bs) = of_le_bytes [x, y] # words_of bs"
| "words_of bs = []"

text \<open>An exception of the array makes \<open>readFrom\<close> return false; the object is then half assigned.\<close>

definition bm_readFrom :: "bytearray \<Rightarrow> (bitmap \<times> bytearray) result" where
  "bm_readFrom ba =
    bind_res (read_int ba) (\<lambda>(c :: byte, ba).
    bind_res (read_int ba) (\<lambda>(sz :: u32, ba).
    bind_res (read_int ba) (\<lambda>(n :: u32, ba).
    bind_res (ba_read (unat n * 2) ba) (\<lambda>(bs, ba).
    Inr (\<lparr> bm_compress = (c \<noteq> 0), bm_size = unat sz, bm_data = words_of bs \<rparr>, ba)))))"

section \<open>Masks\<close>

definition clean :: "w16 \<Rightarrow> bool" where
  "clean w \<longleftrightarrow> w AND COUNT_MASK = w"

lemma COUNT_MASK_eq: "COUNT_MASK = mask 14"
  by (simp add: COUNT_MASK_def mask_eq_exp_minus_1)

lemma and_pos: "n < 16 \<Longrightarrow> w AND push_bit n 1 \<noteq> (0 :: w16) \<longleftrightarrow> bit w n"
  using and_exp_eq_0_iff_not_bit [of w n] by (simp add: push_bit_of_1)

lemma is_run_bit: "is_run w \<longleftrightarrow> bit w 15" and run_value_bit: "run_value w \<longleftrightarrow> bit w 14"
  by (simp_all only: is_run_def run_value_def COMPRESS_MASK_def VALUE_MASK_def and_pos)

lemma bit_COUNT_MASK: "bit COUNT_MASK n \<longleftrightarrow> n < 14"
  by (auto simp: COUNT_MASK_eq bit_mask_iff)

lemma bit_COMPRESS_MASK: "bit COMPRESS_MASK n \<longleftrightarrow> n = 15" and bit_VALUE_MASK: "bit VALUE_MASK n \<longleftrightarrow> n = 14"
  by (auto simp only: COMPRESS_MASK_def VALUE_MASK_def push_bit_of_1 bit_exp_iff possible_bit_word) simp_all

lemma clean_iff: "clean w \<longleftrightarrow> \<not> bit w 14 \<and> \<not> bit w 15"
proof
  assume "clean w"
  then have "bit w n \<longleftrightarrow> bit w n \<and> n < 14" for n using bit_and_iff [of w COUNT_MASK n] by (simp add: clean_def bit_COUNT_MASK)
  from this [of 14] this [of 15] show "\<not> bit w 14 \<and> \<not> bit w 15" by simp
next
  assume b: "\<not> bit w 14 \<and> \<not> bit w 15"
  show "clean w" unfolding clean_def
  proof (rule bit_word_eqI)
    fix n assume "n < LENGTH(16)"
    then have "n < 14 \<or> n = 14 \<or> n = 15" by auto
    then show "bit (w AND COUNT_MASK) n = bit w n" using b by (auto simp: bit_and_iff bit_COUNT_MASK)
  qed
qed

lemma clean_not_run: "clean w \<Longrightarrow> \<not> is_run w"
  by (simp add: clean_iff is_run_bit)

lemma clean_fill: "clean (fill v)"
  by (simp add: clean_def fill_def)

lemma count_bits_filter: "count_bits (w AND COUNT_MASK) = length (filter (bit w) [0..<14])"
proof -
  have "[0..<16] = [0..<14] @ [14, 15]" by (simp add: upt_rec)
  then have "filter (bit (w AND COUNT_MASK)) [0..<16] = filter (bit w) [0..<14]"
    by (auto simp: bit_and_iff bit_COUNT_MASK intro: filter_cong)
  then show ?thesis by (simp add: count_bits_def)
qed

lemma masked_eq_iff: "w AND COUNT_MASK = u AND COUNT_MASK \<longleftrightarrow> (\<forall>n < 14. bit w n = bit u n)"
proof
  assume e: "w AND COUNT_MASK = u AND COUNT_MASK"
  have "bit w n = bit u n" if "n < 14" for n
    using arg_cong [OF e, of "\<lambda>x. bit x n"] that by (simp add: bit_and_iff bit_COUNT_MASK)
  then show "\<forall>n < 14. bit w n = bit u n" by blast
next
  assume "\<forall>n < 14. bit w n = bit u n"
  then show "w AND COUNT_MASK = u AND COUNT_MASK" by (intro bit_word_eqI) (auto simp: bit_and_iff bit_COUNT_MASK)
qed

lemma count_bits_0: "count_bits (w AND COUNT_MASK) = 0 \<longleftrightarrow> w AND COUNT_MASK = 0"
proof -
  have "w AND COUNT_MASK = 0 \<longleftrightarrow> (\<forall>n < 14. \<not> bit w n)"
    using masked_eq_iff [of w 0] by simp
  then show ?thesis unfolding count_bits_filter by (auto simp: filter_empty_conv)
qed

lemma count_bits_full: "count_bits (w AND COUNT_MASK) = VALUE_SIZE \<longleftrightarrow> w AND COUNT_MASK = COUNT_MASK"
proof -
  have all: "length (filter (bit w) [0..<14]) = 14 \<longleftrightarrow> (\<forall>n < 14. bit w n)"
  proof
    assume "length (filter (bit w) [0..<14]) = 14"
    then have "n \<in> set [0..<14] \<Longrightarrow> bit w n" for n using length_filter_less [of n "[0..<14]" "bit w"] by auto
    then show "\<forall>n < 14. bit w n" by simp
  next
    assume "\<forall>n < 14. bit w n"
    then have "filter (bit w) [0..<14] = [0..<14]" by (intro filter_True) simp
    then show "length (filter (bit w) [0..<14]) = 14" by (simp only: length_upt)
  qed
  have "w AND COUNT_MASK = COUNT_MASK \<longleftrightarrow> (\<forall>n < 14. bit w n)"
    using masked_eq_iff [of w COUNT_MASK] by (simp add: bit_COUNT_MASK)
  then show ?thesis unfolding count_bits_filter VALUE_SIZE_def all by simp
qed

section \<open>Runs\<close>

definition no_run :: "bool \<Rightarrow> w16 list \<Rightarrow> bool" where
  "no_run v xs \<longleftrightarrow> (case xs of [] \<Rightarrow> True | x # _ \<Rightarrow> \<not> (is_run x \<and> run_value x = v))"

definition run_word :: "bool \<Rightarrow> nat \<Rightarrow> w16" where
  "run_word v n = COMPRESS_MASK OR (if v then VALUE_MASK else 0) OR (of_nat n AND COUNT_MASK)"

lemma run_words_pos: "0 < n \<Longrightarrow> run_words v n = run_word v n # run_words v (n div 2 ^ 14)"
  by (simp add: run_words.simps [of v n] run_word_def VALUE_SIZE_def)

lemma run_words_0: "run_words v 0 = []"
  by (simp add: run_words.simps)

lemma run_word_simps:
  "is_run (run_word v n)" "run_value (run_word v n) = v" "unat (run_word v n AND COUNT_MASK) = n mod 2 ^ 14"
proof -
  show "is_run (run_word v n)" "run_value (run_word v n) = v"
    by (auto simp: is_run_bit run_value_bit run_word_def bit_or_iff bit_and_iff bit_COMPRESS_MASK bit_VALUE_MASK bit_COUNT_MASK)
  have "run_word v n AND COUNT_MASK = of_nat n AND COUNT_MASK"
    by (rule bit_word_eqI)
       (auto simp: run_word_def bit_or_iff bit_and_iff bit_COMPRESS_MASK bit_VALUE_MASK bit_COUNT_MASK)
  also have "\<dots> = take_bit 14 (of_nat n)" by (simp only: COUNT_MASK_eq take_bit_eq_mask)
  finally have "unat (run_word v n AND COUNT_MASK) = take_bit 14 (take_bit 16 n)"
    by (simp only: unsigned_take_bit_eq unsigned_of_nat) simp
  then show "unat (run_word v n AND COUNT_MASK) = n mod 2 ^ 14" by (simp only: take_bit_take_bit take_bit_eq_mod) (simp add: mod_mod_cancel)
qed

lemma join_run_words:
  "c < 2 ^ (14 * k) \<Longrightarrow> m * 2 ^ (14 * k) + c < 2 ^ 32 \<Longrightarrow> no_run v rest \<Longrightarrow>
   join_run v k c (run_words v m @ rest) = (m * 2 ^ (14 * k) + c, rest)"
proof (induction m arbitrary: k c rule: less_induct)
  case (less m)
  show ?case
  proof (cases "m = 0")
    case True
    then show ?thesis using less.prems(3) by (cases rest) (auto simp: run_words_0 no_run_def)
  next
    case False
    let ?q = "m div 2 ^ 14" and ?r = "m mod 2 ^ 14"
    have m: "m = ?q * 2 ^ 14 + ?r" by simp
    have e: "m * 2 ^ (14 * k) = ?q * 2 ^ (14 * Suc k) + ?r * 2 ^ (14 * k)"
      using arg_cong [OF m, of "\<lambda>x. x * 2 ^ (14 * k)"] by (simp only: distrib_right mult_Suc_right power_add mult.assoc)
    have small: "(?r * 2 ^ (14 * k)) mod 2 ^ 32 = ?r * 2 ^ (14 * k)" using less.prems(2) e by simp
    have o: "(?r * 2 ^ (14 * k)) mod 2 ^ 32 OR c = ?r * 2 ^ (14 * k) + c"
      unfolding small using or_add [OF less.prems(1), of ?r] by (simp add: push_bit_eq_mult)
    have "?r < 2 ^ 14" by simp
    then have "(?r + 1) * 2 ^ (14 * k) \<le> 2 ^ 14 * 2 ^ (14 * k)" by (intro mult_right_mono) simp_all
    also have "\<dots> = 2 ^ (14 * Suc k)" by (simp add: power_add)
    finally have c': "?r * 2 ^ (14 * k) + c < 2 ^ (14 * Suc k)"
      unfolding distrib_right mult_1 by (rule less_le_trans [OF add_strict_left_mono [OF less.prems(1)]])
    have "join_run v (Suc k) (?r * 2 ^ (14 * k) + c) (run_words v ?q @ rest) = (?q * 2 ^ (14 * Suc k) + (?r * 2 ^ (14 * k) + c), rest)"
      by (rule less.IH) (use False c' less.prems(2,3) e in simp_all)
    then show ?thesis
      using False e o by (simp add: run_words_pos run_word_simps VALUE_SIZE_def add.assoc del: power_Suc mult_Suc_right)
  qed
qed

lemma segments_plain: "clean w \<Longrightarrow> segments (w # ws) = Plain w # segments ws"
  by (simp add: segments.simps(2) clean_not_run) (simp add: clean_def)

lemma segments_flush:
  assumes "no_run v rest" "n < 2 ^ 32"
  shows "segments (flush_run v n @ rest) =
    (if 1 < n div 14 then [Run v n] else if n \<noteq> 0 then [Plain (fill v)] else []) @ segments rest"
proof (cases "1 < n div 14")
  case True
  then have n: "0 < n" by (cases n) auto
  have "join_run v 1 (n mod 2 ^ 14) (run_words v (n div 2 ^ 14) @ rest) = (n div 2 ^ 14 * 2 ^ (14 * 1) + n mod 2 ^ 14, rest)"
    by (rule join_run_words) (use assms in simp_all)
  then show ?thesis
    using True n by (simp add: flush_run_def VALUE_SIZE_def run_words_pos segments.simps(2) run_word_simps)
qed (simp add: flush_run_def VALUE_SIZE_def segments_plain clean_fill)

lemma no_run_flush: "n \<noteq> 0 \<Longrightarrow> v \<noteq> u \<Longrightarrow> no_run u (flush_run v n @ xs)"
  using clean_not_run [OF clean_fill]
  by (auto simp: flush_run_def VALUE_SIZE_def run_words_pos no_run_def run_word_simps)

lemma no_run_compress: "n \<noteq> 0 \<Longrightarrow> v \<noteq> u \<Longrightarrow> no_run u (compress_loop v n ws)"
proof (induction v n ws rule: compress_loop.induct)
  case (1 v n)
  then show ?case using no_run_flush [of n v u "[]"] by simp
next
  case (2 v n cur ws)
  then show ?case by (auto simp: Let_def no_run_flush VALUE_SIZE_def)
qed

section \<open>What compressed data stands for\<close>

fun expand :: "segment list \<Rightarrow> w16 list" where
  "expand [] = []"
| "expand (Run v n # ss) = replicate (n div 14) (fill v) @ expand ss"
| "expand (Plain w # ss) = w # expand ss"

fun seg_ok :: "segment \<Rightarrow> bool" where
  "seg_ok (Run v n) \<longleftrightarrow> n mod 14 = 0 \<and> n \<noteq> 0"
| "seg_ok (Plain w) \<longleftrightarrow> True"

lemma expand_append: "expand (xs @ ys) = expand xs @ expand ys"
  by (induction xs rule: expand.induct) simp_all

lemma expand_flush:
  assumes "no_run v rest" "n < 2 ^ 32" "n mod 14 = 0"
  shows "expand (segments (flush_run v n @ rest)) = replicate (n div 14) (fill v) @ expand (segments rest)"
    and "list_all seg_ok (segments rest) \<Longrightarrow> list_all seg_ok (segments (flush_run v n @ rest))"
proof -
  have one: "n \<noteq> 0 \<Longrightarrow> \<not> 1 < n div 14 \<Longrightarrow> n div 14 = 1" using assms(3) by (cases "n div 14") auto
  then show "expand (segments (flush_run v n @ rest)) = replicate (n div 14) (fill v) @ expand (segments rest)"
    by (auto simp: segments_flush [OF assms(1,2)] expand_append)
  show "list_all seg_ok (segments rest) \<Longrightarrow> list_all seg_ok (segments (flush_run v n @ rest))"
    using assms(3) by (auto simp: segments_flush [OF assms(1,2)])
qed

lemma expand_compress:
  "list_all clean ws \<Longrightarrow> n mod 14 = 0 \<Longrightarrow> n + 14 * length ws < 2 ^ 32 \<Longrightarrow>
   expand (segments (compress_loop v n ws)) = replicate (n div 14) (fill v) @ ws \<and>
   list_all seg_ok (segments (compress_loop v n ws))"
proof (induction v n ws rule: compress_loop.induct)
  case (1 v n)
  then show ?case using expand_flush [of v "[]" n] by (simp add: no_run_def)
next
  case (2 v n cur ws)
  have cur: "cur AND COUNT_MASK = cur" and cl: "clean cur" "list_all clean ws" using 2(4) by (auto simp: clean_def [of cur])
  define c where "c = count_bits (cur AND COUNT_MASK)"
  have zero: "c = 0 \<longleftrightarrow> cur = fill False" and full: "c = 14 \<longleftrightarrow> cur = fill True"
    using count_bits_0 [of cur] count_bits_full [of cur] cur by (simp_all add: c_def fill_def VALUE_SIZE_def)
  have lim: "n < 2 ^ 32" "14 + 14 * length ws < 2 ^ 32" "n + 14 + 14 * length ws < 2 ^ 32" using 2(6) by simp_all
  consider (grow) "c = 0 \<and> \<not> v \<or> c = 14 \<and> v" | (turn) "\<not> (c = 0 \<and> \<not> v \<or> c = 14 \<and> v)" "c = 0 \<or> c = 14"
    | (mixed) "c \<noteq> 0" "c \<noteq> 14" by blast
  then show ?case
  proof cases
    case grow
    then have e: "compress_loop v n (cur # ws) = compress_loop v (n + 14) ws" by (auto simp: c_def [symmetric] VALUE_SIZE_def)
    have "cur = fill v" using grow zero full by auto
    moreover have "expand (segments (compress_loop v (n + 14) ws)) = replicate ((n + 14) div 14) (fill v) @ ws \<and>
        list_all seg_ok (segments (compress_loop v (n + 14) ws))"
      using 2(1) [OF c_def] grow cl 2(5) lim by (simp add: VALUE_SIZE_def)
    ultimately show ?thesis unfolding e by (simp add: div_add_self2 replicate_app_Cons_same)
  next
    case turn
    let ?r = "compress_loop (c = 14) 14 ws"
    have e: "compress_loop v n (cur # ws) = flush_run v n @ ?r" using turn by (auto simp: c_def [symmetric] VALUE_SIZE_def)
    have u: "(c = 14) \<noteq> v" "cur = fill (c = 14)" using turn zero full by auto
    have "expand (segments ?r) = replicate (14 div 14) (fill (c = 14)) @ ws \<and> list_all seg_ok (segments ?r)"
      using 2(2) [OF c_def] turn cl lim by (simp add: VALUE_SIZE_def)
    then show ?thesis unfolding e using expand_flush [OF no_run_compress [OF _ u(1)] lim(1) 2(5), of 14 ws] u(2) by simp
  next
    case mixed
    let ?r = "compress_loop v 0 ws"
    have e: "compress_loop v n (cur # ws) = flush_run v n @ (cur # ?r)" using mixed by (auto simp: c_def [symmetric] VALUE_SIZE_def)
    have nr: "no_run v (cur # ?r)" using clean_not_run [OF cl(1)] by (simp add: no_run_def)
    have "expand (segments ?r) = ws \<and> list_all seg_ok (segments ?r)"
      using 2(3) [OF c_def] mixed cl lim by (simp add: VALUE_SIZE_def)
    then show ?thesis unfolding e using expand_flush [OF nr lim(1) 2(5)] by (simp add: segments_plain [OF cl(1)])
  qed
qed

lemma run_words_length: "length (run_words v n) \<le> 1 + n div 2 ^ 14"
proof (induction n rule: less_induct)
  case (less n)
  show ?case
  proof (cases "n div 2 ^ 14 = 0")
    case True
    then show ?thesis by (cases "n = 0") (simp_all add: run_words_0 run_words_pos)
  next
    case False
    then have "length (run_words v (n div 2 ^ 14)) \<le> 1 + n div 2 ^ 14 div 2 ^ 14" by (intro less) (cases "n = 0", simp_all)
    moreover have "1 + n div 2 ^ 14 div 2 ^ 14 \<le> n div 2 ^ 14" using False by simp
    moreover have "0 < n" using False by (cases n) simp_all
    ultimately show ?thesis by (simp add: run_words_pos)
  qed
qed

lemma flush_length: "n mod 14 = 0 \<Longrightarrow> length (flush_run v n) \<le> n div 14"
proof -
  assume n: "n mod 14 = 0"
  have "n div 2 ^ 14 \<le> n div 28" by (intro div_le_mono2) simp_all
  also have "\<dots> = n div 14 div 2" by (simp add: div_mult2_eq [symmetric])
  finally have "length (run_words v n) \<le> 1 + n div 14 div 2" using run_words_length [of v n] by linarith
  moreover have "1 < n div 14 \<Longrightarrow> 1 + n div 14 div 2 \<le> n div 14" by linarith
  moreover have "n \<noteq> 0 \<Longrightarrow> 1 \<le> n div 14" using n by (cases "n div 14") auto
  ultimately show ?thesis by (auto simp: flush_run_def VALUE_SIZE_def)
qed

lemma compress_length: "n mod 14 = 0 \<Longrightarrow> length (compress_loop v n ws) \<le> n div 14 + length ws"
proof (induction v n ws rule: compress_loop.induct)
  case (1 v n)
  then show ?case by (simp add: flush_length)
next
  case (2 v n cur ws)
  then show ?case using flush_length [of n v] by (fastforce simp: Let_def VALUE_SIZE_def)
qed

section \<open>One pass over an operand\<close>

text \<open>The words from position \<open>i\<close> on combined with the words of the other operand.\<close>

definition combine :: "(w16 \<Rightarrow> w16 \<Rightarrow> w16) \<Rightarrow> w16 list \<Rightarrow> nat \<Rightarrow> w16 list \<Rightarrow> w16 list" where
  "combine f data i ys = overwrite data i (map2 f (drop i data) ys)"

lemma length_combine [simp]: "i + length ys \<le> length data \<Longrightarrow> length (combine f data i ys) = length data"
  by (simp add: combine_def overwrite_def)

lemma nth_combine:
  "i + length ys \<le> length data \<Longrightarrow> j < length data \<Longrightarrow>
   combine f data i ys ! j = (if i \<le> j \<and> j < i + length ys then f (data ! j) (ys ! (j - i)) else data ! j)"
  by (auto simp: combine_def overwrite_def nth_append min_def)

lemma combine_Nil [simp]: "combine f data i [] = data"
  by (simp add: combine_def overwrite_def)

lemma combine_append:
  assumes "i + length xs + length ys \<le> length data"
  shows "combine f data i (xs @ ys) = combine f (combine f data i xs) (i + length xs) ys"
  using assms by (intro nth_equalityI) (auto simp: nth_combine nth_append)

lemma combine_one: "i < length data \<Longrightarrow> combine f data i [y] = data[i := f (data ! i) y]"
  by (intro nth_equalityI) (auto simp: nth_combine nth_list_update)

lemma combine_replicate:
  assumes "i + n \<le> length data"
  shows "(\<And>x. x \<in> set data \<Longrightarrow> f x y = x) \<Longrightarrow> combine f data i (replicate n y) = data"
    and "(\<And>x. x \<in> set data \<Longrightarrow> f x y = y) \<Longrightarrow> combine f data i (replicate n y) = overwrite data i (replicate n y)"
  using assms by (auto intro!: nth_equalityI simp: nth_combine overwrite_def nth_append)

lemma set_range_aligned:
  assumes "pos mod 14 = 0" "n mod 14 = 0" "pos div 14 + n div 14 \<le> length data" "n \<noteq> 0"
  shows "set_range pos n v data = Inr (overwrite data (pos div 14) (replicate (n div 14) (fill v)))"
proof -
  have "(pos + n) div 14 = pos div 14 + n div 14" "(pos + n) mod 14 = 0" using assms by (auto simp: div_add1_eq)
  then show ?thesis using assms by (simp add: set_range_def VALUE_SIZE_def Let_def)
qed

text \<open>
  A loop over segments that acts on a run as on its words, and on a word by \<open>f\<close>, combines the data
  with the words the segments stand for.
\<close>

locale segment_pass =
  fixes f :: "w16 \<Rightarrow> w16 \<Rightarrow> w16" and ok :: "w16 \<Rightarrow> bool"
    and loop :: "segment list \<Rightarrow> nat \<Rightarrow> w16 list \<Rightarrow> w16 list result"
  assumes loop_Nil: "loop [] pos data = Inr data"
    and loop_Plain: "pos div 14 < length data \<Longrightarrow>
      loop (Plain w # ss) pos data = loop ss (pos + 14) (data[pos div 14 := f (data ! (pos div 14)) w])"
    and loop_Run: "list_all ok data \<Longrightarrow> pos mod 14 = 0 \<Longrightarrow> n mod 14 = 0 \<Longrightarrow> n \<noteq> 0 \<Longrightarrow>
      pos div 14 + n div 14 \<le> length data \<Longrightarrow>
      loop (Run v n # ss) pos data = loop ss (pos + n) (combine f data (pos div 14) (replicate (n div 14) (fill v)))"
    and ok_step: "ok x \<Longrightarrow> clean w \<Longrightarrow> ok (f x w)"
begin

lemma ok_combine: "list_all ok data \<Longrightarrow> list_all clean ys \<Longrightarrow> i + length ys \<le> length data \<Longrightarrow> list_all ok (combine f data i ys)"
  by (auto simp: list_all_length nth_combine intro!: ok_step)

lemma loop_combine:
  "list_all ok data \<Longrightarrow> list_all seg_ok ss \<Longrightarrow> list_all clean (expand ss) \<Longrightarrow> pos mod 14 = 0 \<Longrightarrow>
   pos div 14 + length (expand ss) \<le> length data \<Longrightarrow>
   loop ss pos data = Inr (combine f data (pos div 14) (expand ss))"
proof (induction ss arbitrary: pos data rule: expand.induct)
  case 1
  then show ?case by (simp add: loop_Nil)
next
  case (2 v n ss)
  let ?d = "combine f data (pos div 14) (replicate (n div 14) (fill v))"
  have n: "n mod 14 = 0" "n \<noteq> 0" using 2(3) by simp_all
  have p: "(pos + n) div 14 = pos div 14 + n div 14" "(pos + n) mod 14 = 0" using n 2(5) by (auto simp: div_add1_eq)
  have "list_all ok ?d" using 2 by (intro ok_combine) simp_all
  then have "loop ss (pos + n) ?d = Inr (combine f ?d ((pos + n) div 14) (expand ss))"
    using 2 p by (intro 2(1)) simp_all
  then show ?case
    using 2 n p by (simp add: loop_Run combine_append)
next
  case (3 w ss)
  let ?i = "pos div 14" and ?d = "combine f data (pos div 14) [w]"
  have p: "(pos + 14) div 14 = Suc ?i" "(pos + 14) mod 14 = 0" using 3(5) by simp_all
  have "list_all ok ?d" using 3 by (intro ok_combine) simp_all
  then have "loop ss (pos + 14) ?d = Inr (combine f ?d (Suc ?i) (expand ss))"
    unfolding p(1) [symmetric] using 3 p by (intro 3(1)) simp_all
  then show ?case
    using 3(6) combine_append [of ?i "[w]" "expand ss" data f] by (simp add: loop_Plain combine_one)
qed

lemma whole_pass:
  assumes "list_all ok data" "list_all clean ws" "length data = length ws" "14 * length ws < 2 ^ 32"
  shows "loop (segments (compress_loop False 0 ws)) 0 data = Inr (map2 f data ws)"
proof -
  have "expand (segments (compress_loop False 0 ws)) = ws" "list_all seg_ok (segments (compress_loop False 0 ws))"
    using expand_compress [of ws 0 False] assms by simp_all
  then show ?thesis using loop_combine [OF assms(1), of "segments (compress_loop False 0 ws)" 0] assms
    by (simp add: combine_def overwrite_def)
qed

end

interpretation upass: segment_pass "\<lambda>x w. w" "\<lambda>x. True" uncompress_loop
  by unfold_locales (simp_all add: VALUE_SIZE_def set_range_aligned combine_replicate)

interpretation apass: segment_pass "(AND)" clean and_loop
proof
  have f: "clean x \<Longrightarrow> x AND fill v = (if v then x else fill v)" for x v by (simp add: fill_def clean_def)
  show "and_loop (Run v n # ss) pos data = and_loop ss (pos + n) (combine (AND) data (pos div 14) (replicate (n div 14) (fill v)))"
    if "list_all clean data" "pos mod 14 = 0" "n mod 14 = 0" "n \<noteq> 0" "pos div 14 + n div 14 \<le> length data" for data pos n v ss
    using that combine_replicate [of "pos div 14" "n div 14" data "(AND)" "fill v"] f
    by (cases v) (auto simp: set_range_aligned list_all_iff)
  show "clean (x AND w)" if "clean x" for x w using that by (simp add: clean_iff bit_and_iff)
qed (simp_all add: VALUE_SIZE_def Let_def)

interpretation opass: segment_pass "(OR)" clean or_loop
proof
  have f: "clean x \<Longrightarrow> x OR fill v = (if v then fill v else x)" for x v
    using or.commute [of x] by (auto simp: fill_def clean_def intro!: bit_word_eqI simp: bit_or_iff bit_and_iff) (metis bit_and_iff)
  show "or_loop (Run v n # ss) pos data = or_loop ss (pos + n) (combine (OR) data (pos div 14) (replicate (n div 14) (fill v)))"
    if "list_all clean data" "pos mod 14 = 0" "n mod 14 = 0" "n \<noteq> 0" "pos div 14 + n div 14 \<le> length data" for data pos n v ss
    using that combine_replicate [of "pos div 14" "n div 14" data "(OR)" "fill v"] f
    by (cases v) (auto simp: set_range_aligned list_all_iff)
  show "clean (x OR w)" if "clean x" "clean w" for x w using that by (simp add: clean_iff bit_or_iff)
qed (simp_all add: VALUE_SIZE_def Let_def)

lemma get_range_aligned:
  assumes "pos mod 14 = 0" "n mod 14 = 0" "pos div 14 + n div 14 \<le> length data" "n \<noteq> 0"
  shows "get_range pos n True data = Inr (list_ex (\<lambda>w. w AND COUNT_MASK \<noteq> 0) (take (n div 14) (drop (pos div 14) data)))"
proof -
  have "(pos + n) div 14 = pos div 14 + n div 14" "(pos + n) mod 14 = 0" using assms by (auto simp: div_add1_eq)
  then show ?thesis using assms by (simp add: get_range_def VALUE_SIZE_def Let_def)
qed

definition meets :: "w16 list \<Rightarrow> w16 list \<Rightarrow> bool" where
  "meets xs ys \<longleftrightarrow> list_ex (\<lambda>(x, y). x AND y \<noteq> 0) (zip xs ys)"

lemma meets_replicate: "meets xs (replicate n y) = list_ex (\<lambda>x. x AND y \<noteq> 0) (take n xs)"
  by (simp add: meets_def zip_replicate2 list_ex_iff)

lemma meets_append: "meets xs (ys @ zs) \<longleftrightarrow> meets xs ys \<or> meets (drop (length ys) xs) zs"
proof -
  have "zip (take (length ys) xs) ys = zip xs ys" by (intro nth_equalityI) simp_all
  then show ?thesis by (simp add: meets_def zip_append2)
qed

lemma list_ex_never: "\<not> list_ex (\<lambda>x. False) xs"
  by (simp add: list_ex_iff)

lemma cross_loop_meets:
  "list_all seg_ok ss \<Longrightarrow> pos mod 14 = 0 \<Longrightarrow> pos div 14 + length (expand ss) \<le> length data \<Longrightarrow>
   cross_loop data ss pos = Inr (meets (drop (pos div 14) data) (expand ss))"
proof (induction ss arbitrary: pos rule: expand.induct)
  case 1
  then show ?case by (simp add: meets_def)
next
  case (2 v n ss)
  have n: "n mod 14 = 0" "n \<noteq> 0" using 2(2) by simp_all
  have p: "(pos + n) div 14 = pos div 14 + n div 14" "(pos + n) mod 14 = 0" using n 2(3) by (auto simp: div_add1_eq)
  have "cross_loop data ss (pos + n) = Inr (meets (drop ((pos + n) div 14) data) (expand ss))"
    using 2 p by (intro 2(1)) simp_all
  then show ?case
    using 2(3,4) n p by (cases v) (simp_all add: get_range_aligned meets_append meets_replicate fill_def list_ex_never add.commute)
next
  case (3 w ss)
  have p: "(pos + 14) div 14 = Suc (pos div 14)" by simp
  have "cross_loop data ss (pos + 14) = Inr (meets (drop ((pos + 14) div 14) data) (expand ss))"
    using 3 by (intro 3(1)) simp_all
  then show ?case
    using 3(4) p by (simp add: meets_def VALUE_SIZE_def Cons_nth_drop_Suc [symmetric] Let_def)
qed

section \<open>Plain bitmaps\<close>

text \<open>A bitmap of plain words: the words its size needs, with nothing above their 14 value bits.\<close>

definition plain :: "bitmap \<Rightarrow> bool" where
  "plain b \<longleftrightarrow> \<not> bm_compress b \<and> length (bm_data b) = ceil_div (bm_size b) VALUE_SIZE \<and> list_all clean (bm_data b) \<and>
     bm_size b + VALUE_SIZE \<le> 2 ^ 32"

lemma plain_length: "plain b \<Longrightarrow> 14 * length (bm_data b) < 2 ^ 32"
  using ceil_div_tight [of 14 "bm_size b"]
  by (cases "bm_size b = 0") (auto simp: plain_def VALUE_SIZE_def ceil_div_def)

lemma clean_replicate_0: "list_all clean (replicate n 0)"
  by (simp add: list_all_length clean_def)

lemma clean_POS: "n < 14 \<Longrightarrow> clean x \<Longrightarrow> clean (x OR POS n)" "clean x \<Longrightarrow> clean (x AND y)"
  by (auto simp: clean_iff bit_or_iff bit_and_iff POS_def push_bit_of_1 bit_exp_iff)

lemma clean_map2:
  assumes "\<And>x y. clean x \<Longrightarrow> clean y \<Longrightarrow> clean (f x y)"
  shows "list_all clean xs \<Longrightarrow> list_all clean ys \<Longrightarrow> list_all clean (map2 f xs ys)"
  using assms by (auto simp: list_all_length)

text \<open>
  A new bitmap of zeros is plain, and setting or clearing a bit, and the intersection and union
  with a plain bitmap, keep it plain.
\<close>

lemma bitmap_plain_kept:
  "(sz + VALUE_SIZE \<le> 2 ^ 32 \<longrightarrow> plain (new_Bitmap sz 0)) \<and>
   (plain a \<longrightarrow> bm_set i v a = Inr a' \<longrightarrow> plain a') \<and>
   (plain a \<longrightarrow> plain b \<longrightarrow> bm_and a b = Inr c \<longrightarrow> plain c) \<and>
   (plain a \<longrightarrow> plain b \<longrightarrow> bm_or a b = Inr d \<longrightarrow> plain d)"
proof (intro conjI impI)
  show "plain (new_Bitmap sz 0)" if "sz + VALUE_SIZE \<le> 2 ^ 32"
    using that by (simp add: plain_def new_Bitmap_def clean_replicate_0)
  show "plain a'" if "plain a" "bm_set i v a = Inr a'"
    using that by (auto simp: plain_def bm_set_def Let_def list_all_length nth_list_update clean_POS VALUE_SIZE_def split: if_splits)
  show "plain c" if "plain a" "plain b" "bm_and a b = Inr c"
    using that by (auto simp: plain_def bm_and_def split: if_splits intro!: clean_map2 clean_POS(2))
  show "plain d" if "plain a" "plain b" "bm_or a b = Inr d"
    using that by (auto simp: plain_def bm_or_def split: if_splits intro!: clean_map2 opass.ok_step)
qed

section \<open>Round trip through a byte array\<close>

definition head_fields :: "bitmap \<Rightarrow> field list" where
  "head_fields b = [FInt8 (if bm_compress b then 1 else 0), FInt32 (of_nat (bm_size b)), FInt32 (of_nat (length (bm_data b)))]"

definition bm_bytes :: "endian \<Rightarrow> bitmap \<Rightarrow> byte list" where
  "bm_bytes e b = concat (map (field_bytes e) (head_fields b)) @ concat (map le_bytes (bm_data b))"

definition bm_fits :: "bitmap \<Rightarrow> bool" where
  "bm_fits b \<longleftrightarrow> bm_size b < 2 ^ 32 \<and> bm_data b \<noteq> [] \<and> length (bm_data b) < 2 ^ 32"

lemma head_fields_ok: "list_all field_ok (head_fields b)"
  by (simp add: head_fields_def)

lemma writeTo_fields: "bm_writeTo b ba = bind_res (write_fields (head_fields b) ba) (ba_write (concat (map le_bytes (bm_data b))))"
  by (simp add: bm_writeTo_def head_fields_def bind_res_def split: sum.splits)

lemma readFrom_fields:
  assumes "read_fields (map field_kind (head_fields b)) ba = Inr (head_fields b, ba')"
  shows "bm_readFrom ba = bind_res (ba_read (unat (of_nat (length (bm_data b)) :: u32) * 2) ba') (\<lambda>(bs, ba).
    Inr (\<lparr> bm_compress = bm_compress b, bm_size = unat (of_nat (bm_size b) :: u32), bm_data = words_of bs \<rparr>, ba))"
  using assms by (auto simp: bm_readFrom_def head_fields_def map_fst_res_def bind_res_def split: sum.splits prod.splits if_splits)

lemma words_of_bytes: "words_of (concat (map le_bytes ws)) = ws"
proof (induction ws)
  case (Cons w ws)
  have "length (le_bytes w) = Suc (Suc 0)" by simp
  then obtain x y where xy: "le_bytes w = [x, y]" unfolding length_Suc_conv by auto
  then have "of_le_bytes [x, y] = w" using of_le_bytes_le_bytes [of w] by simp
  then show ?case using Cons xy by simp
qed simp

lemma length_word_bytes: "length (concat (map le_bytes (ws :: w16 list))) = length ws * 2"
  by (induction ws) simp_all

interpretation bmc: byte_codec bm_writeTo bm_readFrom bm_bytes bm_fits
proof
  fix b :: bitmap and ba :: bytearray
  let ?h = "concat (map (field_bytes (ba_endian ba)) (head_fields b))" and ?d = "concat (map le_bytes (bm_data b))"
  assume wf: "ba_wf ba"
  obtain ba1 where b1: "write_fields (head_fields b) ba = Inr ba1" "ba_wf ba1" "ba_endian ba1 = ba_endian ba"
      "ba_position ba1 = ba_position ba + length ?h" "ba_data ba1 = overwrite (ba_data ba) (ba_position ba) ?h"
    using write_fields_law [OF head_fields_ok wf] by blast
  obtain ba2 where "ba_write ?d ba1 = Inr ba2" "ba_wf ba2" "ba_endian ba2 = ba_endian ba1"
      "ba_data ba2 = overwrite (ba_data ba1) (ba_position ba1) ?d" "ba_position ba2 = ba_position ba1 + length ?d"
    using ba.put_law [OF b1(2)] by blast
  then show "\<exists>ba'. bm_writeTo b ba = Inr ba' \<and> ba_wf ba' \<and> ba_endian ba' = ba_endian ba \<and>
      ba_position ba' = ba_position ba + length (bm_bytes (ba_endian ba) b) \<and>
      ba_data ba' = overwrite (ba_data ba) (ba_position ba) (bm_bytes (ba_endian ba) b)"
    using b1 overwrite_split [OF ba.pos_le [OF wf], of ?h ?d] by (simp add: writeTo_fields bm_bytes_def)
next
  fix b :: bitmap and ba :: bytearray and ys
  let ?h = "concat (map (field_bytes (ba_endian ba)) (head_fields b))" and ?d = "concat (map le_bytes (bm_data b))"
  assume fits: "bm_fits b" and up: "ba.upcoming ba (bm_bytes (ba_endian ba) b @ ys)"
  obtain ba1 where b1: "read_fields (map field_kind (head_fields b)) ba = Inr (head_fields b, ba1)" "ba.upcoming ba1 (?d @ ys)"
      "ba_endian ba1 = ba_endian ba" "ba_data ba1 = ba_data ba" "ba_position ba1 = ba_position ba + length ?h"
    using read_fields_law [OF head_fields_ok, of ba b "?d @ ys"] up by (auto simp: bm_bytes_def)
  have "?d \<noteq> []" using fits length_word_bytes [of "bm_data b"] unfolding bm_fits_def by (metis length_0_conv mult_eq_0_iff zero_neq_numeral)
  then obtain ba2 where b2: "ba_read (length ?d) ba1 = Inr (?d, ba2)" "ba.upcoming ba2 ys" "ba_endian ba2 = ba_endian ba1"
      "ba_data ba2 = ba_data ba1" "ba_position ba2 = ba_position ba1 + length ?d"
    using ba.get_upcoming [OF b1(2)] by blast
  have "bm_readFrom ba = Inr (b, ba2)"
    using readFrom_fields [OF b1(1)] b2(1) fits
    by (cases b) (simp add: length_word_bytes words_of_bytes bm_fits_def unat_word_of_nat del: length_concat)
  then show "\<exists>ba'. bm_readFrom ba = Inr (b, ba') \<and> ba.upcoming ba' ys \<and> ba_endian ba' = ba_endian ba \<and>
      ba_data ba' = ba_data ba \<and> ba_position ba' = ba_position ba + length (bm_bytes (ba_endian ba) b)"
    using b1 b2 by (simp add: bm_bytes_def)
qed

text \<open>
  A bitmap, compressed or not, written into a well-formed byte array is read back from where it was
  written.
\<close>

lemma bitmap_stored:
  assumes "bm_fits b" "ba_wf ba"
  shows "\<exists>ba1 ba2 ba3. bm_writeTo b ba = Inr ba1 \<and> setPosition (ba_position ba) ba1 = Inr ba2 \<and>
    bm_readFrom ba2 = Inr (b, ba3) \<and> ba_position ba3 = ba_position ba1 \<and> ba_data ba3 = ba_data ba1"
  by (rule bmc.round_trip [OF assms])

section \<open>Defects on concrete bitmaps\<close>

text \<open>
  The complement of an uncompressed bitmap sets the two bits above the values as well, so that
  compressing it writes words that are then read as runs.
\<close>

lemma complement_breaks_compression:
  "uncompress (bm_compressed (bm_not \<lparr> bm_compress = False, bm_size = 14, bm_data = [1] \<rparr>)) = Inl AssertFailed"
proof -
  have c: "count_bits (- 2 AND COUNT_MASK) \<noteq> 0" "count_bits (- 2 AND COUNT_MASK) \<noteq> 14"
    using count_bits_0 [of "- 2"] count_bits_full [of "- 2"] by (simp_all add: COUNT_MASK_def VALUE_SIZE_def)
  have "bm_data (bm_compressed (bm_not \<lparr> bm_compress = False, bm_size = 14, bm_data = [1] \<rparr>)) = [- 2]"
    using c by (simp add: bm_compressed_def bm_not_def flush_run_def VALUE_SIZE_def Let_def)
  moreover have "segments [- 2] = [Run True 16382]"
    by (simp add: segments.simps(2) is_run_def run_value_def COMPRESS_MASK_def VALUE_MASK_def COUNT_MASK_def)
  ultimately show ?thesis by (simp add: uncompress_def bm_compressed_def bm_not_def set_range_def VALUE_SIZE_def)
qed

text \<open>\<open>any\<close> masks the last word with the bits left over by whole words, none when the size is a multiple of 14.\<close>

lemma any_misses_full_last_word: "bm_any \<lparr> bm_compress = False, bm_size = 14, bm_data = [0x3FFF] \<rparr> = False"
  by (simp add: bm_any_def MASK_def POS_def VALUE_SIZE_def)

text \<open>In compressed data it sees the low byte of a word only, here of the length of a run of zeros.\<close>

lemma any_of_empty: "bm_any (bm_compressed (new_Bitmap 28 0))"
proof -
  have two: "replicate 2 x = [x, x]" for x :: w16 by (simp add: numeral_2_eq_2)
  have "count_bits (0 AND COUNT_MASK) = 0" using count_bits_0 [of 0] by simp
  then have "bm_data (bm_compressed (new_Bitmap 28 0)) = [run_word False 28]"
    by (simp add: bm_compressed_def new_Bitmap_def ceil_div_def VALUE_SIZE_def two flush_run_def run_words_pos run_words_0)
  moreover have "run_word False 28 = 0x801C" by (simp add: run_word_def COMPRESS_MASK_def COUNT_MASK_def)
  ultimately show ?thesis by (simp add: bm_any_def bm_compressed_def COMPRESS_MASK_def new_Bitmap_def)
qed

text \<open>Growing a bitmap whose size is a multiple of 14 clears its last word.\<close>

lemma resize_loses_last_word:
  "bm_resize 28 False \<lparr> bm_compress = False, bm_size = 14, bm_data = [5] \<rparr> = Inr \<lparr> bm_compress = False, bm_size = 28, bm_data = [0, 0] \<rparr>"
  by (simp add: bm_resize_def ceil_div_def MASK_def POS_def VALUE_SIZE_def)

section \<open>Properties\<close>

text \<open>
  C16: Compressing a plain bitmap never writes more words than the bitmap has, the size of the buffer
  it writes into, and uncompressing the result gives the bitmap back.
\<close>

theorem bitmap_compress_round_trip:
  assumes "plain b"
  shows "length (bm_data (bm_compressed b)) \<le> length (bm_data b) \<and> uncompress (bm_compressed b) = Inr b"
proof
  have b: "\<not> bm_compress b" "list_all clean (bm_data b)" "length (bm_data b) = ceil_div (bm_size b) VALUE_SIZE"
    using assms by (simp_all add: plain_def)
  show "length (bm_data (bm_compressed b)) \<le> length (bm_data b)"
    using compress_length [of 0 False "bm_data b"] b(1) by (simp add: bm_compressed_def)
  have "uncompress_loop (segments (compress_loop False 0 (bm_data b))) 0 (replicate (length (bm_data b)) 0)
      = Inr (map2 (\<lambda>x w. w) (replicate (length (bm_data b)) (0 :: w16)) (bm_data b))"
    using b plain_length [OF assms] by (intro upass.whole_pass) (simp_all add: list_all_iff)
  then show "uncompress (bm_compressed b) = Inr b"
    using b by (cases b) (simp add: uncompress_def bm_compressed_def new_Bitmap_def map_snd_zip [unfolded snd_def])
qed

theorem bitmap_compress_round_trip_witness:
  "length (bm_data (bm_compressed \<lparr> bm_compress = False, bm_size = 70, bm_data = [0, 0, 0, 5, 0x3FFF] \<rparr>)) \<le> 5 \<and>
   uncompress (bm_compressed \<lparr> bm_compress = False, bm_size = 70, bm_data = [0, 0, 0, 5, 0x3FFF] \<rparr>)
     = Inr \<lparr> bm_compress = False, bm_size = 70, bm_data = [0, 0, 0, 5, 0x3FFF] \<rparr>"
  using bitmap_compress_round_trip [of "\<lparr> bm_compress = False, bm_size = 70, bm_data = [0, 0, 0, 5, 0x3FFF] \<rparr>"]
  by (simp add: plain_def clean_def COUNT_MASK_def VALUE_SIZE_def ceil_div_def)

text \<open>
  C17: Intersection, union and the test for a common bit give the same for a compressed operand, which
  they read run by run, as for the bitmap it was compressed from.
\<close>

theorem compressed_operand_equivalent:
  assumes "plain a" "plain b" "bm_size a = bm_size b"
  shows "bm_and a (bm_compressed b) = bm_and a b \<and> bm_or a (bm_compressed b) = bm_or a b \<and>
    bm_cross a (bm_compressed b) = bm_cross a b"
proof -
  have ab: "\<not> bm_compress a" "\<not> bm_compress b" "list_all clean (bm_data a)" "list_all clean (bm_data b)"
    "length (bm_data a) = length (bm_data b)" using assms by (simp_all add: plain_def)
  note lim = plain_length [OF assms(2)]
  let ?s = "segments (compress_loop False 0 (bm_data b))"
  have "expand ?s = bm_data b" "list_all seg_ok ?s" using expand_compress [of "bm_data b" 0 False] ab lim by simp_all
  then have "cross_loop (bm_data a) ?s 0 = Inr (meets (bm_data a) (bm_data b))" using cross_loop_meets [of ?s 0 "bm_data a"] ab by simp
  then show ?thesis
    using ab assms(3) apass.whole_pass [OF ab(3,4,5) lim] opass.whole_pass [OF ab(3,4,5) lim]
    by (simp add: bm_and_def bm_or_def bm_cross_def normalCross_def meets_def bm_compressed_def)
qed

theorem compressed_operand_equivalent_witness:
  "bm_and \<lparr> bm_compress = False, bm_size = 28, bm_data = [1, 6] \<rparr> (bm_compressed \<lparr> bm_compress = False, bm_size = 28, bm_data = [0x3FFF, 0x3FFF] \<rparr>)
   = bm_and \<lparr> bm_compress = False, bm_size = 28, bm_data = [1, 6] \<rparr> \<lparr> bm_compress = False, bm_size = 28, bm_data = [0x3FFF, 0x3FFF] \<rparr>"
  using compressed_operand_equivalent [of "\<lparr> bm_compress = False, bm_size = 28, bm_data = [1, 6] \<rparr>" "\<lparr> bm_compress = False, bm_size = 28, bm_data = [0x3FFF, 0x3FFF] \<rparr>"]
  by (simp add: plain_def clean_def COUNT_MASK_def VALUE_SIZE_def ceil_div_def)

section \<open>Positions\<close>

definition bit_at :: "w16 list \<Rightarrow> nat \<Rightarrow> bool" where
  "bit_at ws i \<longleftrightarrow> bit (ws ! (i div 14)) (i mod 14)"

lemma POS_bit: "w AND POS n \<noteq> 0 \<longleftrightarrow> bit w n"
  using and_exp_eq_0_iff_not_bit [of w n] by (simp add: POS_def push_bit_of_1)

lemma list_words_past: "sz \<le> pos \<Longrightarrow> list_words sz ws pos = []"
  by (induction sz ws pos rule: list_words.induct) (simp_all add: word_positions_def)

lemma list_words_exact:
  "k \<le> length ws \<Longrightarrow> sz \<le> 14 * length ws \<Longrightarrow>
   list_words sz (drop k ws) (14 * k) = filter (bit_at ws) [14 * k..<sz]"
proof (induction "length ws - k" arbitrary: k)
  case 0
  then show ?case by simp
next
  case (Suc n)
  then have k: "k < length ws" by simp
  then have d: "drop k ws = ws ! k # drop (Suc k) ws" by (simp add: Cons_nth_drop_Suc)
  have IH: "list_words sz (drop (Suc k) ws) (14 * Suc k) = filter (bit_at ws) [14 * Suc k..<sz]" using Suc by (intro Suc(1)) simp_all
  let ?m = "min 14 (sz - 14 * k)"
  have "[14 * k..<sz] = [14 * k..<14 * k + ?m] @ [14 * k + ?m..<sz]" 
    using upt_add_eq_append [of "14 * k" "14 * k + ?m" "sz - 14 * k - ?m"] by (cases "14 * k \<le> sz") simp_all
  moreover have "filter (bit_at ws) [14 * k..<14 * k + ?m] = word_positions sz (ws ! k) (14 * k)"
  proof -
    have "[14 * k..<14 * k + ?m] = map (\<lambda>n. 14 * k + n) [0..<?m]" by (simp add: map_add_upt add.commute)
    moreover have "filter (\<lambda>n. bit_at ws (14 * k + n)) [0..<?m] = filter (\<lambda>n. ws ! k AND POS n \<noteq> 0) [0..<?m]"
      by (rule filter_cong) (simp_all add: bit_at_def POS_bit)
    ultimately show ?thesis by (simp add: word_positions_def VALUE_SIZE_def filter_map o_def)
  qed
  ultimately have e: "filter (bit_at ws) [14 * k..<sz] = word_positions sz (ws ! k) (14 * k) @ filter (bit_at ws) [14 * k + ?m..<sz]" by simp
  have tail: "list_words sz (drop (Suc k) ws) (14 * k + ?m) = filter (bit_at ws) [14 * k + ?m..<sz]"
  proof (cases "14 * k + 14 \<le> sz")
    case True
    then have "14 * k + ?m = 14 * Suc k" by simp
    then show ?thesis using IH by (simp add: add.commute)
  qed (simp add: list_words_past)
  have past: "list_words sz (drop (Suc k) ws) (14 * k + 14) = list_words sz (drop (Suc k) ws) (14 * k + ?m)"
    by (cases "14 * k + 14 \<le> sz") (simp_all add: list_words_past)
  show ?case
    using past tail unfolding d e by (simp add: VALUE_SIZE_def word_positions_def)
qed



end
