(* ===== verification/HashUtil.thy ===== *)
theory HashUtil
  imports ByteCodec
begin

text \<open>
  The hash and text codecs of \<open>src/utils/hash_util.cpp\<close>: MurmurHash3 and the multiplicative
  hash, Base64, hexadecimal strings, replacement, splitting and random strings. Strings are byte
  lists and characters are given by their code. The digests of OpenSSL in the same file are not
  modelled.
\<close>

section \<open>Hashes\<close>

definition ROTL :: "u32 \<Rightarrow> nat \<Rightarrow> u32" where
  "ROTL x r = push_bit r x OR drop_bit (32 - r) x"

definition fmix32 :: "u32 \<Rightarrow> u32" where
  "fmix32 h0 =
    (let h1 = h0 XOR drop_bit 16 h0;
         h2 = h1 * 0x85ebca6b;
         h3 = h2 XOR drop_bit 13 h2;
         h4 = h3 * 0xc2b2ae35 in
     h4 XOR drop_bit 16 h4)"

definition murmur_mix :: "u32 \<Rightarrow> u32" where
  "murmur_mix s = ROTL (s * 0xcc9e2d51) 15 * 0x1b873593"

definition murmur_block :: "u32 \<Rightarrow> u32 \<Rightarrow> u32" where
  "murmur_block h s = ROTL (h XOR murmur_mix s) 13 * 5 + 0xe6546b64"

text \<open>The tail of at most three bytes, with the fall-through of the \<open>switch\<close>.\<close>

definition murmur_tail :: "u32 \<Rightarrow> byte list \<Rightarrow> u32" where
  "murmur_tail h tail =
    (let s3 = (if 3 \<le> length tail then push_bit 16 (ucast (tail ! 2)) else 0);
         s2 = (if 2 \<le> length tail then s3 OR push_bit 8 (ucast (tail ! 1)) else s3) in
     if 1 \<le> length tail then h XOR murmur_mix (s2 OR ucast (tail ! 0)) else h)"

fun murmur_blocks :: "u32 \<Rightarrow> byte list \<Rightarrow> u32 \<times> byte list" where
  "murmur_blocks h (a # b # c # d # rest) = murmur_blocks (murmur_block h (of_le_bytes [a, b, c, d])) rest"
| "murmur_blocks h rest = (h, rest)"

text \<open>\<open>None\<close> is the null pointer. The length is an \<open>int\<close>: the buffers are shorter than \<open>2 ^ 31\<close>.\<close>

definition murmur3_hash_mem :: "byte list option \<Rightarrow> u32 \<Rightarrow> u32" where
  "murmur3_hash_mem data seed =
    (case data of
       None \<Rightarrow> 0
     | Some bs \<Rightarrow> let (h, tail) = murmur_blocks seed bs in fmix32 (murmur_tail h tail XOR of_nat (length bs)))"

definition c_str :: "byte list \<Rightarrow> byte list" where
  "c_str bs = takeWhile (\<lambda>b. b \<noteq> 0) bs"

definition murmur3_hash :: "byte list option \<Rightarrow> u32 \<Rightarrow> u32" where
  "murmur3_hash str seed =
    (case str of
       None \<Rightarrow> 0
     | Some s \<Rightarrow> let (h, tail) = murmur_blocks seed (c_str s) in
         fmix32 (murmur_tail h tail XOR of_nat (length (c_str s))))"

definition quick_hash :: "byte list \<Rightarrow> u32" where
  "quick_hash str = foldl (\<lambda>h c. 31 * h + scast c) 0 (c_str str)"

text \<open>The loop over a buffer of a given size never advances its pointer.\<close>

definition quick_hash_mem :: "byte list \<Rightarrow> nat \<Rightarrow> u32 result" where
  "quick_hash_mem tmp n =
    (if n = 0 then Inr 0
     else if tmp = [] then Inl OutOfBounds
     else Inr (((\<lambda>h. 31 * h + scast (hd tmp)) ^^ n) 0))"

definition murmur3_hash64_mem :: "byte list option \<Rightarrow> u32 \<Rightarrow> u32 \<Rightarrow> u64" where
  "murmur3_hash64_mem str seed seed2 =
    push_bit 32 (ucast (murmur3_hash_mem str seed)) OR ucast (murmur3_hash_mem str seed2)"

definition murmur3_hash64 :: "byte list option \<Rightarrow> u32 \<Rightarrow> u32 \<Rightarrow> u64" where
  "murmur3_hash64 str seed seed2 =
    push_bit 32 (ucast (murmur3_hash str seed)) OR ucast (murmur3_hash str seed2)"

section \<open>Base64\<close>

text \<open>The packed groups have at most 24 bits and are kept as natural numbers.\<close>

definition b64_val :: "byte \<Rightarrow> nat option" where
  "b64_val c =
    (if 65 \<le> c \<and> c \<le> 90 then Some (unat c - 65)
     else if 97 \<le> c \<and> c \<le> 122 then Some (unat c - 97 + 26)
     else if 48 \<le> c \<and> c \<le> 57 then Some (unat c - 48 + 52)
     else if c = 43 then Some 62
     else if c = 47 then Some 63
     else None)"

text \<open>
  The inner loop on up to \<open>k\<close> characters: None is an early return of the empty string; otherwise
  the number of characters that are missing, the padding, the packed bits and the rest.
\<close>

fun b64_group :: "nat \<Rightarrow> nat \<Rightarrow> nat \<Rightarrow> byte list \<Rightarrow> (nat \<times> nat \<times> nat \<times> byte list) option" where
  "b64_group 0 padding packed src = Some (0, padding, packed, src)"
| "b64_group (Suc k) padding packed [] = Some (Suc k, padding, packed, [])"
| "b64_group (Suc k) padding packed (c # cs) =
    (if c = 61 then b64_group k (Suc padding) (push_bit 6 packed) cs
     else if 0 < padding then None
     else case b64_val c of
       None \<Rightarrow> None
     | Some val \<Rightarrow> b64_group k padding (push_bit 6 packed OR val) cs)"

lemma b64_group_length:
  "b64_group k padding packed src = Some (k', p', q', rest) \<Longrightarrow> length rest + k = length src + k'"
proof (induction k padding packed src rule: b64_group.induct)
  case (3 k padding packed c cs)
  then show ?case by (auto split: if_splits option.splits)
qed auto

function base64decode_loop :: "byte list \<Rightarrow> byte list option" where
  "base64decode_loop src =
    (if src = [] then Some []
     else case b64_group 4 0 0 src of
       None \<Rightarrow> None
     | Some (missing, padding, packed, rest) \<Rightarrow>
         if missing \<noteq> 0 then None
         else if 0 < padding \<and> rest \<noteq> [] then None
         else if 2 < padding then None
         else map_option
           ((@) ([of_nat (drop_bit 16 packed AND 0xff)]
                 @ (if padding \<noteq> 2 then [of_nat (drop_bit 8 packed AND 0xff)] else [])
                 @ (if padding = 0 then [of_nat (packed AND 0xff)] else [])))
           (base64decode_loop rest))"
  by pat_completeness auto
termination
  by (relation "measure length") (auto dest!: b64_group_length)

definition base64decode :: "byte list \<Rightarrow> byte list" where
  "base64decode src = (case base64decode_loop src of None \<Rightarrow> [] | Some r \<Rightarrow> r)"

definition base64_table :: "byte list" where
  "base64_table = map of_nat ([65..<91] @ [97..<123] @ [48..<58] @ [43, 47])"

function base64encode :: "byte list \<Rightarrow> byte list" where
  "base64encode data =
    (if data = [] then []
     else let grp = take 3 data;
              i = length grp;
              padding = (if i = 2 then 1 else if i = 1 then 2 else (0 :: nat));
              packed = push_bit (8 * (3 - i)) (foldl (\<lambda>p b. push_bit 8 p OR unat b) 0 grp) in
       [base64_table ! drop_bit 18 packed, base64_table ! (drop_bit 12 packed AND 0x3f)]
       @ (if padding \<noteq> 2 then [base64_table ! (drop_bit 6 packed AND 0x3f)] else [])
       @ (if padding = 0 then [base64_table ! (packed AND 0x3f)] else [])
       @ replicate padding 61 @ base64encode (drop 3 data))"
  by pat_completeness auto
termination
  by (relation "measure length") auto

declare base64decode_loop.simps [simp del] base64encode.simps [simp del]

section \<open>Hexadecimal strings\<close>

definition hex_digit :: "byte \<Rightarrow> byte" where
  "hex_digit c = (if 9 < c then c + 97 - 10 else c + 48)"

definition hexstring_from_data :: "byte list \<Rightarrow> byte list" where
  "hexstring_from_data data =
    concat (map (\<lambda>b. [hex_digit (drop_bit 4 b AND 0xf), hex_digit (b AND 0xf)]) data)"

definition hex_val :: "byte \<Rightarrow> byte option" where
  "hex_val c =
    (if 97 \<le> c \<and> c \<le> 102 then Some (c - 97 + 10)
     else if 65 \<le> c \<and> c \<le> 70 then Some (c - 65 + 10)
     else if 48 \<le> c \<and> c \<le> 57 then Some (c - 48)
     else None)"

fun data_from_hex_loop :: "byte list \<Rightarrow> byte list result" where
  "data_from_hex_loop (a # b # rest) =
    (case hex_val a of
       None \<Rightarrow> Inl InvalidArgument
     | Some hi \<Rightarrow>
         (case hex_val b of
            None \<Rightarrow> Inl InvalidArgument
          | Some lo \<Rightarrow> bind_res (data_from_hex_loop rest) (\<lambda>bs. Inr ((push_bit 4 hi OR lo) # bs))))"
| "data_from_hex_loop _ = Inr []"

definition data_from_hexstring :: "byte list \<Rightarrow> byte list result" where
  "data_from_hexstring hexstring =
    (if length hexstring mod 2 \<noteq> 0 then Inl InvalidArgument
     else if hexstring = [] then Inr []
     else data_from_hex_loop hexstring)"

section \<open>Replacing and splitting\<close>

text \<open>\<open>str.find(c, from)\<close> and \<open>str.find(pat, from)\<close>; None is \<open>npos\<close>.\<close>

fun find_char :: "byte \<Rightarrow> byte list \<Rightarrow> nat option" where
  "find_char c [] = None"
| "find_char c (x # xs) = (if x = c then Some 0 else map_option Suc (find_char c xs))"

definition find_char_from :: "byte \<Rightarrow> byte list \<Rightarrow> nat \<Rightarrow> nat option" where
  "find_char_from c str i = map_option ((+) i) (find_char c (drop i str))"

definition is_prefix :: "byte list \<Rightarrow> byte list \<Rightarrow> bool" where
  "is_prefix p xs \<longleftrightarrow> take (length p) xs = p"

fun find_sub :: "byte list \<Rightarrow> byte list \<Rightarrow> nat option" where
  "find_sub pat [] = (if pat = [] then Some 0 else None)"
| "find_sub pat (x # xs) = (if is_prefix pat (x # xs) then Some 0 else map_option Suc (find_sub pat xs))"

definition find_sub_from :: "byte list \<Rightarrow> byte list \<Rightarrow> nat \<Rightarrow> nat option" where
  "find_sub_from pat str i = (if length str < i then None else map_option ((+) i) (find_sub pat (drop i str)))"

partial_function (option) replace_char_loop ::
    "byte \<Rightarrow> byte \<Rightarrow> byte list \<Rightarrow> nat option \<Rightarrow> byte list option" where
  "replace_char_loop pat replaceWith str index =
    (if index = None then Some str
     else let str' = str[the index := replaceWith] in
       replace_char_loop pat replaceWith str' (find_char_from pat str' (the index + 1)))"

definition replace_char :: "byte list \<Rightarrow> byte \<Rightarrow> byte \<Rightarrow> byte list option" where
  "replace_char str pat replaceWith =
    replace_char_loop pat replaceWith str (find_char_from pat str 0)"

partial_function (option) replace_loop ::
    "(byte list \<Rightarrow> nat \<Rightarrow> nat option) \<Rightarrow> nat \<Rightarrow> byte list \<Rightarrow> byte list \<Rightarrow> nat option \<Rightarrow> byte list option" where
  "replace_loop finder n replaceWith str index =
    (if index = None then Some str
     else let str' = take (the index) str @ replaceWith @ drop (the index + n) str in
       replace_loop finder n replaceWith str' (finder str' (the index + length replaceWith)))"

definition replace_char_str :: "byte list \<Rightarrow> byte \<Rightarrow> byte list \<Rightarrow> byte list option" where
  "replace_char_str str pat replaceWith =
    replace_loop (find_char_from pat) 1 replaceWith str (find_char_from pat str 0)"

definition replace_str :: "byte list \<Rightarrow> byte list \<Rightarrow> byte list \<Rightarrow> byte list option" where
  "replace_str str pat replaceWith =
    replace_loop (find_sub_from pat) (length pat) replaceWith str (find_sub_from pat str 0)"

text \<open>
  The loop of \<open>split\<close>, on the part of the string behind \<open>last\<close>; \<open>isDelim\<close> is the test of
  \<open>find\<close> or of \<open>find_first_of\<close>. The counter is a \<open>size_t\<close>: it wraps below 0.
\<close>

function split_loop :: "(byte \<Rightarrow> bool) \<Rightarrow> nat \<Rightarrow> byte list \<Rightarrow> byte list list" where
  "split_loop isDelim mx str =
    (let piece = takeWhile (\<lambda>c. \<not> isDelim c) str; rest = dropWhile (\<lambda>c. \<not> isDelim c) str in
     if rest = [] then [str]
     else let mx' = usub64 mx 1 in
       if mx' = 1 then [piece, tl rest] else piece # split_loop isDelim mx' (tl rest))"
  by pat_completeness auto
termination
proof (relation "measure (\<lambda>(d, m, str). length str)", goal_cases)
  case (2 isDelim mx str piece rest mx')
  have le: "length rest \<le> length str" unfolding 2 by (rule length_dropWhile_le)
  have "length (tl rest) < length rest" using 2(3) by (cases rest) auto
  then show ?case using le by simp
qed simp

definition split_char :: "byte list \<Rightarrow> byte \<Rightarrow> nat \<Rightarrow> byte list list" where
  "split_char str delim mx = (if str = [] then [] else split_loop (\<lambda>c. c = delim) mx str)"

definition split_any :: "byte list \<Rightarrow> byte list \<Rightarrow> nat \<Rightarrow> byte list list" where
  "split_any str delims mx = (if str = [] then [] else split_loop (\<lambda>c. c \<in> set delims) mx str)"

text \<open>\<open>rands\<close> are the values that \<open>rand\<close> returns.\<close>

definition random_string :: "nat \<Rightarrow> byte list \<Rightarrow> (nat \<Rightarrow> nat) \<Rightarrow> byte list" where
  "random_string len chars rands =
    (if len = 0 \<or> chars = [] then [] else map (\<lambda>i. chars ! (rands i mod length chars)) [0..<len])"

declare split_loop.simps [simp del]

section \<open>Base64 round trip\<close>

lemma and_mask_nat: "(x :: nat) AND 0x3f = x mod 64" "(x :: nat) AND 0xff = x mod 256"
proof -
  have "(0x3f :: nat) = mask 6" "(0xff :: nat) = mask 8" by (simp_all add: mask_eq_exp_minus_1)
  then show "(x :: nat) AND 0x3f = x mod 64" "(x :: nat) AND 0xff = x mod 256"
    by (simp_all only: take_bit_eq_mask [symmetric]) (simp_all add: take_bit_eq_mod)
qed

lemma drop_bit_div:
  "drop_bit 18 (x :: nat) = x div 262144" "drop_bit 12 x = x div 4096" "drop_bit 6 x = x div 64"
  "drop_bit 16 x = x div 65536" "drop_bit 8 x = x div 256"
  by (simp_all add: drop_bit_eq_div)

lemma b64_table_val: "s < 64 \<Longrightarrow> b64_val (base64_table ! s) = Some s \<and> base64_table ! s \<noteq> 61"
proof -
  have "list_all (\<lambda>s. b64_val (base64_table ! s) = Some s \<and> base64_table ! s \<noteq> 61) [0..<64]"
    by code_simp
  then show "s < 64 \<Longrightarrow> ?thesis" by (simp add: list_all_iff)
qed

lemma b64_group_step:
  "s < 64 \<Longrightarrow> b64_group (Suc k) 0 q (base64_table ! s # cs) = b64_group k 0 (q * 64 + s) cs"
  using or_add [of s 6 q] b64_table_val [of s] by simp

lemma b64_group_pad: "b64_group (Suc k) p q (61 # cs) = b64_group k (Suc p) (q * 64) cs"
  by (simp add: push_bit_eq_mult)

lemma four: "4 = Suc (Suc (Suc (Suc 0)))"
  by simp

lemma b64_group_4:
  assumes "s0 < 64" "s1 < 64" "s2 < 64" "s3 < 64"
  shows "b64_group 4 0 0 (base64_table ! s0 # base64_table ! s1 # base64_table ! s2 # base64_table ! s3 # rest)
       = Some (0, 0, ((s0 * 64 + s1) * 64 + s2) * 64 + s3, rest)"
    "b64_group 4 0 0 (base64_table ! s0 # base64_table ! s1 # base64_table ! s2 # 61 # rest)
       = Some (0, 1, ((s0 * 64 + s1) * 64 + s2) * 64, rest)"
    "b64_group 4 0 0 (base64_table ! s0 # base64_table ! s1 # 61 # 61 # rest)
       = Some (0, 2, (s0 * 64 + s1) * 4096, rest)"
  using assms unfolding four
  by (simp_all add: b64_group_step b64_group_pad del: b64_group.simps(3))

lemma unat_byte: "unat (b :: byte) < 256"
  using unsigned_less [of b] by simp

lemma sextets:
  "p < 2 ^ 24 \<Longrightarrow>
   ((p div 262144 * 64 + p div 4096 mod 64) * 64 + p div 64 mod 64) * 64 + p mod 64 = (p :: nat)"
proof -
  have 1: "p div 64 * 64 + p mod 64 = p" by (rule div_mult_mod_eq)
  have 2: "p div 64 = p div 4096 * 64 + p div 64 mod 64"
    using div_mult_mod_eq [of "p div 64" 64] by (simp add: div_mult2_eq [symmetric])
  have 3: "p div 4096 = p div 262144 * 64 + p div 4096 mod 64"
    using div_mult_mod_eq [of "p div 4096" 64] by (simp add: div_mult2_eq [symmetric])
  show ?thesis using 1 2 3 by simp
qed

text \<open>The characters of one group of \<open>i\<close> bytes with the packed value \<open>p\<close>, and back.\<close>

definition b64_chars :: "nat \<Rightarrow> nat \<Rightarrow> byte list" where
  "b64_chars i p =
    [base64_table ! (p div 262144), base64_table ! (p div 4096 mod 64)]
    @ (if i = 1 then [] else [base64_table ! (p div 64 mod 64)])
    @ (if i = 3 then [base64_table ! (p mod 64)] else []) @ replicate (3 - i) 61"

lemma b64_group_chars:
  assumes "1 \<le> i" "i \<le> 3" "p < 2 ^ 24" "2 ^ (8 * (3 - i)) dvd p"
  shows "b64_group 4 0 0 (b64_chars i p @ rest) = Some (0, 3 - i, p, rest)"
proof -
  have s: "p div 262144 < 64" using assms(3) by (simp add: less_mult_imp_div_less)
  note eq = sextets [OF assms(3)]
  consider "i = 1" | "i = 2" | "i = 3" using assms(1,2) by linarith
  then show ?thesis
  proof cases
    case 1
    then obtain k where k: "p = 65536 * k" using assms(4) by auto
    have "p div 64 = 64 * (16 * k)" using k by simp
    then have "p mod 64 = 0" "p div 64 mod 64 = 0" using k by (simp_all add: mod_mult_left_eq)
    then have "(p div 262144 * 64 + p div 4096 mod 64) * 4096 = p" using eq by simp
    then show ?thesis using 1 s b64_group_4(3) [of "p div 262144" "p div 4096 mod 64"]
      by (simp add: b64_chars_def numeral_2_eq_2)
  next
    case 2
    then obtain k where k: "p = 256 * k" using assms(4) by auto
    then have "p mod 64 = 0" by (simp add: mod_mult_left_eq)
    then have "((p div 262144 * 64 + p div 4096 mod 64) * 64 + p div 64 mod 64) * 64 = p" using eq by simp
    then show ?thesis using 2 s b64_group_4(2) [of "p div 262144" "p div 4096 mod 64" "p div 64 mod 64"]
      by (simp add: b64_chars_def)
  next
    case 3
    then show ?thesis
      using s eq b64_group_4(1) [of "p div 262144" "p div 4096 mod 64" "p div 64 mod 64" "p mod 64"]
      by (simp add: b64_chars_def)
  qed
qed

text \<open>The packed value of a group, and the bytes it gives back.\<close>

definition b64_pack :: "byte list \<Rightarrow> nat" where
  "b64_pack grp = push_bit (8 * (3 - length grp)) (foldl (\<lambda>p b. push_bit 8 p OR unat b) 0 grp)"

definition b64_bytes :: "nat \<Rightarrow> nat \<Rightarrow> byte list" where
  "b64_bytes padding packed =
    [of_nat (drop_bit 16 packed AND 0xff)]
    @ (if padding \<noteq> 2 then [of_nat (drop_bit 8 packed AND 0xff)] else [])
    @ (if padding = 0 then [of_nat (packed AND 0xff)] else [])"

lemma b64_pack_bytes:
  assumes "grp \<noteq> []" "length grp \<le> 3"
  shows "b64_pack grp < 2 ^ 24 \<and> 2 ^ (8 * (3 - length grp)) dvd b64_pack grp \<and>
         b64_bytes (3 - length grp) (b64_pack grp) = grp"
proof -
  have or8: "push_bit 8 p OR unat (b :: byte) = p * 256 + unat b" for p b
    using or_add [of "unat b" 8 p] unat_byte [of b] by simp
  note mul = push_bit_eq_mult and simps = b64_bytes_def drop_bit_div and_mask_nat
  obtain a r where a: "grp = a # r" using assms(1) by (cases grp) auto
  show ?thesis
  proof (cases r)
    case Nil
    have "b64_pack grp = unat a * 65536" using Nil a by (simp add: b64_pack_def mul)
    then show ?thesis using Nil a unat_byte [of a] by (simp add: simps)
  next
    case (Cons b r2)
    show ?thesis
    proof (cases r2)
      case Nil
      have "foldl (\<lambda>p b. push_bit 8 p OR unat b) 0 [a, b] = unat a * 256 + unat b" by (simp add: or8)
      then have e: "b64_pack grp = (unat a * 256 + unat b) * 256"
        using Nil Cons a by (simp only: b64_pack_def) (simp add: mul)
      have d: "(unat a * 256 + unat b) * 256 div 65536 = unat a"
        "(unat a * 256 + unat b) * 256 div 256 = unat a * 256 + unat b"
        using unat_byte [of b] by simp_all
      have m: "unat a mod 256 = unat a" "(unat a * 256 + unat b) mod 256 = unat b"
        using unat_byte [of a] unat_byte [of b] by simp_all
      have "b64_bytes 1 (b64_pack grp) = [a, b]"
        unfolding b64_bytes_def drop_bit_div and_mask_nat e d m by simp
      then show ?thesis using Nil Cons a unat_byte [of a] unat_byte [of b] e by simp
    next
      case c: (Cons c r3)
      have r3: "r3 = []" using assms(2) a Cons c by simp
      have "foldl (\<lambda>p b. push_bit 8 p OR unat b) 0 [a, b, c] = (unat a * 256 + unat b) * 256 + unat c"
        by (simp add: or8)
      then have e: "b64_pack grp = (unat a * 256 + unat b) * 256 + unat c"
        using r3 c Cons a by (simp only: b64_pack_def) simp
      have d1: "((unat a * 256 + unat b) * 256 + unat c) div 256 = unat a * 256 + unat b"
        using unat_byte [of c] by simp
      have "((unat a * 256 + unat b) * 256 + unat c) div 65536
          = ((unat a * 256 + unat b) * 256 + unat c) div 256 div 256"
        by (simp add: div_mult2_eq [symmetric])
      then have d2: "((unat a * 256 + unat b) * 256 + unat c) div 65536 = unat a"
        unfolding d1 using unat_byte [of b] by simp
      have m3: "(x * 256 + unat c) mod 256 = unat c" for x using unat_byte [of c] by simp
      have m: "unat a mod 256 = unat a" "(unat a * 256 + unat b) mod 256 = unat b"
        using unat_byte [of a] unat_byte [of b] by simp_all
      have "b64_bytes 0 (b64_pack grp) = [a, b, c]"
        unfolding b64_bytes_def drop_bit_div and_mask_nat e d1 d2 m m3 by simp
      then show ?thesis using r3 c Cons a unat_byte [of a] unat_byte [of b] unat_byte [of c] e by simp
    qed
  qed
qed

lemma length_b64_chars: "i = 1 \<or> i = 2 \<or> i = 3 \<Longrightarrow> length (b64_chars i p) = 4"
  by (auto simp: b64_chars_def)

lemma base64encode_step:
  assumes "data \<noteq> []"
  shows "base64encode data = b64_chars (length (take 3 data)) (b64_pack (take 3 data)) @ base64encode (drop 3 data)"
proof -
  let ?i = "length (take 3 data)"
  have "0 < ?i" using assms by simp
  then have "?i = 1 \<or> ?i = 2 \<or> ?i = 3" by (simp only: length_take) linarith
  then show ?thesis
    using assms unfolding base64encode.simps [of data] Let_def b64_pack_def [symmetric]
    by (elim disjE) (simp_all add: b64_chars_def drop_bit_div and_mask_nat del: length_take)
qed

lemma base64decode_step:
  assumes "b64_group 4 0 0 src = Some (0, padding, packed, rest)" "src \<noteq> []" "padding \<le> 2"
    "0 < padding \<Longrightarrow> rest = []"
  shows "base64decode_loop src = map_option ((@) (b64_bytes padding packed)) (base64decode_loop rest)"
  using assms by (cases "0 < padding") (simp_all add: base64decode_loop.simps [of src] b64_bytes_def)

lemma decode_encode: "base64decode_loop (base64encode data) = Some data"
proof (induction data rule: base64encode.induct)
  case (1 data)
  show ?case
  proof (cases "data = []")
    case True
    then show ?thesis by (simp add: base64encode.simps base64decode_loop.simps)
  next
    case False
    let ?g = "take 3 data"
    have g: "?g \<noteq> []" "length ?g \<le> 3" "1 \<le> length ?g" using False by (cases data; simp)+
    note p = b64_pack_bytes [OF g(1,2)]
    have "0 < 3 - length ?g \<Longrightarrow> drop 3 data = []" by simp
    then have full: "0 < 3 - length ?g \<Longrightarrow> base64encode (drop 3 data) = []" by (simp add: base64encode.simps)
    have ne: "b64_chars (length ?g) (b64_pack ?g) @ base64encode (drop 3 data) \<noteq> []" by (simp add: b64_chars_def)
    have "base64decode_loop (base64encode data)
        = map_option ((@) (b64_bytes (3 - length ?g) (b64_pack ?g))) (base64decode_loop (base64encode (drop 3 data)))"
      unfolding base64encode_step [OF False]
      using b64_group_chars [OF g(3,2)] p g(3) full ne by (intro base64decode_step) simp_all
    then show ?thesis using 1 False p by simp
  qed
qed

lemma length_base64encode: "length (base64encode data) = 4 * ceil_div (length data) 3"
proof (induction data rule: base64encode.induct)
  case (1 data)
  show ?case
  proof (cases "data = []")
    case True
    then show ?thesis by (simp add: base64encode.simps ceil_div_def)
  next
    case False
    let ?i = "length (take 3 data)"
    have "0 < ?i" using False by simp
    then have "?i = 1 \<or> ?i = 2 \<or> ?i = 3" by (simp only: length_take) linarith
    then have "length (b64_chars ?i p) = 4" for p by (rule length_b64_chars)
    moreover have "ceil_div (length data) 3 = Suc (ceil_div (length (drop 3 data)) 3)"
    proof (cases "3 \<le> length data")
      case True
      then obtain m where "length data = m + 3" by (metis add.commute le_Suc_ex)
      then show ?thesis by (simp add: ceil_div_def)
    next
      case f: False
      then have "length data = 1 \<or> length data = 2" using False length_greater_0_conv [of data] by linarith
      then show ?thesis by (auto simp: ceil_div_def)
    qed
    ultimately show ?thesis using 1 False by (simp add: base64encode_step)
  qed
qed

lemma base64decode_bound: "base64decode_loop src = Some out \<Longrightarrow> 4 * length out \<le> 3 * length src"
proof (induction src arbitrary: out rule: base64decode_loop.induct)
  case (1 src)
  show ?case
  proof (cases "src = []")
    case True
    then show ?thesis using "1.prems" by (simp add: base64decode_loop.simps)
  next
    case False
    obtain padding packed rest o2 where g: "b64_group 4 0 0 src = Some (0, padding, packed, rest)"
        and o2: "base64decode_loop rest = Some o2" and out: "out = b64_bytes padding packed @ o2"
      using "1.prems" False
      by (auto simp: base64decode_loop.simps [of src] b64_bytes_def split: option.splits if_splits)
    have "length src = 4 + length rest" using b64_group_length [OF g] by simp
    moreover have "4 * length o2 \<le> 3 * length rest"
      using "1.IH" [OF False g] o2 "1.prems" False g
      by (auto simp: base64decode_loop.simps [of src] split: if_splits)
    ultimately show ?thesis using out by (simp add: b64_bytes_def)
  qed
qed

section \<open>Hexadecimal strings\<close>

lemma hex_table:
  "hex_val (hex_digit (drop_bit 4 b AND 0xf)) = Some (drop_bit 4 b AND 0xf)"
  "hex_val (hex_digit (b AND 0xf)) = Some (b AND 0xf)"
proof -
  have "list_all (\<lambda>n. hex_val (hex_digit (of_nat n)) = Some (of_nat n)) [0..<16]" by code_simp
  then have t: "hex_val (hex_digit w) = Some w" if "unat w < 16" for w :: byte
    using that by (auto simp: list_all_iff dest!: bspec [of _ _ "unat w"])
  have m: "(0xf :: byte) = mask 4" by (simp add: mask_eq_exp_minus_1)
  have "unat (w AND 0xf) < 16" for w :: byte
    unfolding m take_bit_eq_mask [symmetric] unsigned_take_bit_eq
    using take_bit_nat_less_exp [of 4 "unat w"] by simp
  then show "hex_val (hex_digit (drop_bit 4 b AND 0xf)) = Some (drop_bit 4 b AND 0xf)"
    "hex_val (hex_digit (b AND 0xf)) = Some (b AND 0xf)"
    using t by blast+
qed

lemma nibbles: "push_bit 4 (drop_bit 4 b AND 0xf) OR (b AND 0xf) = (b :: byte)"
proof (rule bit_word_eqI)
  have m: "(0xf :: byte) = mask 4" by (simp add: mask_eq_exp_minus_1)
  fix n assume "n < LENGTH(8)"
  then show "bit (push_bit 4 (drop_bit 4 b AND 0xf) OR (b AND 0xf)) n = bit b n"
    unfolding m by (cases "n < 4") (auto simp: bit_simps)
qed

lemma length_hexstring: "length (hexstring_from_data d) = 2 * length d"
  by (induction d) (simp_all add: hexstring_from_data_def)

lemma hex_decode: "data_from_hex_loop (hexstring_from_data d) = Inr d"
proof (induction d)
  case (Cons b d)
  have "hexstring_from_data (b # d)
      = hex_digit (drop_bit 4 b AND 0xf) # hex_digit (b AND 0xf) # hexstring_from_data d"
    by (simp add: hexstring_from_data_def)
  then have "data_from_hex_loop (hexstring_from_data (b # d))
      = Inr ((push_bit 4 (drop_bit 4 b AND 0xf) OR (b AND 0xf)) # d)"
    by (simp only: data_from_hex_loop.simps hex_table option.case Cons.IH bind_res_Inr)
  then show ?case unfolding nibbles .
qed (simp add: hexstring_from_data_def)

lemma hex_loop_cases:
  "even (length s) \<Longrightarrow>
   (if list_all (\<lambda>c. hex_val c \<noteq> None) s then \<exists>d. data_from_hex_loop s = Inr d \<and> 2 * length d = length s
    else data_from_hex_loop s = Inl InvalidArgument)"
proof (induction s rule: data_from_hex_loop.induct)
  case (1 a b rest)
  show ?case
  proof (cases "hex_val a = None \<or> hex_val b = None")
    case True
    then show ?thesis by (auto split: option.split)
  next
    case False
    then obtain x y where xy: "hex_val a = Some x" "hex_val b = Some y" by auto
    have "even (length rest)" using "1.prems" by simp
    note ih = "1.IH" [OF xy this]
    show ?thesis
    proof (cases "list_all (\<lambda>c. hex_val c \<noteq> None) rest")
      case True
      then obtain d where "data_from_hex_loop rest = Inr d" "2 * length d = length rest" using ih by auto
      then show ?thesis using True xy by simp
    next
      case f: False
      then have "data_from_hex_loop rest = Inl InvalidArgument" using ih by (simp only: if_False)
      moreover have "\<not> list_all (\<lambda>c. hex_val c \<noteq> None) (a # b # rest)" using f by simp
      ultimately show ?thesis using xy by (simp only: if_False) simp
    qed
  qed
qed simp_all

section \<open>Splitting and replacing\<close>

text \<open>The pieces, joined again with the delimiters of the string.\<close>

lemma split_loop_join:
  "concat (map (\<lambda>p. p @ [delim]) (split_loop (\<lambda>c. c = delim) mx str)) = str @ [delim]"
proof (induction "\<lambda>c :: byte. c = delim" mx str rule: split_loop.induct)
  case (1 mx str)
  let ?r = "dropWhile (\<lambda>c. c \<noteq> delim) str" and ?p = "takeWhile (\<lambda>c. c \<noteq> delim) str"
  show ?case
  proof (cases "?r = []")
    case True
    then show ?thesis by (simp add: split_loop.simps [of _ mx str])
  next
    case False
    then have hd: "hd ?r = delim" using hd_dropWhile [of "\<lambda>c. c \<noteq> delim" str] by blast
    have s: "str = ?p @ delim # tl ?r"
      using takeWhile_dropWhile_id [of "\<lambda>c. c \<noteq> delim" str] hd False by (metis list.collapse)
    show ?thesis
    proof (cases "usub64 mx 1 = 1")
      case True
      then show ?thesis using False s by (simp add: split_loop.simps [of _ mx str] Let_def)
    next
      case n: False
      have "concat (map (\<lambda>p. p @ [delim]) (split_loop (\<lambda>c. c = delim) (usub64 mx 1) (tl ?r))) = tl ?r @ [delim]"
        using 1 False n by simp
      then show ?thesis using False n s by (simp add: split_loop.simps [of _ mx str] Let_def)
    qed
  qed
qed

lemma split_loop_count: "1 < mx \<Longrightarrow> length (split_loop d mx str) \<le> mx"
proof (induction d mx str rule: split_loop.induct)
  case (1 d mx str)
  let ?r = "dropWhile (\<lambda>c. \<not> d c) str"
  have e: "split_loop d mx str = (if ?r = [] then [str] else if mx - 1 = 1 then [takeWhile (\<lambda>c. \<not> d c) str, tl ?r]
      else takeWhile (\<lambda>c. \<not> d c) str # split_loop d (mx - 1) (tl ?r))"
    using "1.prems" by (subst split_loop.simps) (simp add: Let_def)
  have ih: "length (split_loop d (mx - 1) (tl ?r)) \<le> mx - 1" if "?r \<noteq> []" "mx - 1 \<noteq> 1"
  proof (rule "1.IH" [of "takeWhile (\<lambda>c. \<not> d c) str"])
    show "1 < mx - 1" using that "1.prems" by simp
  qed (use that "1.prems" in auto)
  show ?case
  proof (cases "?r = [] \<or> mx - 1 = 1")
    case True
    then show ?thesis unfolding e using "1.prems" by auto
  next
    case False
    then have "length (split_loop d mx str) = Suc (length (split_loop d (mx - 1) (tl ?r)))"
      unfolding e by (simp only: if_False list.size de_Morgan_disj simp_thms)
    moreover have "length (split_loop d (mx - 1) (tl ?r)) \<le> mx - 1" using ih False by blast
    ultimately show ?thesis using "1.prems" by linarith
  qed
qed

lemma find_sub_Nil: "find_sub [] str = Some 0"
  by (cases str) (simp_all add: is_prefix_def)

lemma find_sub_from_Nil: "i \<le> length str \<Longrightarrow> find_sub_from [] str i = Some i"
  by (simp add: find_sub_from_def find_sub_Nil)

text \<open>With an empty pattern the loop of \<open>replace\<close> never ends.\<close>

lemma replace_loop_diverges:
  "replace_loop finder n rw str index = Some out \<Longrightarrow>
   finder = find_sub_from [] \<longrightarrow> n = 0 \<longrightarrow> (\<forall>i \<le> length str. index \<noteq> Some i)"
proof (erule replace_loop.raw_induct [rotated], intro impI allI notI)
  fix rl finder n rw str index out i
  assume ih: "\<And>finder n rw str index out. rl finder n rw str index = Some out \<Longrightarrow>
      finder = find_sub_from [] \<longrightarrow> n = 0 \<longrightarrow> (\<forall>i \<le> length str. index \<noteq> Some i)"
    and body: "(if index = None then Some str
        else let str' = take (the index) str @ rw @ drop (the index + n) str in
          rl finder n rw str' (finder str' (the index + length rw))) = Some out"
    and p: "finder = find_sub_from []" "n = 0" "i \<le> length str" "index = Some i"
  let ?str = "take i str @ rw @ drop i str"
  have "finder ?str (i + length rw) = Some (i + length rw)" using p by (simp add: find_sub_from_Nil)
  then have "rl finder n rw ?str (Some (i + length rw)) = Some out" using body p by (simp add: Let_def)
  from ih [OF this] have "\<forall>k \<le> length ?str. i + length rw \<noteq> k" using p by simp
  moreover have "i + length rw \<le> length ?str" using p(3) by simp
  ultimately show False by blast
qed

section \<open>Properties\<close>

text \<open>
  C34: Base64 is a faithful transport encoding: decoding an encoded string gives it back, for every
  string and every length modulo three; the encoding has four characters for every started group
  of three bytes; and decoding any string, valid or not, writes at most three bytes for every four
  characters, which is the size of the buffer it has allocated.
\<close>

theorem base64_round_trip:
  "base64decode (base64encode data) = data \<and>
   length (base64encode data) = 4 * ceil_div (length data) 3 \<and>
   length (base64decode src) \<le> length src * 3 div 4"
proof -
  have "4 * length (base64decode src) \<le> 3 * length src"
    using base64decode_bound [of src] by (auto simp: base64decode_def split: option.split)
  then show ?thesis
    using decode_encode length_base64encode by (auto simp: base64decode_def)
qed

text \<open>
  A hexadecimal string is decoded exactly when it has an even length and only digits, in
  either case; every other string raises \<open>std::invalid_argument\<close>, and nothing else happens.
  Encoding produces such a string, with two digits per byte, and decoding it gives the data back.
\<close>

theorem hex_round_trip:
  "data_from_hexstring (hexstring_from_data d) = Inr d \<and>
   length (hexstring_from_data d) = 2 * length d \<and>
   (if even (length s) \<and> list_all (\<lambda>c. hex_val c \<noteq> None) s
    then (case data_from_hexstring s of Inl e \<Rightarrow> False | Inr bs \<Rightarrow> 2 * length bs = length s)
    else data_from_hexstring s = Inl InvalidArgument)"
proof -
  have a: "data_from_hexstring (hexstring_from_data d) = Inr d"
    using hex_decode [of d] length_hexstring [of d] by (cases d) (simp_all add: data_from_hexstring_def hexstring_from_data_def)
  have b: "if even (length s) \<and> list_all (\<lambda>c. hex_val c \<noteq> None) s
    then (case data_from_hexstring s of Inl e \<Rightarrow> False | Inr bs \<Rightarrow> 2 * length bs = length s)
    else data_from_hexstring s = Inl InvalidArgument"
  proof (cases "even (length s)")
    case True
    then show ?thesis using hex_loop_cases [OF True] by (auto simp: data_from_hexstring_def split: if_splits)
  qed (auto simp: data_from_hexstring_def odd_iff_mod_2_eq_one)
  show ?thesis using a b length_hexstring by blast
qed

text \<open>
  Splitting loses nothing: the pieces joined with the delimiter are the string, for every limit.
  With a limit above one there are at most that many pieces; a limit of one is no limit.
\<close>

lemma split_join:
  "str \<noteq> [] \<Longrightarrow> concat (map (\<lambda>p. p @ [delim]) (split_char str delim mx)) = str @ [delim] \<and>
   (1 < mx \<longrightarrow> length (split_char str delim mx) \<le> mx)"
  by (simp add: split_char_def split_loop_join split_loop_count)

lemma split_limit_one: "length (split_char [1, 44, 2, 44, 3] 44 1) = 3"
proof -
  have "usub64 0 1 = 18446744073709551615" "usub64 1 1 = 0" by (simp_all add: usub64_def)
  then show ?thesis by (simp add: split_char_def split_loop.simps Let_def)
qed

text \<open>Replacing the empty string never returns.\<close>

lemma replace_empty_diverges: "replace_str str [] rw = None"
proof (rule ccontr)
  assume "replace_str str [] rw \<noteq> None"
  then obtain out where "replace_loop (find_sub_from []) 0 rw str (Some 0) = Some out"
    by (auto simp: replace_str_def find_sub_from_Nil)
  from replace_loop_diverges [OF this] show False by auto
qed

text \<open>The hash of a buffer depends only on its first byte and its size.\<close>

lemma quick_hash_mem_first: "quick_hash_mem (b # xs) n = quick_hash_mem (b # ys) n"
  by (simp add: quick_hash_mem_def)

lemma murmur3_hash_c_str: "murmur3_hash (Some s) seed = murmur3_hash_mem (Some (c_str s)) seed"
  by (simp add: murmur3_hash_def murmur3_hash_mem_def)

end
