(* ===== verification/NameService.thy ===== *)
theory NameService
  imports Prelude "HOL-Library.List_Lexorder"
begin

text \<open>
  The registry of the name service (\<open>src/ns/ns_protocol.cpp\<close>, \<open>include/ns/ns_protocol.h\<close>): domains,
  commands and nodes in three nested ordered maps. A \<open>std::map\<close> is a list of pairs in the order
  of its keys. Every set of nodes and every domain is held by one container, so that an update
  through a pointer is an update of the value in its place. The conversion \<open>inet_addr\<close> of the C
  library is an argument.
\<close>

section \<open>Ordered maps\<close>

type_synonym ('k, 'v) omap = "('k \<times> 'v) list"

fun om_set :: "'k::linorder \<Rightarrow> 'v \<Rightarrow> ('k, 'v) omap \<Rightarrow> ('k, 'v) omap" where
  "om_set k v [] = [(k, v)]"
| "om_set k v ((a, b) # xs) =
    (if k < a then (k, v) # (a, b) # xs else if k = a then (k, v) # xs else (a, b) # om_set k v xs)"

definition om_erase :: "'k \<Rightarrow> ('k, 'v) omap \<Rightarrow> ('k, 'v) omap" where
  "om_erase k xs = filter (\<lambda>(a, b). a \<noteq> k) xs"

definition om_find :: "('k, 'v) omap \<Rightarrow> 'k \<Rightarrow> 'v option" where
  "om_find xs k = map_of xs k"

definition om_ok :: "('k::linorder, 'v) omap \<Rightarrow> bool" where
  "om_ok xs \<longleftrightarrow> sorted_wrt (<) (map fst xs)"

section \<open>Nodes, sets of nodes, domains\<close>

record nsnode =
  nsn_id :: u64
  nsn_ip :: "byte list"
  nsn_port :: u16
  nsn_weight :: u32

definition GetID :: "(byte list \<Rightarrow> u32) \<Rightarrow> byte list \<Rightarrow> u16 \<Rightarrow> u64" where
  "GetID inet_addr ip port = push_bit 32 (ucast (inet_addr ip)) OR ucast port"

definition new_NSNode :: "(byte list \<Rightarrow> u32) \<Rightarrow> byte list \<Rightarrow> u16 \<Rightarrow> u32 \<Rightarrow> nsnode" where
  "new_NSNode inet_addr ip port weight =
    \<lparr> nsn_id = GetID inet_addr ip port, nsn_ip = ip, nsn_port = port, nsn_weight = weight \<rparr>"

definition setWeight :: "u32 \<Rightarrow> nsnode \<Rightarrow> nsnode" where
  "setWeight v n = n\<lparr> nsn_weight := v \<rparr>"

record nsnodeset =
  nss_cmd :: u32
  nss_datas :: "(u64, nsnode) omap"

definition new_NSNodeSet :: "u32 \<Rightarrow> nsnodeset" where
  "new_NSNodeSet cmd = \<lparr> nss_cmd = cmd, nss_datas = [] \<rparr>"

definition nss_size :: "nsnodeset \<Rightarrow> nat" where
  "nss_size s = length (nss_datas s)"

definition nss_add :: "nsnode \<Rightarrow> nsnodeset \<Rightarrow> nsnodeset" where
  "nss_add info s = s\<lparr> nss_datas := om_set (nsn_id info) info (nss_datas s) \<rparr>"

definition nss_del :: "u64 \<Rightarrow> nsnodeset \<Rightarrow> nsnode option \<times> nsnodeset" where
  "nss_del i s =
    (case om_find (nss_datas s) i of
       None \<Rightarrow> (None, s)
     | Some n \<Rightarrow> (Some n, s\<lparr> nss_datas := om_erase i (nss_datas s) \<rparr>))"

definition nss_get :: "u64 \<Rightarrow> nsnodeset \<Rightarrow> nsnode option" where
  "nss_get i s = om_find (nss_datas s) i"

definition nss_listAll :: "nsnode list \<Rightarrow> nsnodeset \<Rightarrow> nsnode list" where
  "nss_listAll infos s = infos @ map snd (nss_datas s)"

record nsdomain =
  nsd_domain :: "byte list"
  nsd_datas :: "(u32, nsnodeset) omap"

definition new_NSDomain :: "byte list \<Rightarrow> nsdomain" where
  "new_NSDomain domain = \<lparr> nsd_domain = domain, nsd_datas = [] \<rparr>"

definition nsd_add_set :: "nsnodeset \<Rightarrow> nsdomain \<Rightarrow> nsdomain" where
  "nsd_add_set info d = d\<lparr> nsd_datas := om_set (nss_cmd info) info (nsd_datas d) \<rparr>"

definition nsd_size :: "nsdomain \<Rightarrow> nat" where
  "nsd_size d = length (nsd_datas d)"

definition nsd_get :: "u32 \<Rightarrow> nsdomain \<Rightarrow> nsnodeset option" where
  "nsd_get cmd d = om_find (nsd_datas d) cmd"

text \<open>The set a pointer of this domain points to is replaced in its place.\<close>

definition nsd_put :: "u32 \<Rightarrow> nsnodeset \<Rightarrow> nsdomain \<Rightarrow> nsdomain" where
  "nsd_put cmd s d = d\<lparr> nsd_datas := om_set cmd s (nsd_datas d) \<rparr>"

definition nsd_add :: "u32 \<Rightarrow> nsnode \<Rightarrow> nsdomain \<Rightarrow> nsdomain" where
  "nsd_add cmd info d =
    (case nsd_get cmd d of
       None \<Rightarrow> let d1 = nsd_add_set (new_NSNodeSet cmd) d in
         nsd_put cmd (nss_add info (new_NSNodeSet cmd)) d1
     | Some s \<Rightarrow> nsd_put cmd (nss_add info s) d)"

definition nsd_del_cmd :: "u32 \<Rightarrow> nsdomain \<Rightarrow> nsdomain" where
  "nsd_del_cmd cmd d = d\<lparr> nsd_datas := om_erase cmd (nsd_datas d) \<rparr>"

definition nsd_del :: "u32 \<Rightarrow> u64 \<Rightarrow> nsdomain \<Rightarrow> nsnode option \<times> nsdomain" where
  "nsd_del cmd i d =
    (case nsd_get cmd d of
       None \<Rightarrow> (None, d)
     | Some s \<Rightarrow>
         let (info, s') = nss_del i s; d' = nsd_put cmd s' d in
         if nss_size s' = 0 then (info, nsd_del_cmd cmd d') else (info, d'))"

definition nsd_listAll :: "nsnodeset list \<Rightarrow> nsdomain \<Rightarrow> nsnodeset list" where
  "nsd_listAll infos d = infos @ map snd (nsd_datas d)"

section \<open>The set of domains\<close>

type_synonym nsdomainset = "(byte list, nsdomain) omap"

definition nsds_add :: "nsdomain \<Rightarrow> nsdomainset \<Rightarrow> nsdomainset" where
  "nsds_add info ds = om_set (nsd_domain info) info ds"

definition nsds_del_domain :: "byte list \<Rightarrow> nsdomainset \<Rightarrow> nsdomainset" where
  "nsds_del_domain domain ds = om_erase domain ds"

definition nsds_get :: "byte list \<Rightarrow> bool \<Rightarrow> nsdomainset \<Rightarrow> nsdomain option \<times> nsdomainset" where
  "nsds_get domain auto_create ds =
    (if \<not> auto_create then (om_find ds domain, ds)
     else case om_find ds domain of
       Some d \<Rightarrow> (Some d, ds)
     | None \<Rightarrow> (Some (new_NSDomain domain), om_set domain (new_NSDomain domain) ds))"

definition nsds_put :: "byte list \<Rightarrow> nsdomain \<Rightarrow> nsdomainset \<Rightarrow> nsdomainset" where
  "nsds_put domain d ds = om_set domain d ds"

definition nsds_del :: "byte list \<Rightarrow> u32 \<Rightarrow> u64 \<Rightarrow> nsdomainset \<Rightarrow> nsdomainset" where
  "nsds_del domain cmd i ds =
    (case nsds_get domain False ds of
       (None, ds1) \<Rightarrow> ds1
     | (Some d, ds1) \<Rightarrow>
         (case nsd_get cmd d of
            None \<Rightarrow> ds1
          | Some s \<Rightarrow> nsds_put domain (nsd_put cmd (snd (nss_del i s)) d) ds1))"

definition nsds_listAll :: "nsdomain list \<Rightarrow> nsdomainset \<Rightarrow> nsdomain list" where
  "nsds_listAll infos ds = infos @ map snd ds"

definition nsds_swap :: "nsdomainset \<Rightarrow> nsdomainset \<Rightarrow> nsdomainset \<times> nsdomainset" where
  "nsds_swap a b = (b, a)"

section \<open>Ordered maps behave as maps\<close>

text \<open>What the registry relies on: an update changes one key and keeps the order.\<close>

locale ordered_map =
  fixes put :: "'k \<Rightarrow> 'v \<Rightarrow> 'm \<Rightarrow> 'm" and erase :: "'k \<Rightarrow> 'm \<Rightarrow> 'm"
    and find :: "'m \<Rightarrow> 'k \<Rightarrow> 'v option" and ok :: "'m \<Rightarrow> bool"
  assumes find_put: "ok m \<Longrightarrow> find (put k v m) = (find m)(k \<mapsto> v)"
    and find_erase: "find (erase k m) = (find m)(k := None)"
    and ok_put: "ok m \<Longrightarrow> ok (put k v m)"
    and ok_erase: "ok m \<Longrightarrow> ok (erase k m)"
begin

lemma all_put:
  assumes "ok m" "\<And>k v. find m k = Some v \<Longrightarrow> P k v" "P k v"
  shows "find (put k v m) j = Some w \<Longrightarrow> P j w"
  using assms find_put [OF assms(1), of k v] by (auto split: if_splits)

lemma all_erase:
  assumes "\<And>k v. find m k = Some v \<Longrightarrow> P k v"
  shows "find (erase k m) j = Some w \<Longrightarrow> P j w"
  using assms find_erase [of k m] by (auto split: if_splits)

end

lemma map_of_om_set: "om_ok xs \<Longrightarrow> map_of (om_set k v xs) = (map_of xs)(k \<mapsto> v)"
proof (induction k v xs rule: om_set.induct)
  case (2 k v a b xs)
  have none: "map_of xs j = None" if "j \<le> a" for j
  proof (rule ccontr)
    assume "map_of xs j \<noteq> None"
    then have "j \<in> fst ` set xs" by (metis map_of_eq_None_iff)
    then show False using 2 that by (auto simp: om_ok_def)
  qed
  have "om_ok xs" using 2 by (simp add: om_ok_def)
  then show ?case using 2 none by (auto simp: fun_eq_iff)
qed simp

lemma fst_om_set: "fst ` set (om_set k v xs) = insert k (fst ` set xs)"
  by (induction k v xs rule: om_set.induct) auto

lemma om_ok_set: "om_ok xs \<Longrightarrow> om_ok (om_set k v xs)"
proof (induction k v xs rule: om_set.induct)
  case (2 k v a b xs)
  have lt: "\<forall>x \<in> fst ` set xs. a < x" and ok: "om_ok xs" using 2 by (auto simp: om_ok_def)
  show ?case
  proof (cases "k \<le> a")
    case True
    then show ?thesis using lt 2 by (auto simp: om_ok_def)
  next
    case False
    then have "om_ok (om_set k v xs)" using 2 ok by simp
    then show ?thesis using False lt fst_om_set [of k v xs] by (auto simp: om_ok_def)
  qed
qed (simp add: om_ok_def)

lemma map_of_om_erase: "map_of (om_erase k xs) = (map_of xs)(k := None)"
  by (induction xs) (auto simp: om_erase_def fun_eq_iff)

lemma om_ok_erase: "om_ok xs \<Longrightarrow> om_ok (om_erase k xs)"
  by (induction xs) (auto simp: om_ok_def om_erase_def)

interpretation om: ordered_map om_set om_erase om_find om_ok
  by unfold_locales (simp_all add: om_find_def map_of_om_set map_of_om_erase om_ok_set om_ok_erase fun_eq_iff)

section \<open>The registry as a map\<close>

definition set_ok :: "u32 \<Rightarrow> nsnodeset \<Rightarrow> bool" where
  "set_ok cmd s \<longleftrightarrow> nss_cmd s = cmd \<and> om_ok (nss_datas s) \<and>
     (\<forall>i n. om_find (nss_datas s) i = Some n \<longrightarrow> nsn_id n = i)"

definition domain_ok :: "byte list \<Rightarrow> nsdomain \<Rightarrow> bool" where
  "domain_ok name d \<longleftrightarrow> nsd_domain d = name \<and> om_ok (nsd_datas d) \<and>
     (\<forall>c s. om_find (nsd_datas d) c = Some s \<longrightarrow> set_ok c s)"

definition registry_ok :: "nsdomainset \<Rightarrow> bool" where
  "registry_ok ds \<longleftrightarrow> om_ok ds \<and> (\<forall>name d. om_find ds name = Some d \<longrightarrow> domain_ok name d)"

definition set_node :: "nsnodeset option \<Rightarrow> u64 \<Rightarrow> nsnode option" where
  "set_node s i = Option.bind s (\<lambda>s. om_find (nss_datas s) i)"

definition domain_node :: "nsdomain option \<Rightarrow> u32 \<Rightarrow> u64 \<Rightarrow> nsnode option" where
  "domain_node d c i = Option.bind d (\<lambda>d. set_node (om_find (nsd_datas d) c) i)"

definition lookup_node :: "nsdomainset \<Rightarrow> byte list \<Rightarrow> u32 \<Rightarrow> u64 \<Rightarrow> nsnode option" where
  "lookup_node ds name c i = domain_node (om_find ds name) c i"

lemmas node_defs = lookup_node_def domain_node_def set_node_def

lemma set_ok_new: "set_ok cmd (new_NSNodeSet cmd)"
  by (simp add: set_ok_def new_NSNodeSet_def om_ok_def om_find_def)

lemma set_ok_add: "set_ok cmd s \<Longrightarrow> set_ok cmd (nss_add info s)"
  by (auto simp: set_ok_def nss_add_def om.find_put om.ok_put split: if_splits)

lemma set_ok_del: "set_ok cmd s \<Longrightarrow> set_ok cmd (snd (nss_del i s))"
  by (auto simp: set_ok_def nss_del_def om.find_erase om.ok_erase split: if_splits option.splits)

lemma node_add: "set_ok cmd s \<Longrightarrow> set_node (Some (nss_add info s)) = (set_node (Some s))(nsn_id info \<mapsto> info)"
  by (auto simp: set_node_def nss_add_def set_ok_def om.find_put)

lemma node_del: "set_node (Some (snd (nss_del i s))) = (set_node (Some s))(i := None)"
  by (auto simp: set_node_def nss_del_def om.find_erase fun_eq_iff split: option.split)

lemma domain_ok_new: "domain_ok name (new_NSDomain name)"
  by (simp add: domain_ok_def new_NSDomain_def om_ok_def om_find_def)

lemma domain_ok_put: "domain_ok name d \<Longrightarrow> set_ok c s \<Longrightarrow> domain_ok name (nsd_put c s d)"
  by (auto simp: domain_ok_def nsd_put_def om.find_put om.ok_put split: if_splits)

lemma domain_put:
  "domain_ok name d \<Longrightarrow> domain_node (Some (nsd_put c s d)) = (domain_node (Some d))(c := set_node (Some s))"
  by (auto simp: domain_node_def nsd_put_def domain_ok_def om.find_put fun_eq_iff)

lemma domain_ok_del_cmd: "domain_ok name d \<Longrightarrow> domain_ok name (nsd_del_cmd c d)"
  by (auto simp: domain_ok_def nsd_del_cmd_def om.find_erase om.ok_erase split: if_splits)

lemma domain_del_cmd:
  "domain_node (Some (nsd_del_cmd c d)) = (domain_node (Some d))(c := \<lambda>_. None)"
  by (auto simp: domain_node_def set_node_def nsd_del_cmd_def om.find_erase fun_eq_iff)

lemma domain_get: "domain_node (Some d) c = set_node (nsd_get c d)"
  by (simp add: domain_node_def nsd_get_def fun_eq_iff)

lemma nsd_add_correct:
  assumes "domain_ok name d"
  shows "domain_ok name (nsd_add c info d) \<and>
         domain_node (Some (nsd_add c info d)) = (domain_node (Some d))(c := (domain_node (Some d) c)(nsn_id info \<mapsto> info))"
proof (cases "nsd_get c d")
  case None
  have e: "nsd_add_set (new_NSNodeSet c) d = nsd_put c (new_NSNodeSet c) d"
    by (simp add: nsd_add_set_def nsd_put_def new_NSNodeSet_def)
  have d1: "domain_ok name (nsd_put c (new_NSNodeSet c) d)" using assms set_ok_new by (rule domain_ok_put)
  have "set_node (Some (new_NSNodeSet c)) = domain_node (Some d) c"
    using None by (simp add: domain_get set_node_def new_NSNodeSet_def om_find_def fun_eq_iff)
  then show ?thesis
    using None d1 domain_ok_put [OF d1 set_ok_add [OF set_ok_new]] domain_put [OF d1] domain_put [OF assms]
      node_add [OF set_ok_new]
    by (simp add: nsd_add_def e)
next
  case (Some s)
  then have "set_ok c s" using assms by (simp add: domain_ok_def nsd_get_def)
  then show ?thesis
    using Some assms domain_ok_put [OF assms set_ok_add] domain_put [OF assms] node_add
    by (simp add: nsd_add_def domain_get)
qed

lemma nsd_del_correct:
  assumes "domain_ok name d"
  shows "domain_ok name (snd (nsd_del c i d)) \<and>
         domain_node (Some (snd (nsd_del c i d))) = (domain_node (Some d))(c := (domain_node (Some d) c)(i := None))"
proof (cases "nsd_get c d")
  case None
  then have "domain_node (Some d) c = (\<lambda>_. None)" by (simp add: domain_get set_node_def fun_eq_iff)
  then have "(domain_node (Some d))(c := (domain_node (Some d) c)(i := None)) = domain_node (Some d)"
    by (auto simp: fun_eq_iff)
  then show ?thesis using None assms by (simp add: nsd_del_def)
next
  case (Some s)
  obtain info s' where s': "nss_del i s = (info, s')" by (cases "nss_del i s")
  have so: "set_ok c s'" using assms Some set_ok_del [of c s i] s' by (simp add: domain_ok_def nsd_get_def)
  have nd: "set_node (Some s') = (domain_node (Some d) c)(i := None)"
    using node_del [of i s] s' Some by (simp add: domain_get)
  note po = domain_ok_put [OF assms so] and pn = domain_put [OF assms, of c s']
  show ?thesis
  proof (cases "nss_size s' = 0")
    case True
    then have "set_node (Some s') = (\<lambda>_. None)"
      by (auto simp: set_node_def nss_size_def om_find_def fun_eq_iff)
    then have "domain_node (Some (nsd_del_cmd c (nsd_put c s' d))) = (domain_node (Some d))(c := set_node (Some s'))"
      unfolding domain_del_cmd pn by simp
    then show ?thesis
      using True Some s' nd domain_ok_del_cmd [OF po] by (simp add: nsd_del_def Let_def)
  next
    case False
    then show ?thesis using Some s' nd po pn by (simp add: nsd_del_def Let_def)
  qed
qed

section \<open>Histories of the registry\<close>

text \<open>
  What the name server does with the registry: a node registers (the domain is created on
  demand), a connection's node is removed, through the set of domains or through its domain, and
  a whole command or domain is dropped.
\<close>

datatype ns_op =
    Register "byte list" u32 nsnode
  | Unregister "byte list" u32 u64
  | Remove "byte list" u32 u64
  | DropCmd "byte list" u32
  | DropDomain "byte list"

definition on_domain :: "byte list \<Rightarrow> (nsdomain \<Rightarrow> nsdomain) \<Rightarrow> nsdomainset \<Rightarrow> nsdomainset" where
  "on_domain name f ds =
    (case nsds_get name False ds of (None, ds1) \<Rightarrow> ds1 | (Some d, ds1) \<Rightarrow> nsds_put name (f d) ds1)"

fun ns_step :: "ns_op \<Rightarrow> nsdomainset \<Rightarrow> nsdomainset" where
  "ns_step (Register name c n) ds =
    (case nsds_get name True ds of (None, ds1) \<Rightarrow> ds1 | (Some d, ds1) \<Rightarrow> nsds_put name (nsd_add c n d) ds1)"
| "ns_step (Unregister name c i) ds = nsds_del name c i ds"
| "ns_step (Remove name c i) ds = on_domain name (\<lambda>d. snd (nsd_del c i d)) ds"
| "ns_step (DropCmd name c) ds = on_domain name (nsd_del_cmd c) ds"
| "ns_step (DropDomain name) ds = nsds_del_domain name ds"

type_synonym ns_spec = "byte list \<Rightarrow> u32 \<Rightarrow> u64 \<Rightarrow> nsnode option"

fun ns_spec_step :: "ns_op \<Rightarrow> ns_spec \<Rightarrow> ns_spec" where
  "ns_spec_step (Register name c n) m = m(name := (m name)(c := (m name c)(nsn_id n \<mapsto> n)))"
| "ns_spec_step (Unregister name c i) m = m(name := (m name)(c := (m name c)(i := None)))"
| "ns_spec_step (Remove name c i) m = m(name := (m name)(c := (m name c)(i := None)))"
| "ns_spec_step (DropCmd name c) m = m(name := (m name)(c := \<lambda>_. None))"
| "ns_spec_step (DropDomain name) m = m(name := \<lambda>_ _. None)"

lemma lookup_put:
  "registry_ok ds \<Longrightarrow> lookup_node (nsds_put name d ds) = (lookup_node ds)(name := domain_node (Some d))"
  by (auto simp: lookup_node_def nsds_put_def registry_ok_def om.find_put fun_eq_iff)

lemma registry_put: "registry_ok ds \<Longrightarrow> domain_ok name d \<Longrightarrow> registry_ok (nsds_put name d ds)"
  by (auto simp: registry_ok_def nsds_put_def om.find_put om.ok_put split: if_splits)

lemma lookup_name: "lookup_node ds name = domain_node (om_find ds name)"
  by (simp add: lookup_node_def fun_eq_iff)

lemma no_domain: "domain_node None = (\<lambda>_ _. None)"
  by (simp add: domain_node_def fun_eq_iff)

lemma on_domain_correct:
  assumes ok: "registry_ok ds"
    and f: "\<And>d. domain_ok name d \<Longrightarrow> domain_ok name (f d) \<and> domain_node (Some (f d)) = g (domain_node (Some d))"
    and g: "g (\<lambda>_ _. None) = (\<lambda>_ _. None)"
  shows "registry_ok (on_domain name f ds) \<and>
         lookup_node (on_domain name f ds) = (lookup_node ds)(name := g (lookup_node ds name))"
proof (cases "om_find ds name")
  case None
  then have "(lookup_node ds)(name := g (lookup_node ds name)) = lookup_node ds"
    using g by (simp add: lookup_name no_domain fun_eq_iff)
  then show ?thesis using None ok by (simp add: on_domain_def nsds_get_def)
next
  case (Some d)
  then have "domain_ok name d" using ok by (simp add: registry_ok_def)
  then show ?thesis
    using Some f registry_put [OF ok] lookup_put [OF ok] by (simp add: on_domain_def nsds_get_def lookup_name)
qed

lemma nsds_del_on_domain:
  "nsds_del name c i ds
     = on_domain name (\<lambda>d. case nsd_get c d of None \<Rightarrow> d | Some s \<Rightarrow> nsd_put c (snd (nss_del i s)) d) ds
   \<or> (\<exists>d. om_find ds name = Some d \<and> nsd_get c d = None \<and> nsds_del name c i ds = ds)"
  by (auto simp: nsds_del_def on_domain_def nsds_get_def split: option.split)

lemma unregister_domain:
  assumes "domain_ok name d"
  shows "domain_ok name (case nsd_get c d of None \<Rightarrow> d | Some s \<Rightarrow> nsd_put c (snd (nss_del i s)) d) \<and>
         domain_node (Some (case nsd_get c d of None \<Rightarrow> d | Some s \<Rightarrow> nsd_put c (snd (nss_del i s)) d))
           = (domain_node (Some d))(c := (domain_node (Some d) c)(i := None))"
proof (cases "nsd_get c d")
  case None
  then have "domain_node (Some d) c = (\<lambda>_. None)" by (simp add: domain_get set_node_def fun_eq_iff)
  then have "(domain_node (Some d))(c := (domain_node (Some d) c)(i := None)) = domain_node (Some d)"
    by (auto simp: fun_eq_iff)
  then show ?thesis using None assms by simp
next
  case (Some s)
  then have "set_ok c s" using assms by (simp add: domain_ok_def nsd_get_def)
  then show ?thesis
    using Some domain_ok_put [OF assms set_ok_del] domain_put [OF assms] node_del
    by (simp add: domain_get)
qed

lemma ns_step_correct:
  assumes "registry_ok ds"
  shows "registry_ok (ns_step op ds) \<and> lookup_node (ns_step op ds) = ns_spec_step op (lookup_node ds)"
proof (cases op)
  case (Register name c n)
  show ?thesis
  proof (cases "om_find ds name")
    case None
    let ?d = "new_NSDomain name"
    have d: "domain_node (Some ?d) = lookup_node ds name"
      using None by (simp add: lookup_name no_domain domain_node_def set_node_def new_NSDomain_def om_find_def fun_eq_iff)
    have p: "om_set name ?d ds = nsds_put name ?d ds" by (simp add: nsds_put_def)
    note r1 = registry_put [OF assms domain_ok_new] and a = nsd_add_correct [OF domain_ok_new, of name c n]
    show ?thesis
      using Register None a d registry_put [OF r1] lookup_put [OF r1] lookup_put [OF assms]
      by (simp add: nsds_get_def p)
  next
    case (Some d)
    then have "domain_ok name d" using assms by (simp add: registry_ok_def)
    then show ?thesis
      using Register Some nsd_add_correct [of name d c n] registry_put [OF assms] lookup_put [OF assms]
      by (simp add: nsds_get_def lookup_name)
  qed
next
  case (Unregister name c i)
  have "nsds_del name c i ds = on_domain name (\<lambda>d. case nsd_get c d of None \<Rightarrow> d | Some s \<Rightarrow> nsd_put c (snd (nss_del i s)) d) ds
      \<or> (\<exists>d. om_find ds name = Some d \<and> nsd_get c d = None \<and> nsds_del name c i ds = ds)"
    by (rule nsds_del_on_domain)
  then show ?thesis
  proof (elim disjE exE conjE)
    assume e: "nsds_del name c i ds
        = on_domain name (\<lambda>d. case nsd_get c d of None \<Rightarrow> d | Some s \<Rightarrow> nsd_put c (snd (nss_del i s)) d) ds"
    let ?f = "\<lambda>d. case nsd_get c d of None \<Rightarrow> d | Some s \<Rightarrow> nsd_put c (snd (nss_del i s)) d"
    let ?g = "\<lambda>m :: u32 \<Rightarrow> u64 \<Rightarrow> nsnode option. m(c := (m c)(i := None))"
    show ?thesis
      unfolding Unregister ns_step.simps ns_spec_step.simps e
      using on_domain_correct [where name = name and f = ?f and g = ?g, OF assms unregister_domain] by (simp add: fun_eq_iff)
  next
    fix d assume d: "om_find ds name = Some d" "nsd_get c d = None" "nsds_del name c i ds = ds"
    then have "lookup_node ds name c = (\<lambda>_. None)"
      by (simp add: lookup_name domain_get set_node_def fun_eq_iff)
    then show ?thesis using Unregister d(3) assms by (auto simp: fun_eq_iff)
  qed
next
  case (Remove name c i)
  let ?g = "\<lambda>m :: u32 \<Rightarrow> u64 \<Rightarrow> nsnode option. m(c := (m c)(i := None))"
  show ?thesis
    using Remove on_domain_correct [where name = name and f = "\<lambda>d. snd (nsd_del c i d)" and g = ?g, OF assms nsd_del_correct] by (simp add: fun_eq_iff)
next
  case (DropCmd name c)
  have "domain_ok name (nsd_del_cmd c d) \<and>
      domain_node (Some (nsd_del_cmd c d)) = (domain_node (Some d))(c := \<lambda>_. None)" if "domain_ok name d" for d
    using that domain_ok_del_cmd domain_del_cmd by blast
  then show ?thesis
    using DropCmd on_domain_correct [OF assms, of name "nsd_del_cmd c" "\<lambda>m. m(c := \<lambda>_. None)"]
    by (auto simp: fun_eq_iff)
next
  case (DropDomain name)
  then show ?thesis
    using assms by (auto simp: nsds_del_domain_def registry_ok_def om.find_erase om.ok_erase lookup_node_def
        domain_node_def fun_eq_iff split: if_splits)
qed

section \<open>Properties\<close>


text \<open>The two ways of removing the last node differ: one leaves an empty set behind.\<close>

lemma ns_del_leaves_empty_set:
  "nsds_del [1] 7 0 [([1], \<lparr> nsd_domain = [1], nsd_datas = [(7, \<lparr> nss_cmd = 7, nss_datas = [(0, n)] \<rparr>)] \<rparr>)]
     = [([1], \<lparr> nsd_domain = [1], nsd_datas = [(7, \<lparr> nss_cmd = 7, nss_datas = [] \<rparr>)] \<rparr>)] \<and>
   snd (nsd_del 7 0 \<lparr> nsd_domain = [1], nsd_datas = [(7, \<lparr> nss_cmd = 7, nss_datas = [(0, n)] \<rparr>)] \<rparr>)
     = \<lparr> nsd_domain = [1], nsd_datas = [] \<rparr>"
  by (simp add: nsds_del_def nsds_get_def om_find_def nsd_get_def nss_del_def om_erase_def nsds_put_def nsd_put_def
      nsd_del_def nsd_del_cmd_def nss_size_def)

end
