(* ===== verification/LoadBalance.thy ===== *)
theory LoadBalance
  imports Prelude
begin

text \<open>
  Client-side load balancing (\<open>src/streams/load_balance.cpp\<close>, \<open>include/streams/load_balance.h\<close>):
  the table of items with its operations, the round-robin and the weighted choice, and the ring of
  per-second statistics. Whether an item's stream is connected when it is asked, the clock and the
  values of \<open>rand\<close> are arguments; a hash table is an association list in the order of its
  iteration. The weight computed in floating point from the statistics is not modelled.
\<close>

section \<open>Statistics\<close>

record holder_stats =
  hs_usedTime :: u32
  hs_total :: u32
  hs_doing :: u32
  hs_timeouts :: u32
  hs_oks :: u32
  hs_errs :: u32

definition zero_stats :: holder_stats where
  "zero_stats = \<lparr> hs_usedTime = 0, hs_total = 0, hs_doing = 0, hs_timeouts = 0, hs_oks = 0, hs_errs = 0 \<rparr>"

definition hs_clear :: "holder_stats \<Rightarrow> holder_stats" where
  "hs_clear s = zero_stats"

definition hs_add :: "holder_stats \<Rightarrow> holder_stats \<Rightarrow> holder_stats" where
  "hs_add rt i =
    \<lparr> hs_usedTime = hs_usedTime rt + hs_usedTime i, hs_total = hs_total rt + hs_total i,
      hs_doing = hs_doing rt + hs_doing i, hs_timeouts = hs_timeouts rt + hs_timeouts i,
      hs_oks = hs_oks rt + hs_oks i, hs_errs = hs_errs rt + hs_errs i \<rparr>"

record stats_set =
  ss_lastUpdateTime :: nat
  ss_stats :: "holder_stats list"

definition new_HolderStatsSet :: "nat \<Rightarrow> stats_set" where
  "new_HolderStatsSet n = \<lparr> ss_lastUpdateTime = 0, ss_stats = replicate n zero_stats \<rparr>"

definition getTotal :: "stats_set \<Rightarrow> holder_stats" where
  "getTotal s = foldl hs_add zero_stats (ss_stats s)"

text \<open>The seconds behind the last update, at most one round of the ring; times are below \<open>2 ^ 32\<close>.\<close>

fun stats_clear_loop :: "nat \<Rightarrow> nat \<Rightarrow> nat \<Rightarrow> holder_stats list \<Rightarrow> holder_stats list" where
  "stats_clear_loop 0 t now stats = stats"
| "stats_clear_loop (Suc k) t now stats =
    (if t \<le> now
     then stats_clear_loop k (Suc t) now
            (stats[t mod length stats := hs_clear (stats ! (t mod length stats))])
     else stats)"

definition stats_init :: "nat \<Rightarrow> stats_set \<Rightarrow> stats_set" where
  "stats_init now s =
    (if ss_lastUpdateTime s < now
     then s\<lparr> ss_stats := stats_clear_loop (length (ss_stats s)) (ss_lastUpdateTime s + 1) now (ss_stats s),
             ss_lastUpdateTime := now \<rparr>
     else s)"

definition stats_get :: "nat \<Rightarrow> stats_set \<Rightarrow> (holder_stats \<times> stats_set) result" where
  "stats_get now s0 =
    (let s = stats_init now s0 in
     if ss_stats s = [] then Inl DivByZero
     else Inr (ss_stats s ! (now mod length (ss_stats s)), s))"

section \<open>The table of items\<close>

record lbitem =
  it_id :: u64
  it_weight :: int

record lb =
  lb_datas :: "(u64 \<times> lbitem) list"
  lb_lastInitTime :: nat
  lb_items :: "lbitem list"
  lb_weights :: "int list"

definition new_LoadBalance :: lb where
  "new_LoadBalance = \<lparr> lb_datas = [], lb_lastInitTime = 0, lb_items = [], lb_weights = [] \<rparr>"

definition lb_getById :: "u64 \<Rightarrow> lb \<Rightarrow> lbitem option" where
  "lb_getById i b = map_of (lb_datas b) i"

text \<open>\<open>_datas[k] = v\<close>.\<close>

definition datas_set :: "u64 \<Rightarrow> lbitem \<Rightarrow> (u64 \<times> lbitem) list \<Rightarrow> (u64 \<times> lbitem) list" where
  "datas_set k v ds = (if map_of ds k = None then ds @ [(k, v)] else map (\<lambda>(a, x). if a = k then (a, v) else (a, x)) ds)"

text \<open>The virtual \<open>initNolock\<close> is the argument \<open>ini\<close> of the base class.\<close>

definition lb_add :: "(lb \<Rightarrow> lb) \<Rightarrow> lbitem \<Rightarrow> lb \<Rightarrow> lb" where
  "lb_add ini v b = ini (b\<lparr> lb_datas := datas_set (it_id v) v (lb_datas b) \<rparr>)"

definition lb_del :: "(lb \<Rightarrow> lb) \<Rightarrow> lbitem \<Rightarrow> lb \<Rightarrow> lb" where
  "lb_del ini v b = ini (b\<lparr> lb_datas := drop_key (it_id v) (lb_datas b) \<rparr>)"

text \<open>\<open>dels\<close> comes back with the removed items.\<close>

fun update_dels :: "(u64 \<times> lbitem option) list \<Rightarrow> (u64 \<times> lbitem) list
    \<Rightarrow> (u64 \<times> lbitem option) list \<times> (u64 \<times> lbitem) list" where
  "update_dels [] ds = ([], ds)"
| "update_dels ((i, x) # dels) ds =
    (case map_of ds i of
       None \<Rightarrow> (let (r, ds') = update_dels dels ds in ((i, x) # r, ds'))
     | Some it \<Rightarrow> (let (r, ds') = update_dels dels (drop_key i ds) in ((i, Some it) # r, ds')))"

definition lb_update :: "(lb \<Rightarrow> lb) \<Rightarrow> (u64 \<times> lbitem) list \<Rightarrow> (u64 \<times> lbitem option) list \<Rightarrow> lb
    \<Rightarrow> (u64 \<times> lbitem option) list \<times> lb" where
  "lb_update ini adds dels b =
    (let (dels', ds) = update_dels dels (lb_datas b);
         ds' = fold (\<lambda>(i, x). datas_set i x) adds ds in
     (dels', ini (b\<lparr> lb_datas := ds' \<rparr>)))"

definition lb_set :: "(lb \<Rightarrow> lb) \<Rightarrow> lbitem list \<Rightarrow> lb \<Rightarrow> lb" where
  "lb_set ini vs b = ini (b\<lparr> lb_datas := fold (\<lambda>x. datas_set (it_id x) x) vs [] \<rparr>)"

definition lb_checkInit :: "(lb \<Rightarrow> lb) \<Rightarrow> nat \<Rightarrow> lb \<Rightarrow> lb" where
  "lb_checkInit ini ts b =
    (if 500 < usub64 ts (lb_lastInitTime b) then (ini b)\<lparr> lb_lastInitTime := ts \<rparr> else b)"

section \<open>Round robin\<close>

definition rr_initNolock :: "(lbitem \<Rightarrow> bool) \<Rightarrow> lb \<Rightarrow> lb" where
  "rr_initNolock isValid b = b\<lparr> lb_items := filter isValid (map snd (lb_datas b)) \<rparr>"

text \<open>The first valid item from index \<open>r\<close> on, around the vector.\<close>

definition pick_from :: "(lbitem \<Rightarrow> bool) \<Rightarrow> nat \<Rightarrow> lbitem list \<Rightarrow> lbitem option" where
  "pick_from isValid r items =
    find isValid (map (\<lambda>i. items ! ((r + i) mod length items)) [0..<length items])"

definition choice :: "nat \<Rightarrow> nat \<Rightarrow> nat" where
  "choice v rnd = (if v = 2 ^ 64 - 1 then rnd else v)"

definition rr_get :: "(lbitem \<Rightarrow> bool) \<Rightarrow> nat \<Rightarrow> nat \<Rightarrow> nat \<Rightarrow> lb \<Rightarrow> lbitem option \<times> lb" where
  "rr_get isValid now v rnd b0 =
    (let b = lb_checkInit (rr_initNolock isValid) now b0 in
     if lb_items b = [] then (None, b)
     else let r = choice v rnd mod length (lb_items b) mod 2 ^ 32 in
       (pick_from isValid r (lb_items b), b))"

section \<open>Weighted choice\<close>

fun prefix_sums :: "int \<Rightarrow> int list \<Rightarrow> int list" where
  "prefix_sums tw [] = []"
| "prefix_sums tw (w # ws) = (tw + w) # prefix_sums (tw + w) ws"

definition w_initNolock :: "(lbitem \<Rightarrow> bool) \<Rightarrow> lb \<Rightarrow> lb" where
  "w_initNolock isValid b =
    (let items = filter isValid (map snd (lb_datas b)) in
     b\<lparr> lb_items := items, lb_weights := prefix_sums 0 (map it_weight items) \<rparr>)"

text \<open>\<open>std::upper_bound\<close> on an ordered range: the first element above \<open>dis\<close>, in 64-bit arithmetic.\<close>

fun upper_bound :: "nat \<Rightarrow> int list \<Rightarrow> nat" where
  "upper_bound dis [] = 0"
| "upper_bound dis (w # ws) = (if dis < nat (w mod 2 ^ 64) then 0 else Suc (upper_bound dis ws))"

definition w_getIdx :: "nat \<Rightarrow> nat \<Rightarrow> lb \<Rightarrow> int result" where
  "w_getIdx v rnd b =
    (if lb_weights b = [] then Inr (-1)
     else let tw = nat (last (lb_weights b) mod 2 ^ 64) in
       if tw = 0 then Inl DivByZero
       else let idx = upper_bound (choice v rnd mod tw) (lb_weights b) in
         if idx = length (lb_weights b) then Inl AssertFailed else Inr (int idx))"

definition w_get :: "(lbitem \<Rightarrow> bool) \<Rightarrow> nat \<Rightarrow> nat \<Rightarrow> nat \<Rightarrow> lb \<Rightarrow> (lbitem option \<times> lb) result" where
  "w_get isValid now v rnd b0 =
    (let b = lb_checkInit (w_initNolock isValid) now b0 in
     bind_res (w_getIdx v rnd b) (\<lambda>idx.
       if idx = -1 then Inr (None, b) else Inr (pick_from isValid (nat idx) (lb_items b), b)))"

section \<open>Choosing a valid item\<close>

lemma rotation_set: "set (map (\<lambda>i. items ! ((r + i) mod length items)) [0..<length items]) = set items"
proof (cases "items = []")
  case False
  let ?n = "length items"
  have n: "0 < ?n" using False by simp
  have "j \<in> (\<lambda>i. (r + i) mod ?n) ` {0..<?n}" if "j < ?n" for j
  proof
    show "(j + (?n - r mod ?n)) mod ?n \<in> {0..<?n}" using n by simp
    have le: "r mod ?n \<le> ?n" using n by (simp add: less_imp_le)
    have "(r + (j + (?n - r mod ?n)) mod ?n) mod ?n = (r mod ?n + (j + (?n - r mod ?n))) mod ?n"
      by (simp only: mod_add_left_eq mod_add_right_eq)
    also have "r mod ?n + (j + (?n - r mod ?n)) = j + ?n" using le by simp
    finally show "j = (r + (j + (?n - r mod ?n)) mod ?n) mod ?n" using that by simp
  qed
  then have "(\<lambda>i. (r + i) mod ?n) ` {0..<?n} = {0..<?n}" using n by auto
  then have "(\<lambda>i. items ! ((r + i) mod ?n)) ` {0..<?n} = (\<lambda>j. items ! j) ` {0..<?n}"
    using image_image [of "\<lambda>j. items ! j" "\<lambda>i. (r + i) mod ?n" "{0..<?n}"] by simp
  then show ?thesis by (simp add: nth_image)
qed simp

lemma find_None: "find P xs = None \<longleftrightarrow> (\<forall>x \<in> set xs. \<not> P x)"
  by (induction xs) auto

lemma find_Some: "find P xs = Some x \<Longrightarrow> x \<in> set xs \<and> P x"
  by (induction xs) (auto split: if_splits)

lemma pick_from_correct:
  "(case pick_from valid r items of
      None \<Rightarrow> (\<forall>x \<in> set items. \<not> valid x)
    | Some x \<Rightarrow> x \<in> set items \<and> valid x)"
proof (cases "pick_from valid r items")
  case None
  then have "\<forall>x \<in> set (map (\<lambda>i. items ! ((r + i) mod length items)) [0..<length items]). \<not> valid x"
    unfolding pick_from_def find_None .
  then show ?thesis using None unfolding rotation_set by simp
next
  case (Some x)
  then have "x \<in> set (map (\<lambda>i. items ! ((r + i) mod length items)) [0..<length items]) \<and> valid x"
    unfolding pick_from_def by (rule find_Some)
  then show ?thesis using Some unfolding rotation_set by simp
qed

lemma rr_get_correct:
  "case rr_get valid now v rnd b of
     (None, b') \<Rightarrow> (\<forall>x \<in> set (lb_items b'). \<not> valid x)
   | (Some x, b') \<Rightarrow> x \<in> set (lb_items b') \<and> valid x"
  using pick_from_correct
  by (auto simp: rr_get_def Let_def split: option.splits)

section \<open>The weighted index\<close>

lemma length_prefix_sums [simp]: "length (prefix_sums t ws) = length ws"
  by (induction ws arbitrary: t) simp_all

lemma prefix_sums_Nil [simp]: "prefix_sums t ws = [] \<longleftrightarrow> ws = []"
  by (cases ws) simp_all

lemma last_prefix_sums: "ws \<noteq> [] \<Longrightarrow> last (prefix_sums t ws) = t + sum_list ws"
  by (induction ws arbitrary: t) auto

lemma sum_part_nonneg:
  fixes ws :: "int list"
  assumes "list_all (\<lambda>w. 0 \<le> w) ws"
  shows "0 \<le> sum_list (take i ws)" "0 \<le> sum_list (drop i ws)"
  using assms set_take_subset [of i ws] set_drop_subset [of i ws]
  by (auto simp: list_all_iff intro!: sum_list_nonneg)

text \<open>
  The values below the total that fall to index \<open>i\<close> are the ones between the sums of the weights
  before and up to it.
\<close>

lemma upper_bound_range:
  assumes "list_all (\<lambda>w. 0 \<le> w) ws" "0 \<le> t" "t + sum_list ws < 2 ^ 63" "int v < t + sum_list ws" "t \<le> int v"
  shows "upper_bound v (prefix_sums t ws) < length ws \<and>
         (\<forall>i < length ws. upper_bound v (prefix_sums t ws) = i \<longleftrightarrow>
            t + sum_list (take i ws) \<le> int v \<and> int v < t + sum_list (take (Suc i) ws))"
  using assms
proof (induction ws arbitrary: t)
  case (Cons w ws)
  have w: "0 \<le> w" "list_all (\<lambda>w. 0 \<le> w) ws" using Cons.prems by simp_all
  have s: "0 \<le> sum_list ws" using sum_part_nonneg(1) [OF w(2), of "length ws"] by simp
  have tww: "nat ((t + w) mod 2 ^ 64) = nat (t + w)" using Cons.prems w s by simp
  show ?case
  proof (cases "int v < t + w")
    case True
    then have u0: "upper_bound v (prefix_sums t (w # ws)) = 0" using tww Cons.prems w by (simp add: zless_nat_conj)
    have "\<not> t + sum_list (take i (w # ws)) \<le> int v" if "0 < i" for i
    proof -
      have "0 \<le> sum_list (take (i - 1) ws)" using w(2) by (rule sum_part_nonneg)
      then show ?thesis using that True by (cases i) auto
    qed
    then have first: "0 = i \<longleftrightarrow> t + sum_list (take i (w # ws)) \<le> int v \<and> int v < t + sum_list (take (Suc i) (w # ws))" for i
      using True Cons.prems(5) by (cases "i = 0") simp_all
    show ?thesis unfolding u0 by (intro conjI allI impI) (simp, rule first)
  next
    case False
    have u: "upper_bound v (prefix_sums t (w # ws)) = Suc (upper_bound v (prefix_sums (t + w) ws))"
      using False tww Cons.prems w by (simp add: zless_nat_conj)
    have ih: "upper_bound v (prefix_sums (t + w) ws) < length ws \<and>
        (\<forall>i < length ws. upper_bound v (prefix_sums (t + w) ws) = i \<longleftrightarrow>
           (t + w) + sum_list (take i ws) \<le> int v \<and> int v < (t + w) + sum_list (take (Suc i) ws))"
      by (rule Cons.IH) (use Cons.prems w False in auto)
    show ?thesis
      unfolding u
    proof (intro conjI allI impI)
      show "Suc (upper_bound v (prefix_sums (t + w) ws)) < length (w # ws)" using ih by simp
      fix i assume i: "i < length (w # ws)"
      show "(Suc (upper_bound v (prefix_sums (t + w) ws)) = i) =
          (t + sum_list (take i (w # ws)) \<le> int v \<and> int v < t + sum_list (take (Suc i) (w # ws)))"
      proof (cases i)
        case 0
        then show ?thesis using False by simp
      next
        case (Suc j)
        then have "j < length ws" using i by simp
        then have "upper_bound v (prefix_sums (t + w) ws) = j \<longleftrightarrow>
            (t + w) + sum_list (take j ws) \<le> int v \<and> int v < (t + w) + sum_list (take (Suc j) ws)"
          using ih by blast
        then show ?thesis using Suc by (simp only: take_Suc_Cons sum_list.Cons add.assoc nat.inject)
      qed
    qed
  qed
qed simp

section \<open>Properties\<close>

text \<open>
  C36: The weighted choice is exactly proportional. When the weights of the usable items are not
  negative and their sum is positive and below \<open>2 ^ 63\<close>, an index is found for every request (the
  assertion never fails and nothing is divided by zero), and of the request values below the sum
  every item gets exactly as many as its weight; an item of weight zero is never chosen first.
\<close>

theorem weighted_choice_exact:
  assumes b: "b = w_initNolock isValid b0" and i: "i < length (lb_items b)"
    and w: "list_all (\<lambda>x. 0 \<le> it_weight x) (lb_items b)"
    and sum: "tw = sum_list (map it_weight (lb_items b))" "0 < tw" "tw < 2 ^ 63"
  shows "(\<forall>v. \<exists>j < length (lb_items b). w_getIdx v rnd b = Inr (int j)) \<and>
         int (card {v. v < nat tw \<and> w_getIdx v rnd b = Inr (int i)}) = it_weight (lb_items b ! i)"
proof -
  let ?ws = "map it_weight (lb_items b)"
  have lw: "lb_weights b = prefix_sums 0 ?ws" and ne: "?ws \<noteq> []" using b i by (auto simp: w_initNolock_def Let_def simp flip: length_greater_0_conv)
  have nn: "list_all (\<lambda>w. 0 \<le> w) ?ws" using w by (simp add: list_all_iff)
  have tot: "nat (last (lb_weights b) mod 2 ^ 64) = nat tw"
    using sum ne by (simp add: lw last_prefix_sums)
  have range: "upper_bound v (lb_weights b) < length (lb_items b) \<and>
      (upper_bound v (lb_weights b) = i \<longleftrightarrow>
         sum_list (take i ?ws) \<le> int v \<and> int v < sum_list (take (Suc i) ?ws))" if "v < nat tw" for v
  proof -
    have "int v < sum_list ?ws" using that sum(1) by (simp only: zless_nat_eq_int_zless)
    then show ?thesis
      using upper_bound_range [of ?ws 0 v] nn sum i unfolding lw by simp
  qed
  have idx: "w_getIdx v rnd b = Inr (int (upper_bound (choice v rnd mod nat tw) (lb_weights b))) \<and>
      upper_bound (choice v rnd mod nat tw) (lb_weights b) < length (lb_items b)" for v
  proof -
    have "upper_bound (choice v rnd mod nat tw) (lb_weights b) < length (lb_items b)"
      using range [of "choice v rnd mod nat tw"] sum(2) by simp
    moreover have "length (lb_weights b) = length (lb_items b)" "lb_weights b \<noteq> []" using lw ne by simp_all
    ultimately show ?thesis using tot sum(2) by (simp add: w_getIdx_def Let_def)
  qed
  have own: "choice v rnd mod nat tw = v" if "v < nat tw" for v
  proof -
    have "nat tw < 2 ^ 63" using sum(2,3) by (simp only: nat_less_iff) simp
    then have "v \<noteq> 2 ^ 64 - 1" using that by simp
    then show ?thesis using that by (simp only: choice_def if_False mod_less)
  qed
  let ?lo = "sum_list (take i ?ws)" and ?hi = "sum_list (take (Suc i) ?ws)"
  have lo: "0 \<le> ?lo" using nn by (rule sum_part_nonneg)
  have hi: "?hi = ?lo + it_weight (lb_items b ! i)" using i by (simp add: take_Suc_conv_app_nth)
  have "0 \<le> sum_list (drop (Suc i) ?ws)" using nn by (rule sum_part_nonneg)
  moreover have "sum_list ?ws = ?hi + sum_list (drop (Suc i) ?ws)"
    by (metis append_take_drop_id sum_list_append)
  ultimately have top: "?hi \<le> tw" using sum(1) by simp
  have iv: "v < nat tw \<and> w_getIdx v rnd b = Inr (int i) \<longleftrightarrow> nat ?lo \<le> v \<and> v < nat ?hi" for v
  proof (cases "v < nat tw")
    case True
    then show ?thesis using idx [of v] own [OF True] range [OF True] lo by (auto simp: nat_le_iff zless_nat_eq_int_zless)
  next
    case False
    then show ?thesis using top by linarith
  qed
  have "{v. v < nat tw \<and> w_getIdx v rnd b = Inr (int i)} = {nat ?lo..<nat ?hi}"
    by (intro set_eqI) (simp only: mem_Collect_eq iv atLeastLessThan_iff)
  then have "int (card {v. v < nat tw \<and> w_getIdx v rnd b = Inr (int i)}) = int (nat ?hi - nat ?lo)"
    by (simp only: card_atLeastLessThan)
  also have "\<dots> = it_weight (lb_items b ! i)"
    using hi lo w [unfolded list_all_length, rule_format, OF i] by linarith
  finally show ?thesis
  proof (intro conjI allI)
    show "\<exists>j < length (lb_items b). w_getIdx v rnd b = Inr (int j)" for v using idx [of v] by blast
  qed
qed

definition lb_demo :: lb where
  "lb_demo = new_LoadBalance\<lparr> lb_datas := [(1, \<lparr> it_id = 1, it_weight = 2 \<rparr>), (2, \<lparr> it_id = 2, it_weight = 3 \<rparr>)] \<rparr>"

theorem weighted_choice_exact_witness:
  "int (card {v. v < nat 5 \<and> w_getIdx v 0 (w_initNolock (\<lambda>_. True) lb_demo) = Inr (int 1)}) = 3"
proof -
  let ?b = "w_initNolock (\<lambda>_. True) lb_demo"
  have items: "lb_items ?b = [\<lparr> it_id = 1, it_weight = 2 \<rparr>, \<lparr> it_id = 2, it_weight = 3 \<rparr>]"
    by (simp add: w_initNolock_def lb_demo_def new_LoadBalance_def Let_def)
  have "int (card {v. v < nat 5 \<and> w_getIdx v 0 ?b = Inr (int 1)}) = it_weight (lb_items ?b ! 1)"
    by (rule conjunct2 [OF weighted_choice_exact [OF refl]]) (simp_all add: items)
  also have "\<dots> = 3" by (simp add: items)
  finally show ?thesis .
qed

text \<open>When all usable items have weight zero, the choice divides by zero.\<close>

lemma zero_weights_divide:
  assumes "b = w_initNolock isValid b0" "lb_items b \<noteq> []" "list_all (\<lambda>x. it_weight x = 0) (lb_items b)"
  shows "w_getIdx v rnd b = Inl DivByZero"
proof -
  have "lb_weights b = prefix_sums 0 (map it_weight (lb_items b))" using assms(1) by (simp add: w_initNolock_def Let_def)
  moreover have "map it_weight (lb_items b) = map (\<lambda>_. 0) (lb_items b)" using assms(3) by (simp add: list_all_iff)
  then have "sum_list (map it_weight (lb_items b)) = 0" by (simp only: sum_list_0)
  ultimately have "last (lb_weights b) = 0" "lb_weights b \<noteq> []" using assms(2) by (simp_all add: last_prefix_sums)
  then show ?thesis by (simp add: w_getIdx_def)
qed

end
