(* ===== verification/LruCache.thy ===== *)
theory LruCache
  imports Prelude "HOL-Library.Multiset"
begin

text \<open>
  \<open>include/datastruct/cache_status.h\<close> and the class \<open>LruCache\<close> of
  \<open>include/datastruct/lru_cache.h\<close>: a \<open>std::list\<close> of items in order of use and a hash map
  from keys to list iterators. Iterators are node identities, so that using one whose node is
  gone is a fault; the invariant shows that it never happens. The abstract cache is the plain
  list of its pairs, most recently used first.
\<close>

section \<open>Counters\<close>

record cache_status =
  cs_get :: int
  cs_set :: int
  cs_del :: int
  cs_timeout :: int
  cs_prune :: int
  cs_hit :: int

definition new_CacheStatus :: cache_status where
  "new_CacheStatus = \<lparr> cs_get = 0, cs_set = 0, cs_del = 0, cs_timeout = 0, cs_prune = 0, cs_hit = 0 \<rparr>"

definition incGet :: "int \<Rightarrow> cache_status \<Rightarrow> cache_status" where
  "incGet v st = st\<lparr> cs_get := cs_get st + v \<rparr>"

definition incSet :: "int \<Rightarrow> cache_status \<Rightarrow> cache_status" where
  "incSet v st = st\<lparr> cs_set := cs_set st + v \<rparr>"

definition incDel :: "int \<Rightarrow> cache_status \<Rightarrow> cache_status" where
  "incDel v st = st\<lparr> cs_del := cs_del st + v \<rparr>"

definition incTimeout :: "int \<Rightarrow> cache_status \<Rightarrow> cache_status" where
  "incTimeout v st = st\<lparr> cs_timeout := cs_timeout st + v \<rparr>"

definition incPrune :: "int \<Rightarrow> cache_status \<Rightarrow> cache_status" where
  "incPrune v st = st\<lparr> cs_prune := cs_prune st + v \<rparr>"

definition incHit :: "int \<Rightarrow> cache_status \<Rightarrow> cache_status" where
  "incHit v st = st\<lparr> cs_hit := cs_hit st + v \<rparr>"

definition cs_merge :: "cache_status \<Rightarrow> cache_status \<Rightarrow> cache_status" where
  "cs_merge st other =
    \<lparr> cs_get = cs_get st + cs_get other, cs_set = cs_set st + cs_set other,
      cs_del = cs_del st + cs_del other, cs_timeout = cs_timeout st + cs_timeout other,
      cs_prune = cs_prune st + cs_prune other, cs_hit = cs_hit st + cs_hit other \<rparr>"

section \<open>The cache\<close>

text \<open>A list node is its identity with the pair it holds; \<open>lc_next\<close> is the next unused identity.\<close>

record ('k, 'v) lru =
  lc_cache :: "('k \<times> nat) list"
  lc_keys :: "(nat \<times> 'k \<times> 'v) list"
  lc_next :: nat
  lc_maxSize :: nat
  lc_elasticity :: nat

definition new_LruCache :: "nat \<Rightarrow> nat \<Rightarrow> ('k, 'v) lru" where
  "new_LruCache max_size elasticity =
    \<lparr> lc_cache = [], lc_keys = [], lc_next = 0, lc_maxSize = max_size, lc_elasticity = elasticity \<rparr>"

definition lru_getMaxAllowedSize :: "('k, 'v) lru \<Rightarrow> nat" where
  "lru_getMaxAllowedSize c = lc_maxSize c + lc_elasticity c"

text \<open>\<open>_keys.splice(_keys.begin(), _keys, it)\<close>\<close>

definition splice_front :: "nat \<Rightarrow> (nat \<times> 'n) list \<Rightarrow> (nat \<times> 'n) list result" where
  "splice_front n keys =
    (case map_of keys n of None \<Rightarrow> Inl NullDeref | Some d \<Rightarrow> Inr ((n, d) # drop_key n keys))"

text \<open>The eviction loop of \<open>prune\<close>; its last component is what the callback is given, in order.\<close>

function lru_prune_loop :: "('k \<times> nat) list \<Rightarrow> (nat \<times> 'k \<times> 'v) list \<Rightarrow> nat
    \<Rightarrow> (('k \<times> nat) list \<times> (nat \<times> 'k \<times> 'v) list \<times> ('k \<times> 'v) list) result" where
  "lru_prune_loop cache keys maxSize =
    (if maxSize < length cache then
       if keys = [] then Inl NullDeref
       else let (n, k, v) = last keys in
         bind_res (lru_prune_loop (drop_key k cache) (butlast keys) maxSize)
           (\<lambda>(cache', keys', evicted). Inr (cache', keys', (k, v) # evicted))
     else Inr (cache, keys, []))"
  by pat_completeness auto
termination by (relation "measure (\<lambda>(cache, keys, m). length keys)") auto

definition lru_prune :: "cache_status \<times> ('k, 'v) lru
    \<Rightarrow> (('k \<times> 'v) list \<times> cache_status \<times> ('k, 'v) lru) result" where
  "lru_prune = (\<lambda>(st, c).
    if lc_maxSize c = 0 \<or> length (lc_cache c) < lru_getMaxAllowedSize c then Inr ([], st, c)
    else bind_res (lru_prune_loop (lc_cache c) (lc_keys c) (lc_maxSize c))
           (\<lambda>(cache, keys, evicted).
             Inr (evicted, incPrune (int (length evicted)) st, c\<lparr> lc_cache := cache, lc_keys := keys \<rparr>)))"

definition lru_set :: "'k \<Rightarrow> 'v \<Rightarrow> cache_status \<times> ('k, 'v) lru
    \<Rightarrow> (('k \<times> 'v) list \<times> cache_status \<times> ('k, 'v) lru) result" where
  "lru_set k v = (\<lambda>(st0, c).
    let st = incSet 1 st0 in
    case map_of (lc_cache c) k of
      Some n \<Rightarrow>
        bind_res (splice_front n (lc_keys c)) (\<lambda>keys.
          Inr ([], st, c\<lparr> lc_keys := (n, fst (snd (hd keys)), v) # tl keys \<rparr>))
    | None \<Rightarrow>
        lru_prune (st, c\<lparr> lc_keys := (lc_next c, k, v) # lc_keys c,
                          lc_cache := (k, lc_next c) # lc_cache c, lc_next := Suc (lc_next c) \<rparr>))"

definition lru_get :: "'k \<Rightarrow> cache_status \<times> ('k, 'v) lru
    \<Rightarrow> ('v option \<times> cache_status \<times> ('k, 'v) lru) result" where
  "lru_get k = (\<lambda>(st0, c).
    let st = incGet 1 st0 in
    case map_of (lc_cache c) k of
      None \<Rightarrow> Inr (None, st, c)
    | Some n \<Rightarrow>
        bind_res (splice_front n (lc_keys c)) (\<lambda>keys.
          Inr (Some (snd (snd (hd keys))), incHit 1 st, c\<lparr> lc_keys := keys \<rparr>)))"

definition lru_del :: "'k \<Rightarrow> cache_status \<times> ('k, 'v) lru
    \<Rightarrow> (bool \<times> cache_status \<times> ('k, 'v) lru) result" where
  "lru_del k = (\<lambda>(st0, c).
    let st = incDel 1 st0 in
    case map_of (lc_cache c) k of
      None \<Rightarrow> Inr (False, st, c)
    | Some n \<Rightarrow>
        if map_of (lc_keys c) n = None then Inl NullDeref
        else Inr (True, st, c\<lparr> lc_keys := drop_key n (lc_keys c),
                               lc_cache := drop_key k (lc_cache c) \<rparr>))"

definition lru_exists :: "'k \<Rightarrow> ('k, 'v) lru \<Rightarrow> bool" where
  "lru_exists k c \<longleftrightarrow> map_of (lc_cache c) k \<noteq> None"

definition lru_size :: "('k, 'v) lru \<Rightarrow> nat" where
  "lru_size c = length (lc_cache c)"

definition lru_empty :: "('k, 'v) lru \<Rightarrow> bool" where
  "lru_empty c \<longleftrightarrow> lc_cache c = []"

definition lru_clear :: "('k, 'v) lru \<Rightarrow> ('k, 'v) lru" where
  "lru_clear c = c\<lparr> lc_cache := [], lc_keys := [] \<rparr>"

definition lru_setMaxSize :: "nat \<Rightarrow> ('k, 'v) lru \<Rightarrow> ('k, 'v) lru" where
  "lru_setMaxSize v c = c\<lparr> lc_maxSize := v \<rparr>"

definition lru_setElasticity :: "nat \<Rightarrow> ('k, 'v) lru \<Rightarrow> ('k, 'v) lru" where
  "lru_setElasticity v c = c\<lparr> lc_elasticity := v \<rparr>"

text \<open>\<open>expired + getCurrentMS()\<close>, as unsigned 64-bit addition.\<close>

definition expiry :: "nat \<Rightarrow> nat \<Rightarrow> nat" where
  "expiry expired now = (expired + now) mod 2 ^ 64"

section \<open>The abstract cache\<close>

text \<open>The pairs, most recently used first, and the operations on them.\<close>

definition lru_list :: "('k, 'v) lru \<Rightarrow> ('k \<times> 'v) list" where
  "lru_list c = map snd (lc_keys c)"

definition spec_trim :: "nat \<Rightarrow> nat \<Rightarrow> ('k \<times> 'v) list \<Rightarrow> ('k \<times> 'v) list" where
  "spec_trim m e xs = (if m = 0 \<or> length xs < m + e then xs else take m xs)"

definition spec_set :: "nat \<Rightarrow> nat \<Rightarrow> 'k \<Rightarrow> 'v \<Rightarrow> ('k \<times> 'v) list \<Rightarrow> ('k \<times> 'v) list" where
  "spec_set m e k v xs =
    (if map_of xs k = None then spec_trim m e ((k, v) # xs) else (k, v) # drop_key k xs)"

definition spec_get :: "'k \<Rightarrow> ('k \<times> 'v) list \<Rightarrow> ('k \<times> 'v) list" where
  "spec_get k xs = (case map_of xs k of None \<Rightarrow> xs | Some v \<Rightarrow> (k, v) # drop_key k xs)"

section \<open>Invariant\<close>

text \<open>
  A map from keys to nodes and a list of nodes hold the same entries: each map entry is the
  key of the node it points to, and each node is pointed to by exactly one entry. \<open>f\<close> reads the
  key of a node.
\<close>

definition linked :: "('d \<Rightarrow> 'k) \<Rightarrow> ('k \<times> nat) list \<Rightarrow> (nat \<times> 'd) list \<Rightarrow> bool" where
  "linked f cache keys \<longleftrightarrow>
     mset cache = mset (map (\<lambda>p. (f (snd p), fst p)) keys) \<and>
     distinct (map fst cache) \<and> distinct (map fst keys)"

definition lru_wf :: "('k, 'v) lru \<Rightarrow> bool" where
  "lru_wf c \<longleftrightarrow>
     linked fst (lc_cache c) (lc_keys c) \<and> (\<forall>p \<in> set (lc_keys c). fst p < lc_next c)"

declare lru_prune_loop.simps [simp del]

lemma mset_drop_key:
  "distinct (map fst xs) \<Longrightarrow> (k, v) \<in> set xs \<Longrightarrow> mset xs = add_mset (k, v) (mset (drop_key k xs))"
proof (induction xs)
  case (Cons p xs)
  show ?case
  proof (cases "fst p = k")
    case True
    then have "p = (k, v)" "k \<notin> fst ` set xs" using Cons.prems by (auto simp: rev_image_eqI)
    then show ?thesis by simp
  next
    case False
    then show ?thesis using Cons by auto
  qed
qed simp

lemma linked_Nil [simp]: "linked f [] []"
  by (simp add: linked_def)

lemma linked_length: "linked f cache keys \<Longrightarrow> length cache = length keys"
  unfolding linked_def by (metis length_map size_mset)

lemma linked_set: "linked f cache keys \<Longrightarrow> set cache = (\<lambda>p. (f (snd p), fst p)) ` set keys"
  unfolding linked_def by (metis list.set_map set_mset_mset)

lemma linked_keys_distinct:
  assumes "linked f cache keys"
  shows "distinct (map (\<lambda>p. f (snd p)) keys)"
proof -
  have "mset (map fst cache) = mset (map (\<lambda>p. f (snd p)) keys)"
    using assms by (simp add: linked_def mset_map image_mset.compositionality o_def)
  then show ?thesis using assms by (metis linked_def mset_eq_imp_distinct_iff)
qed

lemma linked_lookup:
  assumes l: "linked f cache keys"
  shows "map_of cache k = Some n \<longleftrightarrow> (\<exists>d. map_of keys n = Some d \<and> f d = k)"
proof -
  have "map_of cache k = Some n \<longleftrightarrow> (k, n) \<in> set cache"
    using l by (simp add: linked_def)
  also have "\<dots> \<longleftrightarrow> (\<exists>d. (n, d) \<in> set keys \<and> f d = k)"
    using linked_set [OF l] by force
  also have "\<dots> \<longleftrightarrow> (\<exists>d. map_of keys n = Some d \<and> f d = k)"
    using l by (simp add: linked_def)
  finally show ?thesis .
qed

lemma linked_lookup_None:
  assumes "linked f cache keys"
  shows "map_of cache k = None \<longleftrightarrow> (\<forall>p \<in> set keys. f (snd p) \<noteq> k)"
  using linked_set [OF assms] by (force simp: map_of_eq_None_iff)

lemma linked_key_unique:
  assumes "linked f cache keys" "(n, d) \<in> set keys" "(m, e) \<in> set keys" "f d = f e"
  shows "n = m"
proof -
  have "inj_on (\<lambda>p. f (snd p)) (set keys)"
    using linked_keys_distinct [OF assms(1)] by (simp add: distinct_map)
  then have "(n, d) = (m, e)" using assms(2-4) by (auto dest: inj_onD [where x = "(n, d)" and y = "(m, e)"])
  then show ?thesis by simp
qed

lemma linked_node_key:
  assumes "linked f cache keys" "map_of cache k = Some n" "p \<in> set keys"
  shows "fst p = n \<longleftrightarrow> f (snd p) = k"
proof -
  obtain d where d: "(n, d) \<in> set keys" "f d = k"
    using assms linked_lookup [OF assms(1)] by (metis map_of_SomeD)
  show ?thesis
    using linked_key_unique [OF assms(1), of "fst p" "snd p" n d] assms(1,3) d
    by (cases p) (auto simp: linked_def dest: eq_key_imp_eq_value)
qed

lemma linked_drop:
  assumes l: "linked f cache keys" and k: "map_of cache k = Some n"
  shows "linked f (drop_key k cache) (drop_key n keys)"
proof -
  have "mset (drop_key k cache) = filter_mset (\<lambda>p. fst p \<noteq> k) (mset (map (\<lambda>p. (f (snd p), fst p)) keys))"
    using l by (simp add: drop_key_def linked_def)
  also have "\<dots> = mset (map (\<lambda>p. (f (snd p), fst p)) (filter (\<lambda>p. f (snd p) \<noteq> k) keys))"
    by (simp add: filter_map o_def flip: mset_filter mset_map)
  also have "filter (\<lambda>p. f (snd p) \<noteq> k) keys = drop_key n keys"
    unfolding drop_key_def using linked_node_key [OF l k] by (intro filter_cong) auto
  finally show ?thesis using l by (simp add: linked_def)
qed

lemma linked_Cons:
  "linked f cache keys \<Longrightarrow> map_of cache (f d) = None \<Longrightarrow> n \<notin> fst ` set keys \<Longrightarrow>
   linked f ((f d, n) # cache) ((n, d) # keys)"
  by (simp add: linked_def map_of_eq_None_iff)

lemma linked_front:
  assumes l: "linked f cache keys" and k: "map_of cache k = Some n" and d: "f d = k"
  shows "linked f cache ((n, d) # drop_key n keys)"
proof -
  have dr: "linked f (drop_key k cache) (drop_key n keys)" using linked_drop [OF l k] .
  have "mset cache = add_mset (k, n) (mset (drop_key k cache))"
    using mset_drop_key [of cache k n] l k by (simp add: linked_def)
  moreover have "n \<notin> fst ` set (drop_key n keys)" by simp
  ultimately show ?thesis using dr l d by (simp add: linked_def)
qed

lemma linked_butlast:
  assumes l: "linked f cache keys" and ne: "keys \<noteq> []"
  shows "linked f (drop_key (f (snd (last keys))) cache) (butlast keys)"
proof -
  obtain n d ks where ks: "keys = ks @ [(n, d)]" using ne by (metis append_butlast_last_id prod.exhaust)
  have "map_of cache (f d) = Some n"
    using linked_lookup [OF l, of "f d" n] map_of_in [of keys n d] l ks by (auto simp: linked_def)
  moreover have "drop_key n keys = ks" using l ks by (simp add: linked_def)
  ultimately show ?thesis using linked_drop [OF l, of "f d" n] ks by simp
qed

lemma linked_map_of_snd:
  assumes l: "linked f cache keys"
  shows "map_of (map (\<lambda>p. (f (snd p), snd p)) keys) k = Option.bind (map_of cache k) (map_of keys)"
    (is "map_of ?xs k = _")
proof (cases "map_of cache k")
  case None
  then have "map_of ?xs k = None"
    using linked_lookup_None [OF l, of k] by (auto simp: map_of_eq_None_iff)
  then show ?thesis using None by simp
next
  case (Some n)
  then obtain d where d: "map_of keys n = Some d" "f d = k" using linked_lookup [OF l] by blast
  have "distinct (map fst ?xs)" using linked_keys_distinct [OF l] by (simp add: o_def)
  moreover have "(k, d) \<in> set ?xs" using map_of_SomeD [OF d(1)] d(2) by force
  ultimately show ?thesis using Some d by simp
qed

lemma linked_drop_key_map:
  assumes l: "linked f cache keys" and k: "map_of cache k = Some n"
  shows "map (\<lambda>p. (f (snd p), snd p)) (drop_key n keys)
       = drop_key k (map (\<lambda>p. (f (snd p), snd p)) keys)"
proof -
  have "drop_key n keys = filter (\<lambda>p. f (snd p) \<noteq> k) keys"
    unfolding drop_key_def using linked_node_key [OF l k] by (intro filter_cong) auto
  then show ?thesis by (simp add: drop_key_def filter_map o_def)
qed

section \<open>Each operation on the abstract cache\<close>

lemma lru_map_of:
  assumes "lru_wf c"
  shows "map_of (lru_list c) k = (case map_of (lc_cache c) k of
     None \<Rightarrow> None | Some n \<Rightarrow> map_option snd (map_of (lc_keys c) n))"
proof -
  have l: "linked fst (lc_cache c) (lc_keys c)" using assms by (simp add: lru_wf_def)
  have "map_of (map snd ks) k = map_option snd (map_of (map (\<lambda>p. (fst (snd p), snd p)) ks) k)"
    for ks :: "(nat \<times> 'a \<times> 'b) list"
    by (induction ks) auto
  then show ?thesis
    using linked_map_of_snd [OF l, of k] by (simp add: lru_list_def split: option.split)
qed

lemma lru_list_distinct: "lru_wf c \<Longrightarrow> distinct (map fst (lru_list c))"
  using linked_keys_distinct [of fst "lc_cache c" "lc_keys c"]
  by (simp add: lru_wf_def lru_list_def o_def)

lemma lru_size_list [simp]: "lru_wf c \<Longrightarrow> lru_size c = length (lru_list c)"
  using linked_length by (auto simp: lru_wf_def lru_size_def lru_list_def)

lemma lru_wf_new: "lru_wf (new_LruCache m e)"
  by (simp add: lru_wf_def new_LruCache_def)

lemma lru_hit:
  assumes wf: "lru_wf c" and k: "map_of (lc_cache c) k = Some n"
  obtains v where "map_of (lc_keys c) n = Some (k, v)" "map_of (lru_list c) k = Some v"
    "map snd (drop_key n (lc_keys c)) = drop_key k (lru_list c)"
proof -
  have l: "linked fst (lc_cache c) (lc_keys c)" using wf by (simp add: lru_wf_def)
  obtain d where d: "map_of (lc_keys c) n = Some d" "fst d = k" using linked_lookup [OF l] k by blast
  have "drop_key n (lc_keys c) = filter (\<lambda>p. fst (snd p) \<noteq> k) (lc_keys c)"
    unfolding drop_key_def using linked_node_key [OF l k] by (intro filter_cong) auto
  then have "map snd (drop_key n (lc_keys c)) = drop_key k (lru_list c)"
    by (simp add: drop_key_def lru_list_def filter_map o_def)
  then show ?thesis using that [of "snd d"] d k lru_map_of [OF wf, of k] by (cases d) auto
qed

lemma lru_prune_loop_correct:
  assumes "linked fst cache keys"
  shows "\<exists>cache'. lru_prune_loop cache keys m =
           Inr (cache', take m keys, rev (map snd (drop m keys))) \<and> linked fst cache' (take m keys)"
  using assms
proof (induction cache keys m rule: lru_prune_loop.induct)
  case (1 cache keys m)
  show ?case
  proof (cases "m < length cache")
    case True
    then have ne: "keys \<noteq> []" and len: "m < length keys" using linked_length [OF "1.prems"] by auto
    obtain n k v where lst: "last keys = (n, k, v)" by (metis prod.exhaust)
    have l: "linked fst (drop_key k cache) (butlast keys)"
      using linked_butlast [OF "1.prems" ne] lst by simp
    obtain cache' where "lru_prune_loop (drop_key k cache) (butlast keys) m =
          Inr (cache', take m (butlast keys), rev (map snd (drop m (butlast keys))))"
        "linked fst cache' (take m (butlast keys))"
      using "1.IH" [OF True ne lst [symmetric] refl refl l] by blast
    moreover have "take m (butlast keys) = take m keys" using len by (simp add: take_butlast)
    moreover have "drop m keys = drop m (butlast keys) @ [(n, k, v)]"
      using ne len lst by (metis append_butlast_last_id drop_butlast drop_eq_Nil last_drop not_less)
    ultimately show ?thesis
      using True ne lst by (subst lru_prune_loop.simps) simp
  next
    case False
    then have "length keys \<le> m" using linked_length [OF "1.prems"] by simp
    then show ?thesis using False "1.prems" by (subst lru_prune_loop.simps) simp
  qed
qed

lemma lru_prune_correct:
  assumes wf: "lru_wf c"
  shows "\<exists>st' c'. lru_prune (st, c) = Inr (rev (drop (length (lru_list c')) (lru_list c)), st', c') \<and>
           lru_wf c' \<and> lru_list c' = spec_trim (lc_maxSize c) (lc_elasticity c) (lru_list c) \<and>
           lc_maxSize c' = lc_maxSize c \<and> lc_elasticity c' = lc_elasticity c"
proof (cases "lc_maxSize c = 0 \<or> length (lc_cache c) < lru_getMaxAllowedSize c")
  case True
  then show ?thesis
    using wf linked_length [of fst "lc_cache c" "lc_keys c"]
    by (auto simp: lru_prune_def spec_trim_def lru_getMaxAllowedSize_def lru_wf_def lru_list_def)
next
  case False
  let ?m = "lc_maxSize c"
  have l: "linked fst (lc_cache c) (lc_keys c)" using wf by (simp add: lru_wf_def)
  obtain cache' where loop: "lru_prune_loop (lc_cache c) (lc_keys c) ?m
        = Inr (cache', take ?m (lc_keys c), rev (map snd (drop ?m (lc_keys c))))"
      and l': "linked fst cache' (take ?m (lc_keys c))"
    using lru_prune_loop_correct [OF l] by blast
  have "lru_wf (c\<lparr> lc_cache := cache', lc_keys := take ?m (lc_keys c) \<rparr>)"
    using l' wf by (auto simp: lru_wf_def dest: in_set_takeD)
  moreover have "drop (length (take ?m (lru_list c))) (lru_list c) = map snd (drop ?m (lc_keys c))"
    by (cases "?m \<le> length (lc_keys c)") (simp_all add: lru_list_def drop_map)
  ultimately show ?thesis
    using loop False linked_length [OF l]
    by (auto simp: lru_prune_def spec_trim_def lru_getMaxAllowedSize_def lru_list_def take_map drop_map)
qed

lemma spec_trim_split:
  "set (spec_trim m e xs) \<union> set (drop (length (spec_trim m e xs)) xs) = set xs"
proof -
  have "spec_trim m e xs @ drop (length (spec_trim m e xs)) xs = xs"
    by (auto simp: spec_trim_def min_def)
  then show ?thesis by (metis set_append)
qed

lemma lru_set_correct:
  assumes wf: "lru_wf c"
  shows "\<exists>st' c' ev. lru_set k v (st, c) = Inr (ev, st', c') \<and> lru_wf c' \<and>
           lru_list c' = spec_set (lc_maxSize c) (lc_elasticity c) k v (lru_list c) \<and>
           lc_maxSize c' = lc_maxSize c \<and> lc_elasticity c' = lc_elasticity c \<and>
           cs_set st' = cs_set st + 1 \<and> cs_get st' = cs_get st \<and> cs_hit st' = cs_hit st \<and>
           set (lru_list c') \<union> set ev = insert (k, v) {p \<in> set (lru_list c). fst p \<noteq> k}"
proof (cases "map_of (lc_cache c) k")
  case None
  let ?c = "c\<lparr> lc_keys := (lc_next c, k, v) # lc_keys c, lc_cache := (k, lc_next c) # lc_cache c,
               lc_next := Suc (lc_next c) \<rparr>"
  have l: "linked fst (lc_cache c) (lc_keys c)" and fresh: "\<forall>p \<in> set (lc_keys c). fst p < lc_next c"
    using wf by (simp_all add: lru_wf_def)
  have "linked fst (lc_cache ?c) (lc_keys ?c)"
    using linked_Cons [OF l, of "(k, v)" "lc_next c"] None fresh
    by (simp add: image_iff) (metis less_irrefl)
  then have wf': "lru_wf ?c" using fresh by (auto simp: lru_wf_def)
  obtain st' c' where p: "lru_prune (incSet 1 st, ?c)
        = Inr (rev (drop (length (lru_list c')) (lru_list ?c)), st', c')"
      "lru_wf c'" "lru_list c' = spec_trim (lc_maxSize c) (lc_elasticity c) (lru_list ?c)"
      "lc_maxSize c' = lc_maxSize c" "lc_elasticity c' = lc_elasticity c"
    using lru_prune_correct [OF wf', of "incSet 1 st"] by auto
  have cnt: "cs_set st' = cs_set st + 1 \<and> cs_get st' = cs_get st \<and> cs_hit st' = cs_hit st"
    using p(1) by (auto simp: lru_prune_def incSet_def incPrune_def split: if_splits)
  have new: "map_of (lru_list c) k = None" using lru_map_of [OF wf, of k] None by simp
  have "set (lru_list c') \<union> set (drop (length (lru_list c')) (lru_list ?c)) = set (lru_list ?c)"
    unfolding p(3) by (rule spec_trim_split)
  moreover have "{p \<in> set (lru_list c). fst p \<noteq> k} = set (lru_list c)"
    using new by (force simp: map_of_eq_None_iff)
  ultimately show ?thesis
    using p None new cnt
    by (simp add: lru_set_def spec_set_def) (simp add: lru_list_def)
next
  case (Some n)
  obtain w where w: "map_of (lc_keys c) n = Some (k, w)" "map_of (lru_list c) k = Some w"
      "map snd (drop_key n (lc_keys c)) = drop_key k (lru_list c)"
    using lru_hit [OF wf Some] by blast
  have l: "linked fst (lc_cache c) ((n, (k, v)) # drop_key n (lc_keys c))"
    using linked_front [of fst _ _ k n "(k, v)"] wf Some by (simp add: lru_wf_def)
  have "n < lc_next c" using wf map_of_SomeD [OF w(1)] by (force simp: lru_wf_def)
  then have "lru_wf (c\<lparr> lc_keys := (n, k, v) # drop_key n (lc_keys c) \<rparr>)"
    using l wf by (auto simp: lru_wf_def)
  moreover have "lru_list (c\<lparr> lc_keys := (n, k, v) # drop_key n (lc_keys c) \<rparr>)
      = (k, v) # drop_key k (lru_list c)"
    using w(3) by (simp add: lru_list_def)
  ultimately show ?thesis
    using Some w(1,2) by (simp add: lru_set_def splice_front_def spec_set_def incSet_def)
qed

lemma lru_get_correct:
  assumes wf: "lru_wf c"
  shows "\<exists>st' c'. lru_get k (st, c) = Inr (map_of (lru_list c) k, st', c') \<and> lru_wf c' \<and>
           lru_list c' = spec_get k (lru_list c) \<and>
           lc_maxSize c' = lc_maxSize c \<and> lc_elasticity c' = lc_elasticity c \<and>
           cs_get st' = cs_get st + 1 \<and>
           cs_hit st' = cs_hit st + (if map_of (lru_list c) k = None then 0 else 1)"
proof (cases "map_of (lc_cache c) k")
  case None
  then have "map_of (lru_list c) k = None" using lru_map_of [OF wf, of k] by simp
  then show ?thesis using None wf by (simp add: lru_get_def spec_get_def incGet_def)
next
  case (Some n)
  obtain w where w: "map_of (lc_keys c) n = Some (k, w)" "map_of (lru_list c) k = Some w"
      "map snd (drop_key n (lc_keys c)) = drop_key k (lru_list c)"
    using lru_hit [OF wf Some] by blast
  have l: "linked fst (lc_cache c) ((n, (k, w)) # drop_key n (lc_keys c))"
    using linked_front [of fst _ _ k n "(k, w)"] wf Some by (simp add: lru_wf_def)
  have "n < lc_next c" using wf map_of_SomeD [OF w(1)] by (force simp: lru_wf_def)
  then have "lru_wf (c\<lparr> lc_keys := (n, k, w) # drop_key n (lc_keys c) \<rparr>)"
    using l wf by (auto simp: lru_wf_def)
  then show ?thesis
    using Some w
    by (simp add: lru_get_def splice_front_def spec_get_def lru_list_def incGet_def incHit_def)
qed

lemma lru_del_correct:
  assumes wf: "lru_wf c"
  shows "\<exists>st' c'. lru_del k (st, c) = Inr (map_of (lru_list c) k \<noteq> None, st', c') \<and> lru_wf c' \<and>
           lru_list c' = drop_key k (lru_list c) \<and>
           lc_maxSize c' = lc_maxSize c \<and> lc_elasticity c' = lc_elasticity c"
proof (cases "map_of (lc_cache c) k")
  case None
  then have "map_of (lru_list c) k = None" using lru_map_of [OF wf, of k] by simp
  then show ?thesis using None wf by (simp add: lru_del_def)
next
  case (Some n)
  obtain w where w: "map_of (lc_keys c) n = Some (k, w)" "map_of (lru_list c) k = Some w"
      "map snd (drop_key n (lc_keys c)) = drop_key k (lru_list c)"
    using lru_hit [OF wf Some] by blast
  have "linked fst (drop_key k (lc_cache c)) (drop_key n (lc_keys c))"
    using linked_drop [of fst "lc_cache c" "lc_keys c" k n] wf Some by (simp add: lru_wf_def)
  then have "lru_wf (c\<lparr> lc_keys := drop_key n (lc_keys c), lc_cache := drop_key k (lc_cache c) \<rparr>)"
    using wf by (auto simp: lru_wf_def)
  then show ?thesis
    using Some w by (simp add: lru_del_def lru_list_def)
qed

section \<open>The contract of a cache\<close>

text \<open>
  What a sharded cache relies on in each of its shards: the lookup function the operations
  are about, the operations that change it, and that a store may evict other keys but never
  invents an entry. \<open>val\<close> reads the value out of what is stored.
\<close>

locale cache_shard =
  fixes look :: "'c \<Rightarrow> 'k \<Rightarrow> 'v option"
    and inv :: "'c \<Rightarrow> bool"
    and val :: "'a \<Rightarrow> 'v"
    and store :: "'k \<Rightarrow> 'a \<Rightarrow> cache_status \<times> 'c \<Rightarrow> ('e \<times> cache_status \<times> 'c) result"
    and fetch :: "'k \<Rightarrow> cache_status \<times> 'c \<Rightarrow> ('v option \<times> cache_status \<times> 'c) result"
    and remove :: "'k \<Rightarrow> cache_status \<times> 'c \<Rightarrow> (bool \<times> cache_status \<times> 'c) result"
  assumes store_law: "inv c \<Longrightarrow> \<exists>e st' c'. store k a (st, c) = Inr (e, st', c') \<and> inv c' \<and>
        look c' k = Some (val a) \<and> (\<forall>k' w. k' \<noteq> k \<longrightarrow> look c' k' = Some w \<longrightarrow> look c k' = Some w)"
    and fetch_law: "inv c \<Longrightarrow> \<exists>st' c'. fetch k (st, c) = Inr (look c k, st', c') \<and> inv c' \<and>
        look c' = look c"
    and remove_law: "inv c \<Longrightarrow> \<exists>st' c'. remove k (st, c) = Inr (look c k \<noteq> None, st', c') \<and>
        inv c' \<and> look c' = (look c)(k := None)"
begin

lemma fetch_after_store:
  assumes "inv c"
  shows "\<exists>e st1 c1 st2 c2. store k a (st, c) = Inr (e, st1, c1) \<and>
           fetch k (st1, c1) = Inr (Some (val a), st2, c2) \<and> inv c2"
proof -
  obtain e st1 c1 where s: "store k a (st, c) = Inr (e, st1, c1)" "inv c1" "look c1 k = Some (val a)"
    using store_law [OF assms] by blast
  then show ?thesis using fetch_law [OF s(2), of k st1] by auto
qed

lemma fetch_after_remove:
  assumes "inv c"
  shows "\<exists>b st1 c1 st2 c2. remove k (st, c) = Inr (b, st1, c1) \<and>
           fetch k (st1, c1) = Inr (None, st2, c2) \<and> inv c2"
proof -
  obtain b st1 c1 where s: "remove k (st, c) = Inr (b, st1, c1)" "inv c1" "look c1 k = None"
    using remove_law [OF assms, of k st] by auto
  then show ?thesis using fetch_law [OF s(2), of k st1] by auto
qed

end

lemma map_of_spec_set:
  assumes "distinct (map fst xs)"
  shows "map_of (spec_set m e k v xs) k = Some v"
    and "k' \<noteq> k \<Longrightarrow> map_of (spec_set m e k v xs) k' = Some w \<Longrightarrow> map_of xs k' = Some w"
proof -
  have tk: "map_of (take n ys) j = Some w \<Longrightarrow> distinct (map fst ys) \<Longrightarrow> map_of ys j = Some w"
    for n ys and j :: 'a and w :: 'b
    by (auto dest!: map_of_SomeD in_set_takeD)
  show "map_of (spec_set m e k v xs) k = Some v"
    by (cases m) (auto simp: spec_set_def spec_trim_def)
  assume k': "k' \<noteq> k" and s: "map_of (spec_set m e k v xs) k' = Some w"
  show "map_of xs k' = Some w"
    using s k' tk [of m "(k, v) # xs" k' w] assms
    by (auto simp: spec_set_def spec_trim_def map_of_eq_None_iff split: if_splits)
qed

lemma map_of_spec_get: "map_of (spec_get k xs) = map_of xs"
  by (auto simp: spec_get_def fun_eq_iff split: option.split)

definition lru_lookup :: "('k, 'v) lru \<Rightarrow> 'k \<Rightarrow> 'v option" where
  "lru_lookup c = map_of (lru_list c)"

interpretation lru: cache_shard lru_lookup lru_wf "\<lambda>v. v" lru_set lru_get lru_del
proof (unfold_locales, goal_cases)
  case (1 c k a st)
  obtain ev st' c' where s: "lru_set k a (st, c) = Inr (ev, st', c')" "lru_wf c'"
      "lru_list c' = spec_set (lc_maxSize c) (lc_elasticity c) k a (lru_list c)"
    using lru_set_correct [OF 1, of k a st] by auto
  show ?case
    using s map_of_spec_set [OF lru_list_distinct [OF 1]] by (auto simp: lru_lookup_def)
next
  case (2 c k st)
  then show ?case
    using lru_get_correct [OF 2, of k st] by (auto simp: lru_lookup_def map_of_spec_get)
next
  case (3 c k st)
  then show ?case
    using lru_del_correct [OF 3, of k st] by (auto simp: lru_lookup_def)
qed

section \<open>Sequences of calls\<close>

datatype ('k, 'v) lru_op = LSet 'k 'v | LGet 'k | LDel 'k | LExists 'k | LSize | LClear

datatype 'v lru_out = OUnit | OVal "'v option" | OBool bool | ONat nat

fun lru_step :: "('k, 'v) lru_op \<Rightarrow> cache_status \<times> ('k, 'v) lru
    \<Rightarrow> ('v lru_out \<times> cache_status \<times> ('k, 'v) lru) result" where
  "lru_step (LSet k v) s = bind_res (lru_set k v s) (\<lambda>(ev, s'). Inr (OUnit, s'))"
| "lru_step (LGet k) s = bind_res (lru_get k s) (\<lambda>(r, s'). Inr (OVal r, s'))"
| "lru_step (LDel k) s = bind_res (lru_del k s) (\<lambda>(r, s'). Inr (OBool r, s'))"
| "lru_step (LExists k) (st, c) = Inr (OBool (lru_exists k c), st, c)"
| "lru_step LSize (st, c) = Inr (ONat (lru_size c), st, c)"
| "lru_step LClear (st, c) = Inr (OBool True, st, lru_clear c)"

fun lru_run :: "('k, 'v) lru_op list \<Rightarrow> cache_status \<times> ('k, 'v) lru
    \<Rightarrow> ('v lru_out list \<times> cache_status \<times> ('k, 'v) lru) result" where
  "lru_run [] s = Inr ([], s)"
| "lru_run (x # xs) s =
    bind_res (lru_step x s) (\<lambda>(r, s'). bind_res (lru_run xs s') (\<lambda>(rs, s''). Inr (r # rs, s'')))"

fun spec_step :: "nat \<Rightarrow> nat \<Rightarrow> ('k, 'v) lru_op \<Rightarrow> ('k \<times> 'v) list \<Rightarrow> 'v lru_out \<times> ('k \<times> 'v) list" where
  "spec_step m e (LSet k v) xs = (OUnit, spec_set m e k v xs)"
| "spec_step m e (LGet k) xs = (OVal (map_of xs k), spec_get k xs)"
| "spec_step m e (LDel k) xs = (OBool (map_of xs k \<noteq> None), drop_key k xs)"
| "spec_step m e (LExists k) xs = (OBool (map_of xs k \<noteq> None), xs)"
| "spec_step m e LSize xs = (ONat (length xs), xs)"
| "spec_step m e LClear xs = (OBool True, [])"

fun spec_run :: "nat \<Rightarrow> nat \<Rightarrow> ('k, 'v) lru_op list \<Rightarrow> ('k \<times> 'v) list \<Rightarrow> 'v lru_out list \<times> ('k \<times> 'v) list" where
  "spec_run m e [] xs = ([], xs)"
| "spec_run m e (x # xs) s =
    (let (r, s') = spec_step m e x s; (rs, s'') = spec_run m e xs s' in (r # rs, s''))"

lemma lru_step_refines:
  assumes wf: "lru_wf c"
  shows "\<exists>st' c'. lru_step x (st, c)
             = Inr (fst (spec_step (lc_maxSize c) (lc_elasticity c) x (lru_list c)), st', c') \<and>
           lru_wf c' \<and> lru_list c' = snd (spec_step (lc_maxSize c) (lc_elasticity c) x (lru_list c)) \<and>
           lc_maxSize c' = lc_maxSize c \<and> lc_elasticity c' = lc_elasticity c"
proof (cases x)
  case (LSet k v)
  then show ?thesis using lru_set_correct [OF wf, of k v st] by auto
next
  case (LGet k)
  then show ?thesis using lru_get_correct [OF wf, of k st] by auto
next
  case (LDel k)
  then show ?thesis using lru_del_correct [OF wf, of k st] by auto
next
  case (LExists k)
  have "lru_exists k c \<longleftrightarrow> map_of (lru_list c) k \<noteq> None"
    using lru_map_of [OF wf, of k] linked_lookup [of fst "lc_cache c" "lc_keys c" k] wf
    by (auto simp: lru_exists_def lru_wf_def split: option.splits)
  then show ?thesis using LExists wf by simp
next
  case LClear
  then show ?thesis by (auto simp: lru_clear_def lru_wf_def lru_list_def)
qed (use wf in simp)

lemma lru_run_refines:
  assumes "lru_wf c" "lc_maxSize c = m" "lc_elasticity c = e"
  shows "\<exists>st' c'. lru_run xs (st, c) = Inr (fst (spec_run m e xs (lru_list c)), st', c') \<and>
           lru_wf c' \<and> lru_list c' = snd (spec_run m e xs (lru_list c))"
  using assms
proof (induction xs arbitrary: st c)
  case (Cons x xs)
  obtain st1 c1 where s: "lru_step x (st, c) = Inr (fst (spec_step m e x (lru_list c)), st1, c1)"
      "lru_wf c1" "lru_list c1 = snd (spec_step m e x (lru_list c))"
      "lc_maxSize c1 = m" "lc_elasticity c1 = e"
    using lru_step_refines [OF Cons.prems(1), of x st] Cons.prems(2,3) by auto
  then show ?case
    using Cons.IH [OF s(2,4,5), of st1] by (auto simp: case_prod_beta)
qed simp

text \<open>C5: every sequence of calls on a fresh \<open>LruCache\<close> returns exactly what the same calls
  return on a plain list of pairs kept in order of use, for every maximum size and elasticity;
  no list iterator is ever used after its node is gone.\<close>

theorem lru_refines_list:
  "\<exists>st' c'. lru_run xs (new_CacheStatus, new_LruCache m e) = Inr (fst (spec_run m e xs []), st', c') \<and>
     lru_list c' = snd (spec_run m e xs [])"
  using lru_run_refines [OF lru_wf_new, of m e m e xs new_CacheStatus]
  by (auto simp: new_LruCache_def lru_list_def)

lemma length_spec_step:
  assumes "0 < m" "length xs \<le> max m (m + e - 1)" "distinct (map fst xs)"
  shows "length (snd (spec_step m e x xs)) \<le> max m (m + e - 1) \<and>
         distinct (map fst (snd (spec_step m e x xs)))"
proof (cases x)
  case (LSet k v)
  show ?thesis
  proof (cases "map_of xs k")
    case None
    then show ?thesis
      using LSet assms by (auto simp: spec_set_def spec_trim_def map_of_eq_None_iff take_map [symmetric]
          simp del: take_map split: if_splits intro: distinct_take)
  next
    case (Some w)
    then have "k \<in> fst ` set xs" by (metis domI dom_map_of_conv_image_fst)
    then have "length (drop_key k xs) = length xs - 1" "0 < length xs"
      using length_drop_key [OF assms(3)] by auto
    then show ?thesis using LSet Some assms by (auto simp: spec_set_def)
  qed
next
  case (LGet k)
  show ?thesis
  proof (cases "map_of xs k")
    case (Some w)
    then have "k \<in> fst ` set xs" by (metis domI dom_map_of_conv_image_fst)
    then have "length (drop_key k xs) = length xs - 1" "0 < length xs"
      using length_drop_key [OF assms(3)] by auto
    then show ?thesis using LGet Some assms by (auto simp: spec_get_def)
  qed (use LGet assms in \<open>simp add: spec_get_def\<close>)
next
  case (LDel k)
  then show ?thesis using assms length_drop_key_le [of k xs] by simp
qed (use assms in simp_all)

lemma length_spec_run:
  "0 < m \<Longrightarrow> length xs \<le> max m (m + e - 1) \<Longrightarrow> distinct (map fst xs) \<Longrightarrow>
   length (snd (spec_run m e ops xs)) \<le> max m (m + e - 1)"
proof (induction ops arbitrary: xs)
  case (Cons x ops)
  then show ?case using length_spec_step [of m xs e x] by (simp add: case_prod_beta)
qed simp

text \<open>A cache with a maximum size never holds more than that, or, with an elasticity, fewer
  than the maximum allowed size: pruning starts when the allowed size is reached and goes
  down to the maximum.\<close>

theorem lru_size_bounded:
  assumes "0 < m"
  shows "\<exists>rs st' c'. lru_run xs (new_CacheStatus, new_LruCache m e) = Inr (rs, st', c') \<and>
           lru_size c' \<le> max m (m + e - 1)"
proof -
  obtain st' c' where r: "lru_run xs (new_CacheStatus, new_LruCache m e)
        = Inr (fst (spec_run m e xs []), st', c')" "lru_wf c'" "lru_list c' = snd (spec_run m e xs [])"
    using lru_run_refines [OF lru_wf_new, of m e m e xs new_CacheStatus]
    by (auto simp: new_LruCache_def lru_list_def)
  then show ?thesis using length_spec_run [OF assms, of "[]" e xs] by auto
qed

theorem lru_size_bounded_witness:
  "\<exists>rs st' c'. lru_run [LSet (7::nat) (1::int), LSet 8 2, LSet 9 3] (new_CacheStatus, new_LruCache 2 0)
       = Inr (rs, st', c') \<and> lru_size c' \<le> 2"
  using lru_size_bounded [of 2 "[LSet (7::nat) (1::int), LSet 8 2, LSet 9 3]" 0]
  by (simp del: lru_run.simps add: numeral_2_eq_2)

text \<open>The key is among the \<open>Suc n\<close> most recently used ones.\<close>

definition within :: "nat \<Rightarrow> 'k \<Rightarrow> ('k \<times> 'v) list \<Rightarrow> bool" where
  "within n k xs \<longleftrightarrow> k \<in> fst ` set (take (Suc n) xs)"

lemma within_mono: "within n k xs \<Longrightarrow> n \<le> n' \<Longrightarrow> within n' k xs"
  using set_take_subset_set_take [of "Suc n" "Suc n'" xs] by (auto simp: within_def)

lemma filter_take_subset: "set (filter P (take n xs)) \<subseteq> set (take n (filter P xs))"
proof (induction xs arbitrary: n)
  case (Cons x xs)
  then show ?case
    using set_take_subset_set_take [of "n - 1" n "filter P xs"] by (cases n) (auto simp: take_Cons')
qed simp

lemma within_drop_key: "within n k xs \<Longrightarrow> k' \<noteq> k \<Longrightarrow> within n k (drop_key k' xs)"
  using filter_take_subset [of "\<lambda>p. fst p \<noteq> k'" "Suc n" xs] by (force simp: within_def drop_key_def)

lemma within_Cons: "within n k xs \<Longrightarrow> within (Suc n) k (p # xs)"
  by (auto simp: within_def)

lemma within_head [simp]: "within n k ((k, v) # xs)"
  by (simp add: within_def)

lemma within_trim: "within n k xs \<Longrightarrow> m = 0 \<or> n < m \<Longrightarrow> within n k (spec_trim m e xs)"
  by (auto simp: within_def spec_trim_def min_def)

lemma within_set:
  assumes "within n k xs" "m = 0 \<or> Suc n < m"
  shows "within (Suc n) k (spec_set m e k' v xs)"
proof (cases "k' = k")
  case True
  then show ?thesis using assms within_trim [of "Suc n" k "(k, v) # xs" m e] by (simp add: spec_set_def)
next
  case False
  then show ?thesis
    using assms within_Cons [OF assms(1)] within_Cons [OF within_drop_key [OF assms(1) False]]
    by (auto simp: spec_set_def intro: within_trim)
qed

lemma within_get: "within n k xs \<Longrightarrow> within (Suc n) k (spec_get k' xs)"
  by (cases "k' = k")
    (auto simp: spec_get_def split: option.split intro: within_Cons within_drop_key within_mono)

definition uses :: "('k, 'v) lru_op \<Rightarrow> bool" where
  "uses x = (case x of LSet _ _ \<Rightarrow> True | LGet _ \<Rightarrow> True | _ \<Rightarrow> False)"

lemma within_run:
  "within n k xs \<Longrightarrow> list_all uses ops \<Longrightarrow> m = 0 \<or> n + length ops < m \<Longrightarrow>
   within (n + length ops) k (snd (spec_run m e ops xs))"
proof (induction ops arbitrary: n xs)
  case (Cons x ops)
  have "within (Suc n) k (snd (spec_step m e x xs))"
    using Cons.prems within_set [of n k xs m] within_get [of n k xs]
    by (cases x) (auto simp: uses_def)
  then show ?case using Cons.IH [of "Suc n"] Cons.prems by (auto simp: case_prod_beta)
qed simp

lemma spec_run_append:
  "snd (spec_run m e (xs @ ys) s) = snd (spec_run m e ys (snd (spec_run m e xs s)))"
  by (induction xs arbitrary: s) (auto simp: case_prod_beta)

text \<open>least recently used goes first: once a key is stored, it stays in the cache through
  any further stores and lookups fewer than the maximum size, whatever keys they use.\<close>

theorem lru_recent_survives:
  assumes "list_all uses ops" "length ops < m"
  shows "\<exists>rs st' c'. lru_run (pre @ LSet k v # ops) (new_CacheStatus, new_LruCache m e)
             = Inr (rs, st', c') \<and> lru_exists k c'"
proof -
  let ?xs = "pre @ LSet k v # ops"
  obtain st' c' where r: "lru_run ?xs (new_CacheStatus, new_LruCache m e)
        = Inr (fst (spec_run m e ?xs []), st', c')" "lru_wf c'" "lru_list c' = snd (spec_run m e ?xs [])"
    using lru_run_refines [OF lru_wf_new, of m e m e ?xs new_CacheStatus]
    by (auto simp: new_LruCache_def lru_list_def)
  let ?s = "spec_set m e k v (snd (spec_run m e pre []))"
  have "within 0 k ?s"
    using assms(2) within_trim [of 0 k "(k, v) # snd (spec_run m e pre [])" m e] by (auto simp: spec_set_def)
  then have "within (0 + length ops) k (snd (spec_run m e ops ?s))"
    using assms by (intro within_run) auto
  then have "within (length ops) k (lru_list c')"
    unfolding r(3) by (simp add: spec_run_append case_prod_beta)
  then have "map_of (lru_list c') k \<noteq> None"
    by (auto simp: within_def map_of_eq_None_iff dest: in_set_takeD)
  then show ?thesis
    using r(1) lru_map_of [OF r(2), of k] by (auto simp: lru_exists_def split: option.splits)
qed

theorem lru_recent_survives_witness:
  "\<exists>rs st' c'. lru_run [LSet (7::nat) (1::int), LSet 8 2] (new_CacheStatus, new_LruCache 2 0)
       = Inr (rs, st', c') \<and> lru_exists 7 c'"
  using lru_recent_survives [of "[LSet (8::nat) (2::int)]" 2 "[]" 7 1 0]
  by (simp add: uses_def del: lru_run.simps)

end
