(* ===== verification/OrderedSet.thy ===== *)
theory OrderedSet
  imports Prelude
begin

text \<open>
  \<open>std::set\<close> with a comparator: the sequence of its elements in order. Two elements are the same
  to the set when neither is less than the other. The locale states what the sources rely on in
  a comparator, a strict linear order on the objects that can be in the set, and gives the
  behaviour of the operations.
\<close>

definition equiv_by :: "('a \<Rightarrow> 'a \<Rightarrow> bool) \<Rightarrow> 'a \<Rightarrow> 'a \<Rightarrow> bool" where
  "equiv_by lt a b \<longleftrightarrow> \<not> lt a b \<and> \<not> lt b a"

definition oset_find :: "('a \<Rightarrow> 'a \<Rightarrow> bool) \<Rightarrow> 'a \<Rightarrow> 'a list \<Rightarrow> 'a option" where
  "oset_find lt a xs = find (equiv_by lt a) xs"

definition oset_insert :: "('a \<Rightarrow> 'a \<Rightarrow> bool) \<Rightarrow> 'a \<Rightarrow> 'a list \<Rightarrow> 'a \<times> 'a list" where
  "oset_insert lt a xs =
    (case oset_find lt a xs of
       Some b \<Rightarrow> (b, xs)
     | None \<Rightarrow> (a, takeWhile (\<lambda>b. lt b a) xs @ a # dropWhile (\<lambda>b. lt b a) xs))"

definition oset_erase :: "('a \<Rightarrow> 'a \<Rightarrow> bool) \<Rightarrow> 'a \<Rightarrow> 'a list \<Rightarrow> 'a list" where
  "oset_erase lt a xs = filter (\<lambda>b. \<not> equiv_by lt a b) xs"

text \<open>Elements of a domain, each once, in order.\<close>

definition oset_ok :: "('a \<Rightarrow> 'a \<Rightarrow> bool) \<Rightarrow> 'a set \<Rightarrow> 'a list \<Rightarrow> bool" where
  "oset_ok lt D xs \<longleftrightarrow> set xs \<subseteq> D \<and> distinct xs \<and> sorted_wrt lt xs"

lemma sorted_wrt_insert:
  assumes "sorted_wrt P xs" "\<And>x y z. P x y \<Longrightarrow> P y z \<Longrightarrow> P x z" "\<forall>x \<in> set xs. P x a \<or> P a x"
  shows "sorted_wrt P (takeWhile (\<lambda>x. P x a) xs @ a # dropWhile (\<lambda>x. P x a) xs)"
  using assms
proof (induction xs)
  case (Cons x xs)
  show ?case
  proof (cases "P x a")
    case True
    have "P x y" if "y \<in> set (takeWhile (\<lambda>x. P x a) xs) \<or> y \<in> set (dropWhile (\<lambda>x. P x a) xs)" for y
      using that Cons.prems(1) by (auto dest: set_takeWhileD set_dropWhileD)
    moreover have "sorted_wrt P (takeWhile (\<lambda>x. P x a) xs @ a # dropWhile (\<lambda>x. P x a) xs)"
      by (rule Cons.IH [OF _ Cons.prems(2)]) (use Cons.prems(1,3) in simp_all)
    ultimately show ?thesis using True by auto
  next
    case False
    then have a: "P a x" using Cons.prems(3) by auto
    then have "P a y" if "y \<in> set xs" for y using Cons.prems(2) [OF a, of y] Cons.prems(1) that by simp
    then show ?thesis using False a Cons.prems(1) by simp
  qed
qed simp

lemma distinct_insert_mid: "distinct (l @ r) \<Longrightarrow> n \<notin> set l \<union> set r \<Longrightarrow> distinct (l @ n # r)"
  by auto

locale ordered_set =
  fixes lt :: "'a \<Rightarrow> 'a \<Rightarrow> bool" and D :: "'a set"
  assumes irrefl: "\<not> lt a a"
    and trans: "lt a b \<Longrightarrow> lt b c \<Longrightarrow> lt a c"
    and linear: "a \<in> D \<Longrightarrow> b \<in> D \<Longrightarrow> a \<noteq> b \<Longrightarrow> lt a b \<or> lt b a"
begin

lemma equiv_iff: "a \<in> D \<Longrightarrow> b \<in> D \<Longrightarrow> equiv_by lt a b \<longleftrightarrow> a = b"
  using linear irrefl by (auto simp: equiv_by_def)

lemma find_eq:
  assumes "oset_ok lt D xs" "a \<in> D"
  shows "oset_find lt a xs = (if a \<in> set xs then Some a else None)"
proof -
  have "find (equiv_by lt a) xs = find (\<lambda>b. a = b) xs"
    using assms equiv_iff by (intro find_cong) (auto simp: oset_ok_def)
  also have "\<dots> = (if a \<in> set xs then Some a else None)"
    by (induction xs) auto
  finally show ?thesis by (simp add: oset_find_def)
qed

lemma erase_eq: "oset_ok lt D xs \<Longrightarrow> a \<in> D \<Longrightarrow> oset_erase lt a xs = filter (\<lambda>b. b \<noteq> a) xs"
  unfolding oset_erase_def using equiv_iff by (intro filter_cong) (auto simp: oset_ok_def)

lemma ok_filter: "oset_ok lt D xs \<Longrightarrow> oset_ok lt D (filter P xs)"
  by (auto simp: oset_ok_def sorted_wrt_filter)

lemma ok_drop: "oset_ok lt D xs \<Longrightarrow> oset_ok lt D (drop i xs)"
  by (auto simp: oset_ok_def sorted_wrt_drop dest: in_set_dropD)

lemma insert_result:
  assumes "oset_ok lt D xs" "a \<in> D"
  shows "fst (oset_insert lt a xs) = a" "set (snd (oset_insert lt a xs)) = insert a (set xs)"
    "oset_ok lt D (snd (oset_insert lt a xs))"
proof -
  let ?l = "takeWhile (\<lambda>b. lt b a) xs" and ?r = "dropWhile (\<lambda>b. lt b a) xs"
  have sx: "set ?l \<union> set ?r = set xs" by (metis takeWhile_dropWhile_id set_append)
  show "fst (oset_insert lt a xs) = a"
    using find_eq [OF assms] by (simp add: oset_insert_def)
  show s: "set (snd (oset_insert lt a xs)) = insert a (set xs)"
    using find_eq [OF assms] sx by (auto simp: oset_insert_def)
  show "oset_ok lt D (snd (oset_insert lt a xs))"
  proof (cases "a \<in> set xs")
    case True
    then show ?thesis using find_eq [OF assms] assms by (simp add: oset_insert_def)
  next
    case False
    have dx: "distinct (?l @ ?r)" using assms(1) by (simp only: takeWhile_dropWhile_id oset_ok_def)
    have "distinct (?l @ a # ?r)"
      by (rule distinct_insert_mid [OF dx]) (simp only: sx False not_False_eq_True)
    moreover have "sorted_wrt lt (?l @ a # ?r)"
    proof (rule sorted_wrt_insert)
      show "\<forall>x \<in> set xs. lt x a \<or> lt a x" using linear assms False by (auto simp: oset_ok_def)
    qed (use assms(1) trans in \<open>auto simp: oset_ok_def\<close>)
    moreover have "set (?l @ a # ?r) \<subseteq> D" using sx assms by (auto simp: oset_ok_def)
    ultimately show ?thesis using find_eq [OF assms] False by (simp add: oset_insert_def oset_ok_def)
  qed
qed

lemma hd_least: "oset_ok lt D (x # xs) \<Longrightarrow> y \<in> set xs \<Longrightarrow> lt x y"
  by (simp add: oset_ok_def)

end

end
