(* ===== verification/TimedLruCache.thy ===== *)
theory TimedLruCache
  imports LruCache OrderedSet "HOL-Library.Product_Lexorder"
begin

text \<open>
  The class \<open>TimedLruCache\<close> of \<open>include/datastruct/timed_lru_cache.h\<close>: an LRU cache whose items
  also carry an expiry time and sit in a \<open>std::set\<close> of list iterators ordered by expiry time
  and key. That set is the sequence of node identities in its order; its comparator reads the
  nodes, so the order depends on the current contents of the list.
\<close>

section \<open>State and operations\<close>

record ('k, 'v) tlru =
  tl_cache :: "('k \<times> nat) list"
  tl_keys :: "(nat \<times> 'k \<times> 'v \<times> nat) list"
  tl_timed :: "nat list"
  tl_next :: nat
  tl_maxSize :: nat
  tl_elasticity :: nat

definition new_TimedLruCache :: "nat \<Rightarrow> nat \<Rightarrow> ('k, 'v) tlru" where
  "new_TimedLruCache max_size elasticity =
    \<lparr> tl_cache = [], tl_keys = [], tl_timed = [], tl_next = 0,
      tl_maxSize = max_size, tl_elasticity = elasticity \<rparr>"

definition tl_getMaxAllowedSize :: "('k, 'v) tlru \<Rightarrow> nat" where
  "tl_getMaxAllowedSize c = tl_maxSize c + tl_elasticity c"

text \<open>The comparator \<open>ItemTimeOp\<close> on two iterators, given the nodes.\<close>

definition ItemTimeOp :: "(nat \<rightharpoonup> ('k::linorder \<times> 'v \<times> nat)) \<Rightarrow> nat \<Rightarrow> nat \<Rightarrow> bool" where
  "ItemTimeOp nodes a b =
    (case (nodes a, nodes b) of
       (Some (ka, _, ta), Some (kb, _, tb)) \<Rightarrow>
         (if a = b then False else if ta \<noteq> tb then ta < tb else ka < kb)
     | _ \<Rightarrow> False)"

text \<open>\<open>std::set::insert\<close> and \<open>std::set::erase\<close> by value, through the comparator.\<close>

definition timed_insert :: "(nat \<rightharpoonup> ('k::linorder \<times> 'v \<times> nat)) \<Rightarrow> nat \<Rightarrow> nat list \<Rightarrow> nat list" where
  "timed_insert nodes a xs =
    (if list_ex (\<lambda>b. \<not> ItemTimeOp nodes a b \<and> \<not> ItemTimeOp nodes b a) xs then xs
     else takeWhile (\<lambda>b. ItemTimeOp nodes b a) xs @ a # dropWhile (\<lambda>b. ItemTimeOp nodes b a) xs)"

definition timed_erase :: "(nat \<rightharpoonup> ('k::linorder \<times> 'v \<times> nat)) \<Rightarrow> nat \<Rightarrow> nat list \<Rightarrow> nat list" where
  "timed_erase nodes a xs = filter (\<lambda>b. ItemTimeOp nodes a b \<or> ItemTimeOp nodes b a) xs"

function tl_prune_loop :: "('k::linorder \<times> nat) list \<Rightarrow> (nat \<times> 'k \<times> 'v \<times> nat) list \<Rightarrow> nat list \<Rightarrow> nat
    \<Rightarrow> (('k \<times> nat) list \<times> (nat \<times> 'k \<times> 'v \<times> nat) list \<times> nat list \<times> ('k \<times> 'v) list) result" where
  "tl_prune_loop cache keys timed maxSize =
    (if maxSize < length cache then
       if keys = [] then Inl NullDeref
       else let (n, k, v, t) = last keys in
         bind_res (tl_prune_loop (drop_key k cache) (butlast keys) (timed_erase (map_of keys) n timed) maxSize)
           (\<lambda>(cache', keys', timed', evicted). Inr (cache', keys', timed', (k, v) # evicted))
     else Inr (cache, keys, timed, []))"
  by pat_completeness auto
termination by (relation "measure (\<lambda>(cache, keys, timed, m). length keys)") auto

definition tl_prune :: "cache_status \<times> ('k::linorder, 'v) tlru
    \<Rightarrow> (('k \<times> 'v) list \<times> cache_status \<times> ('k, 'v) tlru) result" where
  "tl_prune = (\<lambda>(st, c).
    if tl_maxSize c = 0 \<or> length (tl_cache c) < tl_getMaxAllowedSize c then Inr ([], st, c)
    else bind_res (tl_prune_loop (tl_cache c) (tl_keys c) (tl_timed c) (tl_maxSize c))
           (\<lambda>(cache, keys, timed, evicted).
             Inr (evicted, incPrune (int (length evicted)) st,
                  c\<lparr> tl_cache := cache, tl_keys := keys, tl_timed := timed \<rparr>)))"

definition tl_set :: "nat \<Rightarrow> 'k::linorder \<Rightarrow> 'v \<times> nat \<Rightarrow> cache_status \<times> ('k, 'v) tlru
    \<Rightarrow> (('k \<times> 'v) list \<times> cache_status \<times> ('k, 'v) tlru) result" where
  "tl_set now k = (\<lambda>(v, expired) (st0, c).
    let st = incSet 1 st0 in
    case map_of (tl_cache c) k of
      Some n \<Rightarrow>
        bind_res (splice_front n (tl_keys c)) (\<lambda>keys.
          let timed = timed_erase (map_of keys) n (tl_timed c);
              keys' = (n, fst (snd (hd keys)), v, expiry expired now) # tl keys in
          Inr ([], st, c\<lparr> tl_keys := keys', tl_timed := timed_insert (map_of keys') n timed \<rparr>))
    | None \<Rightarrow>
        let n = tl_next c;
            keys = (n, k, v, expiry expired now) # tl_keys c in
        tl_prune (st, c\<lparr> tl_keys := keys, tl_cache := (k, n) # tl_cache c,
                         tl_timed := timed_insert (map_of keys) n (tl_timed c), tl_next := Suc n \<rparr>))"

definition tl_get :: "'k \<Rightarrow> cache_status \<times> ('k, 'v) tlru
    \<Rightarrow> ('v option \<times> cache_status \<times> ('k, 'v) tlru) result" where
  "tl_get k = (\<lambda>(st0, c).
    let st = incGet 1 st0 in
    case map_of (tl_cache c) k of
      None \<Rightarrow> Inr (None, st, c)
    | Some n \<Rightarrow>
        bind_res (splice_front n (tl_keys c)) (\<lambda>keys.
          Inr (Some (fst (snd (snd (hd keys)))), incHit 1 st, c\<lparr> tl_keys := keys \<rparr>)))"

definition tl_del :: "'k::linorder \<Rightarrow> cache_status \<times> ('k, 'v) tlru
    \<Rightarrow> (bool \<times> cache_status \<times> ('k, 'v) tlru) result" where
  "tl_del k = (\<lambda>(st0, c).
    let st = incDel 1 st0 in
    case map_of (tl_cache c) k of
      None \<Rightarrow> Inr (False, st, c)
    | Some n \<Rightarrow>
        if map_of (tl_keys c) n = None then Inl NullDeref
        else Inr (True, st, c\<lparr> tl_timed := timed_erase (map_of (tl_keys c)) n (tl_timed c),
                               tl_keys := drop_key n (tl_keys c),
                               tl_cache := drop_key k (tl_cache c) \<rparr>))"

definition tl_exists :: "'k \<Rightarrow> ('k, 'v) tlru \<Rightarrow> bool" where
  "tl_exists k c \<longleftrightarrow> map_of (tl_cache c) k \<noteq> None"

definition tl_size :: "('k, 'v) tlru \<Rightarrow> nat" where
  "tl_size c = length (tl_cache c)"

definition tl_clear :: "('k, 'v) tlru \<Rightarrow> ('k, 'v) tlru" where
  "tl_clear c = c\<lparr> tl_cache := [], tl_keys := [], tl_timed := [] \<rparr>"

definition tl_empty :: "('k, 'v) tlru \<Rightarrow> bool" where
  "tl_empty c \<longleftrightarrow> tl_cache c = []"

definition tl_setMaxSize :: "nat \<Rightarrow> ('k, 'v) tlru \<Rightarrow> ('k, 'v) tlru" where
  "tl_setMaxSize v c = c\<lparr> tl_maxSize := v \<rparr>"

definition tl_setElasticity :: "nat \<Rightarrow> ('k, 'v) tlru \<Rightarrow> ('k, 'v) tlru" where
  "tl_setElasticity v c = c\<lparr> tl_elasticity := v \<rparr>"

text \<open>The loop of \<open>checkTimeout\<close> from the front of the ordered set, and what it evicts.\<close>

fun tl_checkTimeout_loop :: "nat \<Rightarrow> ('k \<times> nat) list \<Rightarrow> (nat \<times> 'k \<times> 'v \<times> nat) list \<Rightarrow> nat list
    \<Rightarrow> (('k \<times> nat) list \<times> (nat \<times> 'k \<times> 'v \<times> nat) list \<times> nat list \<times> ('k \<times> 'v) list) result" where
  "tl_checkTimeout_loop ts cache keys [] = Inr (cache, keys, [], [])"
| "tl_checkTimeout_loop ts cache keys (n # timed) =
    (case map_of keys n of
       None \<Rightarrow> Inl NullDeref
     | Some (k, v, t) \<Rightarrow>
         if t \<le> ts then
           bind_res (tl_checkTimeout_loop ts (drop_key k cache) (drop_key n keys) timed)
             (\<lambda>(cache', keys', timed', evicted). Inr (cache', keys', timed', (k, v) # evicted))
         else Inr (cache, keys, n # timed, []))"

definition tl_checkTimeout :: "nat \<Rightarrow> ('k, 'v) tlru \<Rightarrow> (nat \<times> ('k \<times> 'v) list \<times> ('k, 'v) tlru) result" where
  "tl_checkTimeout ts c =
    bind_res (tl_checkTimeout_loop ts (tl_cache c) (tl_keys c) (tl_timed c))
      (\<lambda>(cache, keys, timed, evicted).
        Inr (length evicted, evicted, c\<lparr> tl_cache := cache, tl_keys := keys, tl_timed := timed \<rparr>))"

section \<open>The ordered set of iterators\<close>

text \<open>Nodes have distinct keys; the set holds all of them, in the order of the comparator.\<close>

definition uniq :: "(nat \<rightharpoonup> ('k \<times> 'd)) \<Rightarrow> bool" where
  "uniq M \<longleftrightarrow> (\<forall>a b k d e. M a = Some (k, d) \<longrightarrow> M b = Some (k, e) \<longrightarrow> a = b)"

definition timed_ok :: "(nat \<rightharpoonup> ('k::linorder \<times> 'v \<times> nat)) \<Rightarrow> nat list \<Rightarrow> bool" where
  "timed_ok M xs \<longleftrightarrow> set xs = dom M \<and> distinct xs \<and> sorted_wrt (ItemTimeOp M) xs"

declare tl_prune_loop.simps [simp del]

lemma uniq_drop: "uniq M \<Longrightarrow> uniq (M(n := None))"
  by (auto simp: uniq_def split: if_splits)

lemma ItemTimeOp_linear:
  assumes "uniq M" "a \<in> dom M" "b \<in> dom M" "a \<noteq> b"
  shows "ItemTimeOp M a b \<or> ItemTimeOp M b a"
proof -
  obtain ka va ta kb vb tb where m: "M a = Some (ka, va, ta)" "M b = Some (kb, vb, tb)"
    using assms(2,3) by (metis domD prod.exhaust)
  then have "ka \<noteq> kb" using assms(1,4) unfolding uniq_def by blast
  then show ?thesis using m assms(4) by (auto simp: ItemTimeOp_def)
qed

lemma ItemTimeOp_iff:
  "ItemTimeOp M a b \<longleftrightarrow> (\<exists>k v t k' v' t'. M a = Some (k, v, t) \<and> M b = Some (k', v', t') \<and>
     a \<noteq> b \<and> (t < t' \<or> t = t' \<and> k < k'))"
proof (cases "M a = None \<or> M b = None")
  case False
  then obtain ka va ta kb vb tb where "M a = Some (ka, va, ta)" "M b = Some (kb, vb, tb)"
    by (metis not_None_eq prod.exhaust)
  then show ?thesis by (simp add: ItemTimeOp_def)
qed (auto simp: ItemTimeOp_def split: option.splits prod.splits)

lemma ItemTimeOp_irrefl [simp]: "\<not> ItemTimeOp M a a"
  by (auto simp: ItemTimeOp_def split: option.splits)

lemma ItemTimeOp_trans:
  "ItemTimeOp M a b \<Longrightarrow> ItemTimeOp M b c \<Longrightarrow> ItemTimeOp M a c"
  unfolding ItemTimeOp_iff by auto

lemma ItemTimeOp_upd:
  "a \<noteq> n \<Longrightarrow> b \<noteq> n \<Longrightarrow> ItemTimeOp (M(n := x)) a b = ItemTimeOp M a b"
  by (simp add: ItemTimeOp_def)

lemma ItemTimeOp_time:
  "ItemTimeOp M a b \<Longrightarrow> M a = Some (k, v, t) \<Longrightarrow> M b = Some (k', v', t') \<Longrightarrow> t \<le> t'"
  by (auto simp: ItemTimeOp_def split: if_splits)

lemma timed_erase_eq:
  assumes "uniq M" "timed_ok M xs" "n \<in> dom M"
  shows "timed_erase M n xs = filter (\<lambda>b. b \<noteq> n) xs"
  unfolding timed_erase_def using ItemTimeOp_linear [OF assms(1)] assms(2,3)
  by (intro filter_cong) (auto simp: timed_ok_def)

lemma timed_ok_remove:
  assumes "timed_ok M xs"
  shows "timed_ok (M(n := None)) (filter (\<lambda>b. b \<noteq> n) xs)"
proof -
  have "sorted_wrt (ItemTimeOp (M(n := None))) (filter (\<lambda>b. b \<noteq> n) xs)"
    by (rule sorted_wrt_mono_rel [of _ "ItemTimeOp M"])
      (use assms in \<open>auto simp: timed_ok_def ItemTimeOp_upd intro: sorted_wrt_filter\<close>)
  then show ?thesis using assms by (auto simp: timed_ok_def)
qed

lemma timed_ok_insert:
  assumes u: "uniq (M(n \<mapsto> d))" and ok: "timed_ok (M(n := None)) xs"
  shows "timed_ok (M(n \<mapsto> d)) (timed_insert (M(n \<mapsto> d)) n xs)"
proof -
  let ?M = "M(n \<mapsto> d)"
  have s: "set xs = dom M - {n}" "distinct xs" "sorted_wrt (ItemTimeOp (M(n := None))) xs"
    using ok by (auto simp: timed_ok_def)
  have sw: "sorted_wrt (ItemTimeOp ?M) xs"
    by (rule sorted_wrt_mono_rel [of _ "ItemTimeOp (M(n := None))"])
      (use s in \<open>auto simp: ItemTimeOp_upd\<close>)
  have lin: "\<forall>x \<in> set xs. ItemTimeOp ?M x n \<or> ItemTimeOp ?M n x"
    using ItemTimeOp_linear [OF u] s(1) by auto
  then have eq: "timed_insert ?M n xs
      = takeWhile (\<lambda>b. ItemTimeOp ?M b n) xs @ n # dropWhile (\<lambda>b. ItemTimeOp ?M b n) xs"
    by (auto simp: timed_insert_def list_ex_iff)
  have srt: "sorted_wrt (ItemTimeOp ?M) (timed_insert ?M n xs)"
    unfolding eq by (rule sorted_wrt_insert [OF sw _ lin]) (rule ItemTimeOp_trans)
  let ?l = "takeWhile (\<lambda>b. ItemTimeOp ?M b n) xs" and ?r = "dropWhile (\<lambda>b. ItemTimeOp ?M b n) xs"
  have sx: "set ?l \<union> set ?r = set xs" by (metis takeWhile_dropWhile_id set_append)
  have dx: "distinct (?l @ ?r)" using s(2) by (simp only: takeWhile_dropWhile_id)
  have "set (timed_insert ?M n xs) = insert n (set xs)" unfolding eq using sx by auto
  moreover have "distinct (timed_insert ?M n xs)"
    unfolding eq
  proof (rule distinct_insert_mid [OF dx])
    have "n \<notin> set xs" using s(1) by simp
    then show "n \<notin> set ?l \<union> set ?r" by (simp only: sx not_False_eq_True)
  qed
  ultimately show ?thesis using srt s(1) by (auto simp: timed_ok_def)
qed

section \<open>Invariant and abstraction\<close>

definition tl_wf :: "('k::linorder, 'v) tlru \<Rightarrow> bool" where
  "tl_wf c \<longleftrightarrow> linked fst (tl_cache c) (tl_keys c) \<and> (\<forall>p \<in> set (tl_keys c). fst p < tl_next c) \<and>
     timed_ok (map_of (tl_keys c)) (tl_timed c)"

text \<open>The entries, most recently used first: key, value and expiry time.\<close>

definition tl_list :: "('k, 'v) tlru \<Rightarrow> ('k \<times> 'v \<times> nat) list" where
  "tl_list c = map snd (tl_keys c)"

text \<open>The timed cache without its ordered set is an LRU cache of value-time pairs.\<close>

definition to_lru :: "('k, 'v) tlru \<Rightarrow> ('k, 'v \<times> nat) lru" where
  "to_lru c = \<lparr> lc_cache = tl_cache c, lc_keys = tl_keys c, lc_next = tl_next c,
                lc_maxSize = tl_maxSize c, lc_elasticity = tl_elasticity c \<rparr>"

lemma to_lru_wf: "tl_wf c \<Longrightarrow> lru_wf (to_lru c)"
  by (simp add: tl_wf_def lru_wf_def to_lru_def)

lemma to_lru_list [simp]: "lru_list (to_lru c) = tl_list c"
  by (simp add: tl_list_def lru_list_def to_lru_def)

lemma tl_wf_new: "tl_wf (new_TimedLruCache m e)"
  by (simp add: tl_wf_def new_TimedLruCache_def timed_ok_def)

lemma linked_uniq:
  assumes "linked fst cache keys"
  shows "uniq (map_of keys)"
  unfolding uniq_def using linked_key_unique [OF assms] by (auto dest!: map_of_SomeD)

lemma map_of_front: "map_of ((n, d) # drop_key n keys) = (map_of keys)(n \<mapsto> d)"
  by (auto simp: fun_eq_iff)

lemma tl_prune_loop_correct:
  assumes "linked fst cache keys" "timed_ok (map_of keys) timed"
  shows "\<exists>cache' timed'. tl_prune_loop cache keys timed m =
           Inr (cache', take m keys, timed', rev (map (\<lambda>(n, k, v, t). (k, v)) (drop m keys))) \<and>
           linked fst cache' (take m keys) \<and> timed_ok (map_of (take m keys)) timed'"
  using assms
proof (induction cache keys timed m rule: tl_prune_loop.induct)
  case (1 cache keys timed m)
  show ?case
  proof (cases "m < length cache")
    case True
    then have ne: "keys \<noteq> []" and len: "m < length keys" using linked_length [OF "1.prems"(1)] by auto
    obtain n k v t where lst: "last keys = (n, k, v, t)" by (metis prod.exhaust)
    have ks: "keys = butlast keys @ [(n, k, v, t)]" using ne lst by (metis append_butlast_last_id)
    have dist: "distinct (map fst keys)" using "1.prems"(1) by (simp add: linked_def)
    have bl: "butlast keys = drop_key n keys"
      using dist by (subst (2) ks) (subst (asm) ks, simp)
    have l: "linked fst (drop_key k cache) (butlast keys)"
      using linked_butlast [OF "1.prems"(1) ne] lst by simp
    have "(n, k, v, t) \<in> set keys" using lst last_in_set [OF ne] by simp
    then have "n \<in> dom (map_of keys)" by (simp add: dom_map_of_conv_image_fst rev_image_eqI)
    then have te: "timed_erase (map_of keys) n timed = filter (\<lambda>b. b \<noteq> n) timed"
      using timed_erase_eq [OF linked_uniq [OF "1.prems"(1)] "1.prems"(2)] by blast
    have ok: "timed_ok (map_of (butlast keys)) (timed_erase (map_of keys) n timed)"
      unfolding te bl map_of_drop_key by (rule timed_ok_remove [OF "1.prems"(2)])
    obtain cache' timed' where "tl_prune_loop (drop_key k cache) (butlast keys)
            (timed_erase (map_of keys) n timed) m = Inr (cache', take m (butlast keys), timed',
              rev (map (\<lambda>(n, k, v, t). (k, v)) (drop m (butlast keys))))"
        "linked fst cache' (take m (butlast keys))" "timed_ok (map_of (take m (butlast keys))) timed'"
      using "1.IH" [OF True ne lst [symmetric] refl refl refl l ok] by blast
    moreover have "take m (butlast keys) = take m keys" using len by (simp add: take_butlast)
    moreover have "drop m keys = drop m (butlast keys) @ [(n, k, v, t)]"
      by (subst ks) (use len in simp)
    ultimately show ?thesis
      using True ne lst by (subst tl_prune_loop.simps) simp
  next
    case False
    then have "length keys \<le> m" using linked_length [OF "1.prems"(1)] by simp
    then show ?thesis using False "1.prems" by (subst tl_prune_loop.simps) simp
  qed
qed

lemma tl_prune_correct:
  assumes wf: "tl_wf c"
  shows "\<exists>ev st' c'. tl_prune (st, c) = Inr (ev, st', c') \<and> tl_wf c' \<and>
           tl_list c' = spec_trim (tl_maxSize c) (tl_elasticity c) (tl_list c) \<and>
           tl_maxSize c' = tl_maxSize c \<and> tl_elasticity c' = tl_elasticity c"
proof (cases "tl_maxSize c = 0 \<or> length (tl_cache c) < tl_getMaxAllowedSize c")
  case True
  then show ?thesis
    using wf linked_length [of fst "tl_cache c" "tl_keys c"]
    by (auto simp: tl_prune_def spec_trim_def tl_getMaxAllowedSize_def tl_wf_def tl_list_def)
next
  case False
  let ?m = "tl_maxSize c"
  have l: "linked fst (tl_cache c) (tl_keys c)" and ok: "timed_ok (map_of (tl_keys c)) (tl_timed c)"
    using wf by (simp_all add: tl_wf_def)
  obtain cache' timed' ev where loop: "tl_prune_loop (tl_cache c) (tl_keys c) (tl_timed c) ?m
        = Inr (cache', take ?m (tl_keys c), timed', ev)"
      and l': "linked fst cache' (take ?m (tl_keys c))"
      and ok': "timed_ok (map_of (take ?m (tl_keys c))) timed'"
    using tl_prune_loop_correct [OF l ok, of ?m] by blast
  have "tl_wf (c\<lparr> tl_cache := cache', tl_keys := take ?m (tl_keys c), tl_timed := timed' \<rparr>)"
    using l' ok' wf by (auto simp: tl_wf_def dest: in_set_takeD)
  then show ?thesis
    using loop False linked_length [OF l]
    by (auto simp: tl_prune_def spec_trim_def tl_getMaxAllowedSize_def tl_list_def take_map)
qed

section \<open>Each operation on the abstract cache\<close>

lemma tl_hit:
  assumes wf: "tl_wf c" and k: "map_of (tl_cache c) k = Some n"
  obtains v t where "map_of (tl_keys c) n = Some (k, v, t)" "map_of (tl_list c) k = Some (v, t)"
    "map snd (drop_key n (tl_keys c)) = drop_key k (tl_list c)" "n < tl_next c"
proof -
  obtain w where w: "map_of (tl_keys c) n = Some (k, w)" "map_of (tl_list c) k = Some w"
      "map snd (drop_key n (tl_keys c)) = drop_key k (tl_list c)"
    using lru_hit [OF to_lru_wf [OF wf], of k n] k to_lru_list [of c] by (auto simp: to_lru_def)
  have "n < tl_next c" using wf map_of_SomeD [OF w(1)] by (force simp: tl_wf_def)
  then show ?thesis using that w by (metis surj_pair)
qed

lemma tl_miss: "tl_wf c \<Longrightarrow> map_of (tl_cache c) k = None \<Longrightarrow> map_of (tl_list c) k = None"
  using lru_map_of [OF to_lru_wf, of c k] to_lru_list [of c] by (simp add: to_lru_def)

lemma tl_set_correct:
  assumes wf: "tl_wf c"
  shows "\<exists>ev st' c'. tl_set now k (v, expired) (st, c) = Inr (ev, st', c') \<and> tl_wf c' \<and>
           tl_list c' = spec_set (tl_maxSize c) (tl_elasticity c) k (v, expiry expired now) (tl_list c) \<and>
           tl_maxSize c' = tl_maxSize c \<and> tl_elasticity c' = tl_elasticity c"
proof (cases "map_of (tl_cache c) k")
  case None
  let ?d = "(k, v, expiry expired now)" and ?n = "tl_next c"
  let ?keys = "(?n, ?d) # tl_keys c"
  let ?c = "c\<lparr> tl_keys := ?keys, tl_cache := (k, ?n) # tl_cache c,
               tl_timed := timed_insert (map_of ?keys) ?n (tl_timed c), tl_next := Suc ?n \<rparr>"
  have l: "linked fst (tl_cache c) (tl_keys c)" and fresh: "\<forall>p \<in> set (tl_keys c). fst p < ?n"
    and ok: "timed_ok (map_of (tl_keys c)) (tl_timed c)" using wf by (simp_all add: tl_wf_def)
  have new: "?n \<notin> fst ` set (tl_keys c)" using fresh by (simp add: image_iff) (metis less_irrefl)
  have l': "linked fst ((k, ?n) # tl_cache c) ?keys"
    using linked_Cons [OF l, of ?d ?n] None new by simp
  have "map_of (tl_keys c) ?n = None" using new by (simp add: map_of_eq_None_iff)
  then have "timed_ok (map_of ?keys) (timed_insert (map_of ?keys) ?n (tl_timed c))"
    using timed_ok_insert [of "map_of (tl_keys c)" ?n ?d "tl_timed c"] linked_uniq [OF l'] ok
    by (simp add: fun_upd_idem)
  then have "tl_wf ?c" using l' fresh by (auto simp: tl_wf_def)
  then show ?thesis
    using tl_prune_correct [of ?c "incSet 1 st"] None tl_miss [OF wf None]
    by (simp add: tl_set_def spec_set_def Let_def) (simp add: tl_list_def)
next
  case (Some n)
  let ?d = "(k, v, expiry expired now)"
  obtain w t where w: "map_of (tl_keys c) n = Some (k, w, t)" "map_of (tl_list c) k = Some (w, t)"
      "map snd (drop_key n (tl_keys c)) = drop_key k (tl_list c)" "n < tl_next c"
    using tl_hit [OF wf Some] by blast
  let ?keys = "(n, k, w, t) # drop_key n (tl_keys c)" and ?keys' = "(n, ?d) # drop_key n (tl_keys c)"
  have l: "linked fst (tl_cache c) (tl_keys c)" and ok: "timed_ok (map_of (tl_keys c)) (tl_timed c)"
    using wf by (simp_all add: tl_wf_def)
  have M: "map_of ?keys = map_of (tl_keys c)" using w(1) by (simp add: map_of_front fun_upd_idem)
  let ?timed = "timed_erase (map_of ?keys) n (tl_timed c)"
  have te: "?timed = filter (\<lambda>b. b \<noteq> n) (tl_timed c)"
    unfolding M using timed_erase_eq [OF linked_uniq [OF l] ok] w(1) by blast
  have l': "linked fst (tl_cache c) ?keys'" using linked_front [OF l Some, of ?d] by simp
  have "timed_ok ((map_of (tl_keys c))(n := None)) ?timed" unfolding te using timed_ok_remove [OF ok] .
  then have "timed_ok (map_of ?keys') (timed_insert (map_of ?keys') n ?timed)"
    using timed_ok_insert [of "map_of (tl_keys c)" n ?d ?timed] linked_uniq [OF l']
    by (simp only: map_of_front)
  then have "tl_wf (c\<lparr> tl_keys := ?keys', tl_timed := timed_insert (map_of ?keys') n ?timed \<rparr>)"
    using l' w(4) wf by (auto simp: tl_wf_def)
  then show ?thesis
    using Some w by (simp add: tl_set_def splice_front_def Let_def spec_set_def) (simp add: tl_list_def)
qed

lemma tl_get_correct:
  assumes wf: "tl_wf c"
  shows "\<exists>st' c'. tl_get k (st, c) = Inr (map_option fst (map_of (tl_list c) k), st', c') \<and> tl_wf c' \<and>
           tl_list c' = spec_get k (tl_list c) \<and>
           tl_maxSize c' = tl_maxSize c \<and> tl_elasticity c' = tl_elasticity c"
proof (cases "map_of (tl_cache c) k")
  case None
  then show ?thesis using tl_miss [OF wf None] wf by (simp add: tl_get_def spec_get_def)
next
  case (Some n)
  obtain w t where w: "map_of (tl_keys c) n = Some (k, w, t)" "map_of (tl_list c) k = Some (w, t)"
      "map snd (drop_key n (tl_keys c)) = drop_key k (tl_list c)" "n < tl_next c"
    using tl_hit [OF wf Some] by blast
  let ?keys = "(n, k, w, t) # drop_key n (tl_keys c)"
  have "linked fst (tl_cache c) ?keys"
    using linked_front [of fst "tl_cache c" "tl_keys c" k n "(k, w, t)"] wf Some by (simp add: tl_wf_def)
  moreover have "map_of ?keys = map_of (tl_keys c)" using w(1) by (simp add: map_of_front fun_upd_idem)
  ultimately have "tl_wf (c\<lparr> tl_keys := ?keys \<rparr>)"
    using wf w(4) unfolding tl_wf_def by auto
  then show ?thesis
    using Some w by (simp add: tl_get_def splice_front_def spec_get_def) (simp add: tl_list_def)
qed

lemma tl_del_correct:
  assumes wf: "tl_wf c"
  shows "\<exists>st' c'. tl_del k (st, c) = Inr (map_of (tl_list c) k \<noteq> None, st', c') \<and> tl_wf c' \<and>
           tl_list c' = drop_key k (tl_list c) \<and>
           tl_maxSize c' = tl_maxSize c \<and> tl_elasticity c' = tl_elasticity c"
proof (cases "map_of (tl_cache c) k")
  case None
  then show ?thesis using tl_miss [OF wf None] wf by (simp add: tl_del_def)
next
  case (Some n)
  obtain w t where w: "map_of (tl_keys c) n = Some (k, w, t)" "map_of (tl_list c) k = Some (w, t)"
      "map snd (drop_key n (tl_keys c)) = drop_key k (tl_list c)" "n < tl_next c"
    using tl_hit [OF wf Some] by blast
  have l: "linked fst (tl_cache c) (tl_keys c)" and ok: "timed_ok (map_of (tl_keys c)) (tl_timed c)"
    using wf by (simp_all add: tl_wf_def)
  let ?timed = "timed_erase (map_of (tl_keys c)) n (tl_timed c)"
  have "?timed = filter (\<lambda>b. b \<noteq> n) (tl_timed c)"
    using timed_erase_eq [OF linked_uniq [OF l] ok] w(1) by blast
  then have "timed_ok (map_of (drop_key n (tl_keys c))) ?timed" using timed_ok_remove [OF ok, of n] by simp
  then have "tl_wf (c\<lparr> tl_timed := ?timed, tl_keys := drop_key n (tl_keys c),
                       tl_cache := drop_key k (tl_cache c) \<rparr>)"
    using linked_drop [OF l Some] wf by (auto simp: tl_wf_def)
  then show ?thesis using Some w by (simp add: tl_del_def tl_list_def)
qed

section \<open>Expiry\<close>

definition live :: "nat \<Rightarrow> nat \<times> 'k \<times> 'v \<times> nat \<Rightarrow> bool" where
  "live ts p \<longleftrightarrow> ts < snd (snd (snd p))"

lemma filter_drop_key_dead:
  assumes "distinct (map fst keys)" "map_of keys n = Some d" "\<not> P (n, d)"
  shows "filter P (drop_key n keys) = filter P keys"
proof -
  have "\<not> P p" if "p \<in> set keys" "fst p = n" for p
    using map_of_in [OF assms(1), of "fst p" "snd p"] that assms(2,3) by auto
  then show ?thesis unfolding drop_key_def filter_filter by (intro filter_cong) auto
qed

lemma tl_checkTimeout_loop_correct:
  assumes "linked fst cache keys" "timed_ok (map_of keys) timed"
  shows "\<exists>cache' timed' ev. tl_checkTimeout_loop ts cache keys timed
             = Inr (cache', filter (live ts) keys, timed', ev) \<and>
           linked fst cache' (filter (live ts) keys) \<and> timed_ok (map_of (filter (live ts) keys)) timed' \<and>
           length ev = length (filter (\<lambda>p. \<not> live ts p) keys) \<and>
           set ev = (\<lambda>(n, k, v, t). (k, v)) ` set (filter (\<lambda>p. \<not> live ts p) keys)"
  using assms
proof (induction timed arbitrary: cache keys)
  case Nil
  then have "keys = []" by (cases keys) (auto simp: timed_ok_def)
  then show ?case using Nil by simp
next
  case (Cons n timed)
  have dist: "distinct (map fst keys)" using Cons.prems(1) by (simp add: linked_def)
  obtain k v t where n: "map_of keys n = Some (k, v, t)"
  proof -
    have "n \<in> dom (map_of keys)" using Cons.prems(2) unfolding timed_ok_def by auto
    then show ?thesis using that by (metis domD prod.exhaust)
  qed
  show ?case
  proof (cases "t \<le> ts")
    case True
    have "map_of cache k = Some n" using linked_lookup [OF Cons.prems(1)] n by auto
    then have l: "linked fst (drop_key k cache) (drop_key n keys)"
      using linked_drop [OF Cons.prems(1)] by blast
    have "filter (\<lambda>b. b \<noteq> n) (n # timed) = timed"
      using Cons.prems(2) by (auto simp: timed_ok_def intro: filter_True)
    then have ok: "timed_ok (map_of (drop_key n keys)) timed"
      using timed_ok_remove [OF Cons.prems(2), of n] by simp
    have keep: "filter (live ts) (drop_key n keys) = filter (live ts) keys"
      using filter_drop_key_dead [OF dist n] True by (simp add: live_def)
    have in_keys: "(n, k, v, t) \<in> set keys" using n by (rule map_of_SomeD)
    let ?dead = "\<lambda>p. \<not> live ts p"
    have "mset (filter ?dead keys) = add_mset (n, k, v, t) (mset (filter ?dead (drop_key n keys)))"
      using mset_drop_key [OF dist in_keys] True by (simp add: live_def)
    then have gone: "length (filter ?dead keys) = Suc (length (filter ?dead (drop_key n keys)))"
        "set (filter ?dead keys) = insert (n, k, v, t) (set (filter ?dead (drop_key n keys)))"
      by (metis size_mset size_add_mset, metis set_mset_mset set_mset_add_mset_insert)
    show ?thesis
      using Cons.IH [OF l ok] n True keep unfolding gone by auto
  next
    case False
    have "live ts p" if "p \<in> set keys" for p
    proof -
      obtain m k' v' t' where p: "p = (m, k', v', t')" by (cases p)
      have m: "map_of keys m = Some (k', v', t')" using that p dist by simp
      then have "m \<in> set (n # timed)" using Cons.prems(2) by (auto simp: timed_ok_def)
      then have "t \<le> t'"
        using Cons.prems(2) ItemTimeOp_time [of "map_of keys" n m] n m by (auto simp: timed_ok_def)
      then show ?thesis using False p by (simp add: live_def)
    qed
    then have "filter (live ts) keys = keys" "filter (\<lambda>p. \<not> live ts p) keys = []"
      by (auto simp: filter_True)
    then show ?thesis using Cons.prems n False by simp
  qed
qed

lemma tl_checkTimeout_correct:
  assumes wf: "tl_wf c"
  shows "\<exists>ev c'. tl_checkTimeout ts c = Inr (length ev, ev, c') \<and> tl_wf c' \<and>
           tl_list c' = filter (\<lambda>(k, v, t). ts < t) (tl_list c) \<and>
           length ev = length (filter (\<lambda>(k, v, t). t \<le> ts) (tl_list c)) \<and>
           set ev = (\<lambda>(k, v, t). (k, v)) ` set (filter (\<lambda>(k, v, t). t \<le> ts) (tl_list c)) \<and>
           tl_maxSize c' = tl_maxSize c \<and> tl_elasticity c' = tl_elasticity c"
proof -
  have l: "linked fst (tl_cache c) (tl_keys c)" and ok: "timed_ok (map_of (tl_keys c)) (tl_timed c)"
    using wf by (simp_all add: tl_wf_def)
  let ?ks = "filter (live ts) (tl_keys c)" and ?dead = "filter (\<lambda>p. \<not> live ts p) (tl_keys c)"
  obtain cache' timed' ev where r: "tl_checkTimeout_loop ts (tl_cache c) (tl_keys c) (tl_timed c)
        = Inr (cache', ?ks, timed', ev)" "linked fst cache' ?ks" "timed_ok (map_of ?ks) timed'"
      "length ev = length ?dead" "set ev = (\<lambda>(n, k, v, t). (k, v)) ` set ?dead"
    using tl_checkTimeout_loop_correct [OF l ok, of ts] by blast
  let ?c = "c\<lparr> tl_cache := cache', tl_keys := ?ks, tl_timed := timed' \<rparr>"
  have "tl_wf ?c" using r wf by (auto simp: tl_wf_def)
  moreover have "tl_list ?c = filter (\<lambda>(k, v, t). ts < t) (tl_list c)"
    by (simp add: tl_list_def filter_map o_def live_def [abs_def] case_prod_beta)
  moreover have dead: "filter (\<lambda>(k, v, t). t \<le> ts) (tl_list c) = map snd ?dead"
    by (simp add: tl_list_def filter_map o_def live_def [abs_def] case_prod_beta not_less)
  moreover have "set ev = (\<lambda>(k, v, t). (k, v)) ` set (filter (\<lambda>(k, v, t). t \<le> ts) (tl_list c))"
    unfolding dead r(5) by (simp add: image_image case_prod_beta)
  ultimately show ?thesis
    using r(1,4) by (auto simp: tl_checkTimeout_def)
qed

section \<open>Sequences of calls\<close>

datatype ('k, 'v) tl_op = TSet nat 'k 'v nat | TGet 'k | TDel 'k | TCheckTimeout nat | TSize | TClear

fun tl_step :: "('k::linorder, 'v) tl_op \<Rightarrow> cache_status \<times> ('k, 'v) tlru
    \<Rightarrow> ('v lru_out \<times> cache_status \<times> ('k, 'v) tlru) result" where
  "tl_step (TSet now k v expired) s = bind_res (tl_set now k (v, expired) s) (\<lambda>(ev, s'). Inr (OUnit, s'))"
| "tl_step (TGet k) s = bind_res (tl_get k s) (\<lambda>(r, s'). Inr (OVal r, s'))"
| "tl_step (TDel k) s = bind_res (tl_del k s) (\<lambda>(r, s'). Inr (OBool r, s'))"
| "tl_step (TCheckTimeout ts) (st, c) =
    bind_res (tl_checkTimeout ts c) (\<lambda>(n, ev, c'). Inr (ONat n, st, c'))"
| "tl_step TSize (st, c) = Inr (ONat (tl_size c), st, c)"
| "tl_step TClear (st, c) = Inr (OBool True, st, tl_clear c)"

fun tl_run :: "('k::linorder, 'v) tl_op list \<Rightarrow> cache_status \<times> ('k, 'v) tlru
    \<Rightarrow> ('v lru_out list \<times> cache_status \<times> ('k, 'v) tlru) result" where
  "tl_run [] s = Inr ([], s)"
| "tl_run (x # xs) s =
    bind_res (tl_step x s) (\<lambda>(r, s'). bind_res (tl_run xs s') (\<lambda>(rs, s''). Inr (r # rs, s'')))"

text \<open>The same calls on the list of entries in order of use: a timeout check removes every entry
  whose expiry time has come, wherever it is, and counts them.\<close>

fun tspec_step :: "nat \<Rightarrow> nat \<Rightarrow> ('k, 'v) tl_op \<Rightarrow> ('k \<times> 'v \<times> nat) list
    \<Rightarrow> 'v lru_out \<times> ('k \<times> 'v \<times> nat) list" where
  "tspec_step m e (TSet now k v expired) xs = (OUnit, spec_set m e k (v, expiry expired now) xs)"
| "tspec_step m e (TGet k) xs = (OVal (map_option fst (map_of xs k)), spec_get k xs)"
| "tspec_step m e (TDel k) xs = (OBool (map_of xs k \<noteq> None), drop_key k xs)"
| "tspec_step m e (TCheckTimeout ts) xs =
    (ONat (length (filter (\<lambda>(k, v, t). t \<le> ts) xs)), filter (\<lambda>(k, v, t). ts < t) xs)"
| "tspec_step m e TSize xs = (ONat (length xs), xs)"
| "tspec_step m e TClear xs = (OBool True, [])"

fun tspec_run :: "nat \<Rightarrow> nat \<Rightarrow> ('k, 'v) tl_op list \<Rightarrow> ('k \<times> 'v \<times> nat) list
    \<Rightarrow> 'v lru_out list \<times> ('k \<times> 'v \<times> nat) list" where
  "tspec_run m e [] xs = ([], xs)"
| "tspec_run m e (x # xs) s =
    (let (r, s') = tspec_step m e x s; (rs, s'') = tspec_run m e xs s' in (r # rs, s''))"

lemma tl_size_list [simp]: "tl_wf c \<Longrightarrow> tl_size c = length (tl_list c)"
  using linked_length by (auto simp: tl_wf_def tl_size_def tl_list_def)

lemma tl_step_refines:
  assumes wf: "tl_wf c" and m: "tl_maxSize c = m" "tl_elasticity c = e"
  shows "\<exists>st' c'. tl_step x (st, c) = Inr (fst (tspec_step m e x (tl_list c)), st', c') \<and>
           tl_wf c' \<and> tl_list c' = snd (tspec_step m e x (tl_list c)) \<and>
           tl_maxSize c' = m \<and> tl_elasticity c' = e"
proof (cases x)
  case (TSet now k v expired)
  then show ?thesis using tl_set_correct [OF wf, of now k v expired st] m by auto
next
  case (TGet k)
  then show ?thesis using tl_get_correct [OF wf, of k st] m by auto
next
  case (TDel k)
  then show ?thesis using tl_del_correct [OF wf, of k st] m by auto
next
  case (TCheckTimeout ts)
  then show ?thesis using tl_checkTimeout_correct [OF wf, of ts] m by auto
next
  case TClear
  then show ?thesis using m by (auto simp: tl_clear_def tl_wf_def tl_list_def timed_ok_def)
qed (use wf m in simp)

lemma tl_run_refines:
  assumes "tl_wf c" "tl_maxSize c = m" "tl_elasticity c = e"
  shows "\<exists>st' c'. tl_run xs (st, c) = Inr (fst (tspec_run m e xs (tl_list c)), st', c') \<and>
           tl_wf c' \<and> tl_list c' = snd (tspec_run m e xs (tl_list c))"
  using assms
proof (induction xs arbitrary: st c)
  case (Cons x xs)
  obtain st1 c1 where s: "tl_step x (st, c) = Inr (fst (tspec_step m e x (tl_list c)), st1, c1)"
      "tl_wf c1" "tl_list c1 = snd (tspec_step m e x (tl_list c))"
      "tl_maxSize c1 = m" "tl_elasticity c1 = e"
    using tl_step_refines [OF Cons.prems, of x st] by auto
  then show ?case
    using Cons.IH [OF s(2,4,5), of st1] by (auto simp: case_prod_beta)
qed simp

text \<open>C6: every sequence of stores, lookups, deletions and timeout checks on a fresh
  \<open>TimedLruCache\<close> returns what it returns on a list of entries in order of use; in particular a
  timeout check removes exactly the entries whose time has come although it stops at the first
  later one, and no iterator of the ordered set outlives its node.\<close>

theorem timed_lru_refines_list:
  "\<exists>st' c'. tl_run xs (new_CacheStatus, new_TimedLruCache m e)
       = Inr (fst (tspec_run m e xs []), st', c') \<and>
     tl_list c' = snd (tspec_run m e xs [])"
  using tl_run_refines [OF tl_wf_new, of m e m e xs new_CacheStatus]
  by (auto simp: new_TimedLruCache_def tl_list_def)

section \<open>As a shard\<close>

definition tl_lookup :: "('k, 'v) tlru \<Rightarrow> 'k \<Rightarrow> 'v option" where
  "tl_lookup c k = map_option fst (map_of (tl_list c) k)"

lemma tl_list_distinct: "tl_wf c \<Longrightarrow> distinct (map fst (tl_list c))"
  using lru_list_distinct [OF to_lru_wf, of c] by simp

interpretation tlru: cache_shard tl_lookup tl_wf fst "tl_set now" tl_get tl_del
proof (unfold_locales, goal_cases)
  case (1 c k a st)
  obtain v expired where a: "a = (v, expired)" by (cases a)
  obtain ev st' c' where s: "tl_set now k a (st, c) = Inr (ev, st', c')" "tl_wf c'"
      "tl_list c' = spec_set (tl_maxSize c) (tl_elasticity c) k (v, expiry expired now) (tl_list c)"
    using tl_set_correct [OF 1, of now k v expired st] a by auto
  note ms = map_of_spec_set [OF tl_list_distinct [OF 1]]
  have "tl_lookup c' k = Some (fst a)" using ms(1) s(3) a by (simp add: tl_lookup_def)
  moreover have "tl_lookup c k' = Some w" if "k' \<noteq> k" "tl_lookup c' k' = Some w" for k' w
    using that ms(2) [OF that(1)] s(3) unfolding tl_lookup_def by fastforce
  ultimately show ?case using s by blast
next
  case (2 c k st)
  then show ?case
    using tl_get_correct [OF 2, of k st] by (auto simp: tl_lookup_def fun_eq_iff map_of_spec_get)
next
  case (3 c k st)
  then show ?case
    using tl_del_correct [OF 3, of k st] by (auto simp: tl_lookup_def fun_eq_iff)
qed

end
