(* ===== verification/TimedCache.thy ===== *)
theory TimedCache
  imports LruCache "HOL-Library.Product_Lexorder"
begin

text \<open>
  The class \<open>TimedCache\<close> of \<open>include/datastruct/timed_cache.h\<close>: a \<open>std::set\<close> of items ordered by
  expiry time and key, and a hash map from keys to set iterators. The set is the list of its
  nodes in order; a node has an identity, which is what an iterator is.
\<close>

section \<open>State and operations\<close>

type_synonym ('k, 'v) item = "nat \<times> 'k \<times> 'v \<times> nat"

record ('k, 'v) tcache =
  tc_cache :: "('k \<times> nat) list"
  tc_timed :: "('k, 'v) item list"
  tc_next :: nat
  tc_maxSize :: nat
  tc_elasticity :: nat

definition new_TimedCache :: "nat \<Rightarrow> nat \<Rightarrow> ('k, 'v) tcache" where
  "new_TimedCache max_size elasticity =
    \<lparr> tc_cache = [], tc_timed = [], tc_next = 0, tc_maxSize = max_size, tc_elasticity = elasticity \<rparr>"

definition tc_getMaxAllowedSize :: "('k, 'v) tcache \<Rightarrow> nat" where
  "tc_getMaxAllowedSize c = tc_maxSize c + tc_elasticity c"

text \<open>What \<open>Item::operator<\<close> compares: the expiry time, then the key.\<close>

definition item_key :: "('k, 'v) item \<Rightarrow> nat \<times> 'k" where
  "item_key p = (snd (snd (snd p)), fst (snd p))"

text \<open>\<open>std::set::insert\<close>: the node that is in the set afterwards, and the set.\<close>

fun item_insert :: "('k::linorder, 'v) item \<Rightarrow> ('k, 'v) item list \<Rightarrow> nat \<times> ('k, 'v) item list" where
  "item_insert p [] = (fst p, [p])"
| "item_insert p (q # qs) =
    (if item_key p < item_key q then (fst p, p # q # qs)
     else if item_key p = item_key q then (fst q, q # qs)
     else let (n, rs) = item_insert p qs in (n, q # rs))"

fun tc_prune_loop :: "('k \<times> nat) list \<Rightarrow> ('k, 'v) item list \<Rightarrow> nat
    \<Rightarrow> (('k \<times> nat) list \<times> ('k, 'v) item list \<times> ('k \<times> 'v) list) result" where
  "tc_prune_loop cache timed maxSize =
    (if maxSize < length cache then
       case timed of
         [] \<Rightarrow> Inl NullDeref
       | (n, k, v, t) # rest \<Rightarrow>
           bind_res (tc_prune_loop (drop_key k cache) rest maxSize)
             (\<lambda>(cache', timed', evicted). Inr (cache', timed', (k, v) # evicted))
     else Inr (cache, timed, []))"

definition tc_prune :: "cache_status \<times> ('k, 'v) tcache
    \<Rightarrow> (('k \<times> 'v) list \<times> cache_status \<times> ('k, 'v) tcache) result" where
  "tc_prune = (\<lambda>(st, c).
    if tc_maxSize c = 0 \<or> length (tc_cache c) < tc_getMaxAllowedSize c then Inr ([], st, c)
    else bind_res (tc_prune_loop (tc_cache c) (tc_timed c) (tc_maxSize c))
           (\<lambda>(cache, timed, evicted).
             Inr (evicted, incPrune (int (length evicted)) st,
                  c\<lparr> tc_cache := cache, tc_timed := timed \<rparr>)))"

definition tc_set :: "nat \<Rightarrow> 'k::linorder \<Rightarrow> 'v \<Rightarrow> nat \<Rightarrow> cache_status \<times> ('k, 'v) tcache
    \<Rightarrow> (('k \<times> 'v) list \<times> cache_status \<times> ('k, 'v) tcache) result" where
  "tc_set now k v expired = (\<lambda>(st, c).
    let (n, timed) = item_insert (tc_next c, k, v, expiry expired now) (tc_timed c) in
    tc_prune (incSet 1 st,
      c\<lparr> tc_timed := timed, tc_cache := (k, n) # drop_key k (tc_cache c), tc_next := Suc (tc_next c) \<rparr>))"

definition tc_get :: "'k \<Rightarrow> cache_status \<times> ('k, 'v) tcache
    \<Rightarrow> ('v option \<times> cache_status \<times> ('k, 'v) tcache) result" where
  "tc_get k = (\<lambda>(st0, c).
    let st = incGet 1 st0 in
    case map_of (tc_cache c) k of
      None \<Rightarrow> Inr (None, st, c)
    | Some n \<Rightarrow>
        (case map_of (tc_timed c) n of
           None \<Rightarrow> Inl NullDeref
         | Some (_, v, _) \<Rightarrow> Inr (Some v, incHit 1 st, c)))"

text \<open>
  On the path that finds the key, \<open>del\<close> reaches the end of the function without a \<open>return\<close>:
  None is the value that was never returned.
\<close>

definition tc_del :: "'k \<Rightarrow> cache_status \<times> ('k, 'v) tcache
    \<Rightarrow> (bool option \<times> cache_status \<times> ('k, 'v) tcache) result" where
  "tc_del k = (\<lambda>(st0, c).
    let st = incDel 1 st0 in
    case map_of (tc_cache c) k of
      None \<Rightarrow> Inr (Some False, st, c)
    | Some n \<Rightarrow>
        if map_of (tc_timed c) n = None then Inl NullDeref
        else Inr (None, incHit 1 st, c\<lparr> tc_timed := drop_key n (tc_timed c),
                                       tc_cache := drop_key k (tc_cache c) \<rparr>))"

definition tc_expired :: "nat \<Rightarrow> 'k::linorder \<Rightarrow> nat \<Rightarrow> ('k, 'v) tcache \<Rightarrow> (bool \<times> ('k, 'v) tcache) result" where
  "tc_expired now k ts c =
    (case map_of (tc_cache c) k of
       None \<Rightarrow> Inr (False, c)
     | Some n \<Rightarrow>
         (case map_of (tc_timed c) n of
            None \<Rightarrow> Inl NullDeref
          | Some (k', v, t) \<Rightarrow>
              if t = expiry ts now then Inr (True, c)
              else let (m, timed) = item_insert (tc_next c, k', v, t) (drop_key n (tc_timed c)) in
                Inr (True, c\<lparr> tc_timed := timed, tc_cache := (k, m) # drop_key k (tc_cache c),
                              tc_next := Suc (tc_next c) \<rparr>)))"

definition tc_exists :: "'k \<Rightarrow> ('k, 'v) tcache \<Rightarrow> bool" where
  "tc_exists k c \<longleftrightarrow> map_of (tc_cache c) k \<noteq> None"

definition tc_size :: "('k, 'v) tcache \<Rightarrow> nat" where
  "tc_size c = length (tc_cache c)"

definition tc_clear :: "('k, 'v) tcache \<Rightarrow> ('k, 'v) tcache" where
  "tc_clear c = c\<lparr> tc_timed := [], tc_cache := [] \<rparr>"

definition tc_empty :: "('k, 'v) tcache \<Rightarrow> bool" where
  "tc_empty c \<longleftrightarrow> tc_cache c = []"

definition tc_setMaxSize :: "nat \<Rightarrow> ('k, 'v) tcache \<Rightarrow> ('k, 'v) tcache" where
  "tc_setMaxSize v c = c\<lparr> tc_maxSize := v \<rparr>"

definition tc_setElasticity :: "nat \<Rightarrow> ('k, 'v) tcache \<Rightarrow> ('k, 'v) tcache" where
  "tc_setElasticity v c = c\<lparr> tc_elasticity := v \<rparr>"

fun tc_checkTimeout_loop :: "nat \<Rightarrow> ('k \<times> nat) list \<Rightarrow> ('k, 'v) item list
    \<Rightarrow> ('k \<times> nat) list \<times> ('k, 'v) item list \<times> ('k \<times> 'v) list" where
  "tc_checkTimeout_loop ts cache [] = (cache, [], [])"
| "tc_checkTimeout_loop ts cache ((n, k, v, t) # timed) =
    (if t \<le> ts then
       (let (cache', timed', evicted) = tc_checkTimeout_loop ts (drop_key k cache) timed
        in (cache', timed', (k, v) # evicted))
     else (cache, (n, k, v, t) # timed, []))"

definition tc_checkTimeout :: "nat \<Rightarrow> ('k, 'v) tcache \<Rightarrow> nat \<times> ('k \<times> 'v) list \<times> ('k, 'v) tcache" where
  "tc_checkTimeout ts c =
    (let (cache, timed, evicted) = tc_checkTimeout_loop ts (tc_cache c) (tc_timed c)
     in (length evicted, evicted, c\<lparr> tc_cache := cache, tc_timed := timed \<rparr>))"

section \<open>Invariant\<close>

text \<open>
  Every cached iterator points to a live node of its own key, the set is strictly ordered,
  and node identities are fresh. Nodes without a cached iterator may exist: \<open>set\<close> on a present
  key leaves the old node behind.
\<close>

definition tc_ok :: "('k::linorder \<times> nat) list \<Rightarrow> ('k, 'v) item list \<Rightarrow> nat \<Rightarrow> bool" where
  "tc_ok cache timed next \<longleftrightarrow>
     (\<forall>(k, n) \<in> set cache. \<exists>v t. (n, k, v, t) \<in> set timed) \<and>
     distinct (map fst cache) \<and> distinct (map fst timed) \<and>
     sorted_wrt (\<lambda>p q. item_key p < item_key q) timed \<and> (\<forall>p \<in> set timed. fst p < next)"

definition tc_wf :: "('k::linorder, 'v) tcache \<Rightarrow> bool" where
  "tc_wf c \<longleftrightarrow> tc_ok (tc_cache c) (tc_timed c) (tc_next c)"

text \<open>Some node of the key, cached or not, has an expiry time that has come.\<close>

definition dead_key :: "nat \<Rightarrow> ('k, 'v) item list \<Rightarrow> 'k \<Rightarrow> bool" where
  "dead_key ts timed k \<longleftrightarrow> list_ex (\<lambda>(n, k', v, t). t \<le> ts \<and> k' = k) timed"

declare tc_prune_loop.simps [simp del]

abbreviation points_to :: "('k \<times> nat) list \<Rightarrow> ('k, 'v) item list \<Rightarrow> bool" where
  "points_to cache timed \<equiv> \<forall>(k, n) \<in> set cache. \<exists>v t. (n, k, v, t) \<in> set timed"

abbreviation item_sorted :: "('k::linorder, 'v) item list \<Rightarrow> bool" where
  "item_sorted \<equiv> sorted_wrt (\<lambda>p q. item_key p < item_key q)"

lemma item_insert_set:
  "set (snd (item_insert p qs)) =
     (if \<exists>q \<in> set qs. item_key q = item_key p then set qs else insert p (set qs))"
  if "item_sorted qs"
  using that
  by (induction p qs rule: item_insert.induct) (auto simp: Let_def case_prod_beta)

lemma item_insert_node:
  "\<exists>q \<in> set (snd (item_insert p qs)). item_key q = item_key p \<and> fst q = fst (item_insert p qs) \<and>
     (q = p \<or> q \<in> set qs)"
  by (induction p qs rule: item_insert.induct) (auto simp: Let_def case_prod_beta)

lemma item_insert_sorted: "item_sorted qs \<Longrightarrow> item_sorted (snd (item_insert p qs))"
proof (induction p qs rule: item_insert.induct)
  case (2 p q qs)
  have "item_key q < item_key r" if "r \<in> set (snd (item_insert p qs))" "item_key q < item_key p" for r
    using that 2(2) item_insert_set [of qs p] by (auto split: if_splits)
  then show ?case using 2 by (auto simp: Let_def case_prod_beta)
qed simp

lemma item_insert_distinct:
  "distinct (map fst qs) \<Longrightarrow> fst p \<notin> fst ` set qs \<Longrightarrow> item_sorted qs \<Longrightarrow>
   distinct (map fst (snd (item_insert p qs)))"
proof (induction p qs rule: item_insert.induct)
  case (2 p q qs)
  then have "fst q \<notin> fst ` set (snd (item_insert p qs))"
    using item_insert_set [of qs p] by (auto split: if_splits)
  then show ?case using 2 by (auto simp: Let_def case_prod_beta)
qed simp

lemma drop_key_points_to:
  assumes "points_to cache ((n, k, v, t) # timed)"
  shows "points_to (drop_key k cache) timed"
  using assms by fastforce

lemma tc_prune_loop_correct:
  assumes "points_to cache timed" "distinct (map fst cache)"
  shows "\<exists>cache' i ev. tc_prune_loop cache timed m = Inr (cache', drop i timed, ev) \<and>
           points_to cache' (drop i timed) \<and> distinct (map fst cache') \<and> length cache' \<le> m"
    (is "\<exists>cache' i ev. ?P cache timed cache' i ev")
  using assms
proof (induction timed arbitrary: cache)
  case Nil
  then have "cache = []" by (cases cache) auto
  then show ?case by (subst tc_prune_loop.simps) simp
next
  case (Cons p timed)
  show ?case
  proof (cases "m < length cache")
    case True
    obtain n k v t where p: "p = (n, k, v, t)" by (cases p)
    have "points_to (drop_key k cache) timed" by (rule drop_key_points_to [OF Cons.prems(1) [unfolded p]])
    then obtain cache' i ev where r: "?P (drop_key k cache) timed cache' i ev"
      using Cons.IH [OF _ distinct_drop_key [OF Cons.prems(2)]] by blast
    then have "?P cache (p # timed) cache' (Suc i) ((k, v) # ev)"
      using True p by (subst tc_prune_loop.simps) simp
    then show ?thesis by blast
  next
    case False
    then have "?P cache (p # timed) cache 0 []"
      using Cons.prems by (subst tc_prune_loop.simps) simp
    then show ?thesis by blast
  qed
qed

lemma tc_ok_drop:
  "tc_ok cache timed next \<Longrightarrow> points_to cache' (drop i timed) \<Longrightarrow> distinct (map fst cache') \<Longrightarrow>
   tc_ok cache' (drop i timed) next"
  unfolding tc_ok_def
  by (intro conjI) (auto simp: sorted_wrt_drop drop_map [symmetric] dest: in_set_dropD)

lemma tc_prune_correct:
  assumes wf: "tc_wf c"
  shows "\<exists>ev st' c'. tc_prune (st, c) = Inr (ev, st', c') \<and> tc_wf c' \<and>
           tc_maxSize c' = tc_maxSize c \<and> tc_elasticity c' = tc_elasticity c \<and>
           (tc_maxSize c = 0 \<longrightarrow> c' = c) \<and>
           (0 < tc_maxSize c \<longrightarrow> tc_size c' \<le> max (tc_maxSize c) (tc_getMaxAllowedSize c - 1))"
proof (cases "tc_maxSize c = 0 \<or> length (tc_cache c) < tc_getMaxAllowedSize c")
  case True
  then show ?thesis using wf by (auto simp: tc_prune_def tc_size_def)
next
  case False
  have ok: "tc_ok (tc_cache c) (tc_timed c) (tc_next c)" using wf by (simp add: tc_wf_def)
  then obtain cache' i ev where r: "tc_prune_loop (tc_cache c) (tc_timed c) (tc_maxSize c)
        = Inr (cache', drop i (tc_timed c), ev)" "points_to cache' (drop i (tc_timed c))"
      "distinct (map fst cache')" "length cache' \<le> tc_maxSize c"
    using tc_prune_loop_correct [of "tc_cache c" "tc_timed c" "tc_maxSize c"]
    unfolding tc_ok_def by blast
  let ?c = "c\<lparr> tc_cache := cache', tc_timed := drop i (tc_timed c) \<rparr>"
  have "tc_wf ?c" using tc_ok_drop [OF ok r(2,3)] by (simp add: tc_wf_def)
  moreover have "tc_prune (st, c) = Inr (ev, incPrune (int (length ev)) st, ?c)"
    using r(1) False by (simp add: tc_prune_def)
  ultimately show ?thesis using False r(4) by (simp add: tc_size_def)
qed

lemma tc_set_inserted:
  assumes wf: "tc_wf c" and ins: "item_insert (tc_next c, k, v, t) (tc_timed c) = (n, timed)"
  shows "tc_wf (c\<lparr> tc_timed := timed, tc_cache := (k, n) # drop_key k (tc_cache c),
                   tc_next := Suc (tc_next c) \<rparr>)"
proof -
  let ?p = "(tc_next c, k, v, t)"
  have srt: "item_sorted (tc_timed c)" and fresh: "\<forall>p \<in> set (tc_timed c). fst p < tc_next c"
    and d: "distinct (map fst (tc_timed c))" and dc: "distinct (map fst (tc_cache c))"
    and pt: "points_to (tc_cache c) (tc_timed c)"
    using wf by (simp_all add: tc_wf_def tc_ok_def)
  have new: "fst ?p \<notin> fst ` set (tc_timed c)" using fresh by (simp add: image_iff) (metis less_irrefl)
  have timed: "timed = snd (item_insert ?p (tc_timed c))" "n = fst (item_insert ?p (tc_timed c))"
    using ins by simp_all
  have sub: "set (tc_timed c) \<subseteq> set timed" "set timed \<subseteq> insert ?p (set (tc_timed c))"
    unfolding timed item_insert_set [OF srt] by auto
  obtain q where "q \<in> set timed" "item_key q = item_key ?p" "fst q = n"
    using item_insert_node [of ?p "tc_timed c"] timed by auto
  then have node: "\<exists>w s. (n, k, w, s) \<in> set timed"
    by (metis fst_conv item_key_def prod.collapse snd_conv)
  have "points_to ((k, n) # drop_key k (tc_cache c)) timed" using node pt sub(1) by fastforce
  moreover have "distinct (map fst timed)" unfolding timed using item_insert_distinct [OF d new srt] .
  moreover have "item_sorted timed" unfolding timed using item_insert_sorted [OF srt] .
  moreover have "\<forall>p \<in> set timed. fst p < Suc (tc_next c)" using sub(2) fresh by fastforce
  moreover have "distinct (map fst ((k, n) # drop_key k (tc_cache c)))" using dc by simp
  ultimately show ?thesis unfolding tc_wf_def tc_ok_def by simp
qed

lemma tc_set_correct:
  assumes wf: "tc_wf c"
  shows "\<exists>ev st' c'. tc_set now k v expired (st, c) = Inr (ev, st', c') \<and> tc_wf c' \<and>
           tc_maxSize c' = tc_maxSize c \<and> tc_elasticity c' = tc_elasticity c \<and>
           (0 < tc_maxSize c \<longrightarrow> tc_size c' \<le> max (tc_maxSize c) (tc_getMaxAllowedSize c - 1))"
proof -
  obtain n timed where ins: "item_insert (tc_next c, k, v, expiry expired now) (tc_timed c) = (n, timed)"
    by (cases "item_insert (tc_next c, k, v, expiry expired now) (tc_timed c)")
  show ?thesis
    using tc_prune_correct [OF tc_set_inserted [OF wf ins], of "incSet 1 st"]
    by (auto simp: tc_set_def ins tc_getMaxAllowedSize_def)
qed

abbreviation live_items :: "nat \<Rightarrow> ('k, 'v) item list \<Rightarrow> ('k, 'v) item list" where
  "live_items ts \<equiv> filter (\<lambda>(n, k, v, t). ts < t)"

lemma dead_key_Cons: "dead_key ts ((n, k, v, t) # timed) k' \<longleftrightarrow> t \<le> ts \<and> k = k' \<or> dead_key ts timed k'"
  by (simp add: dead_key_def)

lemma tc_checkTimeout_loop_correct:
  assumes "item_sorted timed"
  shows "tc_checkTimeout_loop ts cache timed =
    (filter (\<lambda>p. \<not> dead_key ts timed (fst p)) cache, live_items ts timed,
     map (\<lambda>(n, k, v, t). (k, v)) (filter (\<lambda>(n, k, v, t). t \<le> ts) timed))"
  using assms
proof (induction ts cache timed rule: tc_checkTimeout_loop.induct)
  case (1 ts cache)
  then show ?case by (simp add: dead_key_def)
next
  case (2 ts cache n k v t timed)
  show ?case
  proof (cases "t \<le> ts")
    case True
    have "filter (\<lambda>p. \<not> dead_key ts timed (fst p)) (drop_key k cache)
        = filter (\<lambda>p. \<not> dead_key ts ((n, k, v, t) # timed) (fst p)) cache"
      using True unfolding drop_key_def filter_filter dead_key_Cons by (intro filter_cong) auto
    then show ?thesis using 2 True by simp
  next
    case False
    have later: "ts < t'" if "(n', k', v', t') \<in> set timed" for n' k' v' t'
      using 2(2) that False by (auto simp: item_key_def)
    have "live_items ts timed = timed" by (intro filter_True) (auto dest: later)
    moreover have "filter (\<lambda>(n, k, v, t). t \<le> ts) timed = []"
      by (auto simp: filter_empty_conv not_le dest: later)
    moreover have "\<not> dead_key ts timed k'" for k'
      by (auto simp: dead_key_def list_ex_iff not_le dest: later)
    ultimately show ?thesis using False by (simp add: dead_key_Cons)
  qed
qed

lemma tc_checkTimeout_eq:
  assumes "tc_wf c"
  shows "snd (snd (tc_checkTimeout ts c)) =
    c\<lparr> tc_cache := filter (\<lambda>p. \<not> dead_key ts (tc_timed c) (fst p)) (tc_cache c),
       tc_timed := live_items ts (tc_timed c) \<rparr>"
  using assms by (simp add: tc_wf_def tc_ok_def tc_checkTimeout_def tc_checkTimeout_loop_correct)

lemma tc_wf_checkTimeout:
  assumes wf: "tc_wf c"
  shows "tc_wf (snd (snd (tc_checkTimeout ts c)))"
proof -
  let ?keep = "filter (\<lambda>p. \<not> dead_key ts (tc_timed c) (fst p)) (tc_cache c)"
  have pt: "points_to (tc_cache c) (tc_timed c)" using wf by (simp add: tc_wf_def tc_ok_def)
  have "\<exists>v t. (n, k, v, t) \<in> set (live_items ts (tc_timed c))" if kn: "(k, n) \<in> set ?keep" for k n
  proof -
    obtain v t where m: "(n, k, v, t) \<in> set (tc_timed c)" using kn pt by auto
    then have "\<not> t \<le> ts" using kn by (auto simp: dead_key_def list_ex_iff)
    then have "(n, k, v, t) \<in> set (live_items ts (tc_timed c))" using m by simp
    then show ?thesis by blast
  qed
  then have "tc_ok ?keep (live_items ts (tc_timed c)) (tc_next c)"
    using wf unfolding tc_wf_def tc_ok_def
    by (auto simp: distinct_map_filter sorted_wrt_filter)
  then show ?thesis unfolding tc_checkTimeout_eq [OF wf] tc_wf_def by simp
qed

lemma tc_wf_new: "tc_wf (new_TimedCache m e)"
  by (simp add: tc_wf_def tc_ok_def new_TimedCache_def)

lemma tc_node:
  assumes wf: "tc_wf c" and k: "map_of (tc_cache c) k = Some n"
  obtains v t where "map_of (tc_timed c) n = Some (k, v, t)"
proof -
  obtain v t where "(n, k, v, t) \<in> set (tc_timed c)"
    using wf map_of_SomeD [OF k] by (auto simp: tc_wf_def tc_ok_def)
  moreover have "distinct (map fst (tc_timed c))" using wf by (simp add: tc_wf_def tc_ok_def)
  ultimately show ?thesis using that map_of_in by metis
qed

lemma tc_wf_remove:
  assumes wf: "tc_wf c" and n: "map_of (tc_timed c) n = Some (k, v, t)"
  shows "tc_wf (c\<lparr> tc_timed := drop_key n (tc_timed c), tc_cache := drop_key k (tc_cache c) \<rparr>)"
proof -
  have d: "distinct (map fst (tc_timed c))" and pt: "points_to (tc_cache c) (tc_timed c)"
    using wf by (simp_all add: tc_wf_def tc_ok_def)
  have "\<exists>v t. (m, j, v, t) \<in> set (drop_key n (tc_timed c))" if jm: "(j, m) \<in> set (drop_key k (tc_cache c))" for j m
  proof -
    obtain w s where m: "(m, j, w, s) \<in> set (tc_timed c)" "j \<noteq> k" using jm pt by auto
    then have "m \<noteq> n" using map_of_in [OF d m(1)] n by auto
    then show ?thesis using m by auto
  qed
  moreover have "sorted_wrt (\<lambda>p q. item_key p < item_key q) (drop_key n (tc_timed c))"
    using wf by (simp add: tc_wf_def tc_ok_def drop_key_def sorted_wrt_filter)
  ultimately have "tc_ok (drop_key k (tc_cache c)) (drop_key n (tc_timed c)) (tc_next c)"
    using wf unfolding tc_wf_def tc_ok_def by (auto simp del: set_drop_key) auto
  then show ?thesis by (simp add: tc_wf_def)
qed

lemma tc_expired_correct:
  assumes wf: "tc_wf c"
  shows "\<exists>c'. tc_expired now k ts c = Inr (tc_exists k c, c') \<and> tc_wf c' \<and>
           tc_maxSize c' = tc_maxSize c \<and> tc_elasticity c' = tc_elasticity c \<and>
           tc_size c' = tc_size c"
proof (cases "map_of (tc_cache c) k")
  case None
  then show ?thesis using wf by (simp add: tc_expired_def tc_exists_def)
next
  case (Some n)
  obtain v t where n: "map_of (tc_timed c) n = Some (k, v, t)" using tc_node [OF wf Some] by blast
  obtain m timed where ins: "item_insert (tc_next c, k, v, t) (drop_key n (tc_timed c)) = (m, timed)"
    by (cases "item_insert (tc_next c, k, v, t) (drop_key n (tc_timed c))")
  let ?c = "c\<lparr> tc_timed := drop_key n (tc_timed c), tc_cache := drop_key k (tc_cache c) \<rparr>"
  let ?c' = "c\<lparr> tc_timed := timed, tc_cache := (k, m) # drop_key k (tc_cache c),
                tc_next := Suc (tc_next c) \<rparr>"
  have "tc_wf ?c'" using tc_set_inserted [OF tc_wf_remove [OF wf n], of k v t m timed] ins by simp
  moreover have "length (drop_key k (tc_cache c)) = length (tc_cache c) - 1" "0 < length (tc_cache c)"
    using length_drop_key [of "tc_cache c" k] wf map_of_SomeD [OF Some]
    by (auto simp: tc_wf_def tc_ok_def rev_image_eqI)
  ultimately show ?thesis
    using Some n ins wf by (auto simp: tc_expired_def tc_exists_def tc_size_def)
qed

section \<open>Sequences of calls\<close>

datatype ('k, 'v) tc_op =
  CSet nat 'k 'v nat | CGet 'k | CDel 'k | CExpired nat 'k nat | CCheckTimeout nat | CClear

fun tc_step :: "('k::linorder, 'v) tc_op \<Rightarrow> cache_status \<times> ('k, 'v) tcache
    \<Rightarrow> (cache_status \<times> ('k, 'v) tcache) result" where
  "tc_step (CSet now k v expired) s = bind_res (tc_set now k v expired s) (\<lambda>(ev, s'). Inr s')"
| "tc_step (CGet k) s = bind_res (tc_get k s) (\<lambda>(r, s'). Inr s')"
| "tc_step (CDel k) s = bind_res (tc_del k s) (\<lambda>(r, s'). Inr s')"
| "tc_step (CExpired now k ts) (st, c) = bind_res (tc_expired now k ts c) (\<lambda>(r, c'). Inr (st, c'))"
| "tc_step (CCheckTimeout ts) (st, c) = Inr (st, snd (snd (tc_checkTimeout ts c)))"
| "tc_step CClear (st, c) = Inr (st, tc_clear c)"

fun tc_run :: "('k::linorder, 'v) tc_op list \<Rightarrow> cache_status \<times> ('k, 'v) tcache
    \<Rightarrow> (cache_status \<times> ('k, 'v) tcache) result" where
  "tc_run [] s = Inr s"
| "tc_run (x # xs) s = bind_res (tc_step x s) (tc_run xs)"

definition tc_bounded :: "nat \<Rightarrow> nat \<Rightarrow> ('k, 'v) tcache \<Rightarrow> bool" where
  "tc_bounded m e c \<longleftrightarrow> tc_maxSize c = m \<and> tc_elasticity c = e \<and>
     (0 < m \<longrightarrow> tc_size c \<le> max m (m + e - 1))"

lemma tc_step_keeps:
  assumes wf: "tc_wf c" and b: "tc_bounded m e c"
  shows "\<exists>st' c'. tc_step x (st, c) = Inr (st', c') \<and> tc_wf c' \<and> tc_bounded m e c'"
proof (cases x)
  case (CSet now k v expired)
  then show ?thesis
    using tc_set_correct [OF wf, of now k v expired st] b
    by (auto simp: tc_bounded_def tc_getMaxAllowedSize_def)
next
  case (CGet k)
  then show ?thesis
    using wf b by (cases "map_of (tc_cache c) k") (auto simp: tc_get_def elim: tc_node [OF wf])
next
  case (CDel k)
  show ?thesis
  proof (cases "map_of (tc_cache c) k")
    case (Some n)
    obtain v t where n: "map_of (tc_timed c) n = Some (k, v, t)" using tc_node [OF wf Some] by blast
    have "length (drop_key k (tc_cache c)) \<le> length (tc_cache c)" by (rule length_drop_key_le)
    then show ?thesis
      using CDel Some n tc_wf_remove [OF wf n] b by (auto simp: tc_del_def tc_bounded_def tc_size_def)
  qed (use CDel wf b in \<open>simp add: tc_del_def\<close>)
next
  case (CExpired now k ts)
  then show ?thesis using tc_expired_correct [OF wf, of now k ts] b by (auto simp: tc_bounded_def)
next
  case (CCheckTimeout ts)
  then show ?thesis
    using tc_wf_checkTimeout [OF wf, of ts] b
    by (auto simp: tc_bounded_def tc_checkTimeout_eq [OF wf] tc_size_def
        intro: order_trans [OF length_filter_le])
next
  case CClear
  then show ?thesis using b by (auto simp: tc_clear_def tc_wf_def tc_ok_def tc_bounded_def tc_size_def)
qed

lemma tc_run_keeps:
  "tc_wf c \<Longrightarrow> tc_bounded m e c \<Longrightarrow>
   \<exists>st' c'. tc_run xs (st, c) = Inr (st', c') \<and> tc_wf c' \<and> tc_bounded m e c'"
proof (induction xs arbitrary: st c)
  case (Cons x xs)
  then show ?case using tc_step_keeps [OF Cons.prems, of x st] by fastforce
qed simp

text \<open>C18: no sequence of calls on a fresh \<open>TimedCache\<close> uses an iterator whose node is gone, and
  the number of cached keys stays within the maximum, or below the allowed size.\<close>

theorem timed_cache_safe:
  "\<exists>st' c'. tc_run xs (new_CacheStatus, new_TimedCache m e) = Inr (st', c') \<and> tc_wf c' \<and>
     (0 < m \<longrightarrow> tc_size c' \<le> max m (m + e - 1))"
proof -
  have "tc_bounded m e (new_TimedCache m e)" by (simp add: tc_bounded_def new_TimedCache_def tc_size_def)
  then show ?thesis
    using tc_run_keeps [OF tc_wf_new, of m e m e xs new_CacheStatus] by (auto simp: tc_bounded_def)
qed

theorem timed_cache_safe_witness:
  "\<exists>st' c'. tc_run [CSet 5 (1::nat) (2::int) 3, CSet 6 1 3 3] (new_CacheStatus, new_TimedCache 2 0)
     = Inr (st', c') \<and> tc_size c' \<le> 2"
  using timed_cache_safe [of "[CSet 5 (1::nat) (2::int) 3, CSet 6 1 3 3]" 2 0]
  by (auto simp: numeral_2_eq_2 simp del: tc_run.simps)

section \<open>Storing a key again\<close>

lemma item_insert_lookup:
  assumes srt: "item_sorted qs" and d: "distinct (map fst qs)" and new: "n \<notin> fst ` set qs"
  shows "map_of (snd (item_insert (n, k, v, t) qs)) (fst (item_insert (n, k, v, t) qs)) =
    Some (k, (case find (\<lambda>p. item_key p = (t, k)) qs of None \<Rightarrow> v | Some (_, _, w, _) \<Rightarrow> w), t)"
  using assms
proof (induction "(n, k, v, t)" qs rule: item_insert.induct)
  case (2 q qs)
  obtain m j w s where q: "q = (m, j, w, s)" by (cases q)
  consider "(t, k) < (s, j)" | "(t, k) = (s, j)" | "(s, j) < (t, k)" using linorder_less_linear by blast
  then show ?case
  proof cases
    case 1
    have "find (\<lambda>p. item_key p = (t, k)) (q # qs) = None"
    proof -
      have "item_key r \<noteq> (t, k)" if "r \<in> set (q # qs)" for r
      proof -
        have "(t, k) < item_key r" using that 1 2(2) q by (auto simp: item_key_def)
        then show ?thesis by auto
      qed
      then show ?thesis by (auto simp: find_None_iff)
    qed
    then show ?thesis using 1 q by (simp add: item_key_def)
  next
    case 2
    then show ?thesis using q by (simp add: item_key_def)
  next
    case 3
    let ?r = "item_insert (n, k, v, t) qs"
    have nlt: "\<not> item_key (n, k, v, t) < item_key q" "item_key (n, k, v, t) \<noteq> item_key q"
      using 3 q by (auto simp: item_key_def)
    have ih: "map_of (snd ?r) (fst ?r) =
        Some (k, (case find (\<lambda>p. item_key p = (t, k)) qs of None \<Rightarrow> v | Some (_, _, w, _) \<Rightarrow> w), t)"
      using 2(1) [OF nlt] "2.prems" by simp
    have "fst ?r \<noteq> m"
    proof -
      obtain p where "p = (n, k, v, t) \<or> p \<in> set qs" "fst p = fst ?r"
        using item_insert_node [of "(n, k, v, t)" qs] by blast
      then show ?thesis using "2.prems"(2,3) q by (auto simp: image_iff)
    qed
    moreover have "item_insert (n, k, v, t) (q # qs) = (fst ?r, q # snd ?r)"
      using 3 q by (auto simp: item_key_def case_prod_beta)
    moreover have "find (\<lambda>p. item_key p = (t, k)) (q # qs) = find (\<lambda>p. item_key p = (t, k)) qs"
      using 3 q by (auto simp: item_key_def)
    ultimately show ?thesis using ih q by simp
  qed
qed simp

text \<open>in a cache without a size limit a lookup right after a store finds the key, and with the
  value just stored, except when the ordered set still holds a node of the same key and the same
  expiry time, as a second store within the same millisecond leaves it: then \<open>std::set::insert\<close>
  keeps the old node and the new value is lost.\<close>

theorem timed_cache_get_after_set:
  assumes wf: "tc_wf c" and m: "tc_maxSize c = 0"
  shows "\<exists>ev st1 c1 st2. tc_set now k v expired (st, c) = Inr (ev, st1, c1) \<and>
           tc_get k (st1, c1) =
             Inr (Some (case find (\<lambda>p. item_key p = (expiry expired now, k)) (tc_timed c) of
                          None \<Rightarrow> v | Some (_, _, w, _) \<Rightarrow> w), st2, c1)"
proof -
  let ?t = "expiry expired now"
  let ?r = "item_insert (tc_next c, k, v, ?t) (tc_timed c)"
  have "tc_next c \<notin> fst ` set (tc_timed c)"
    using wf by (auto simp: tc_wf_def tc_ok_def image_iff)
  then have lk: "map_of (snd ?r) (fst ?r) = Some (k,
      (case find (\<lambda>p. item_key p = (?t, k)) (tc_timed c) of None \<Rightarrow> v | Some (_, _, w, _) \<Rightarrow> w), ?t)"
    using wf by (intro item_insert_lookup) (simp_all add: tc_wf_def tc_ok_def)
  let ?c = "c\<lparr> tc_timed := snd ?r, tc_cache := (k, fst ?r) # drop_key k (tc_cache c),
               tc_next := Suc (tc_next c) \<rparr>"
  have "tc_set now k v expired (st, c) = Inr ([], incSet 1 st, ?c)"
    using m by (simp add: tc_set_def tc_prune_def case_prod_beta)
  then show ?thesis using lk by (simp add: tc_get_def)
qed

definition tc_example :: "(nat, int) tcache" where
  "tc_example = \<lparr> tc_cache = [(1, 0)], tc_timed = [(0, 1, 10, 100)], tc_next = 1,
                  tc_maxSize = 0, tc_elasticity = 0 \<rparr>"

lemma tc_wf_example: "tc_wf tc_example"
  by (simp add: tc_wf_def tc_ok_def tc_example_def)

theorem timed_cache_get_after_set_witness:
  "(\<exists>ev st1 c1 st2. tc_set 50 1 20 60 (new_CacheStatus, tc_example) = Inr (ev, st1, c1) \<and>
      tc_get 1 (st1, c1) = Inr (Some 20, st2, c1)) \<and>
   (\<exists>ev st1 c1 st2. tc_set 50 1 20 50 (new_CacheStatus, tc_example) = Inr (ev, st1, c1) \<and>
      tc_get 1 (st1, c1) = Inr (Some 10, st2, c1))"
  using timed_cache_get_after_set [OF tc_wf_example, of 50 1 20 60 new_CacheStatus]
    timed_cache_get_after_set [OF tc_wf_example, of 50 1 20 50 new_CacheStatus]
  by (simp add: tc_example_def item_key_def expiry_def)

text \<open>storing a present key again does not renew it: the node of the earlier store stays in
  the ordered set, and when its time comes a timeout check removes the key although the new
  expiry time has not come.\<close>

theorem timed_cache_renewal_lost:
  assumes wf: "tc_wf c" and m: "tc_maxSize c = 0"
    and old: "map_of (tc_cache c) k = Some n" "map_of (tc_timed c) n = Some (k, w, t0)" "t0 \<le> ts"
  shows "\<exists>ev st1 c1. tc_set now k v expired (st, c) = Inr (ev, st1, c1) \<and> tc_exists k c1 \<and>
           \<not> tc_exists k (snd (snd (tc_checkTimeout ts c1)))"
proof -
  let ?r = "item_insert (tc_next c, k, v, expiry expired now) (tc_timed c)"
  let ?c = "c\<lparr> tc_timed := snd ?r, tc_cache := (k, fst ?r) # drop_key k (tc_cache c),
               tc_next := Suc (tc_next c) \<rparr>"
  have set: "tc_set now k v expired (st, c) = Inr ([], incSet 1 st, ?c)"
    using m by (simp add: tc_set_def tc_prune_def case_prod_beta)
  have wf': "tc_wf ?c" using tc_set_inserted [OF wf, of k v "expiry expired now"] by simp
  have "item_sorted (tc_timed c)" using wf by (simp add: tc_wf_def tc_ok_def)
  then have "set (tc_timed c) \<subseteq> set (snd ?r)" by (auto simp: item_insert_set)
  then have "(n, k, w, t0) \<in> set (tc_timed ?c)" using map_of_SomeD [OF old(2)] by auto
  then have "dead_key ts (tc_timed ?c) k" using old(3) by (auto simp: dead_key_def list_ex_iff)
  then have "\<not> tc_exists k (snd (snd (tc_checkTimeout ts ?c)))"
    unfolding tc_checkTimeout_eq [OF wf'] by (auto simp: tc_exists_def map_of_eq_None_iff)
  then show ?thesis using set by (simp add: tc_exists_def)
qed

theorem timed_cache_renewal_lost_witness:
  "\<exists>ev st1 c1. tc_set 50 1 20 1000 (new_CacheStatus, tc_example) = Inr (ev, st1, c1) \<and>
     tc_exists 1 c1 \<and> \<not> tc_exists 1 (snd (snd (tc_checkTimeout 100 c1)))"
  by (rule timed_cache_renewal_lost [OF tc_wf_example, of 1 0 10 100])
    (simp_all add: tc_example_def)

end
