(* ===== verification/ShardedCache.thy ===== *)
theory ShardedCache
  imports TimedLruCache TimedCache
begin

text \<open>
  The classes \<open>HashLruCache\<close>, \<open>HashTimedLruCache\<close> and \<open>HashTimedCache\<close>: a vector of caches, one
  per bucket, that share one set of counters; every call goes to the bucket of its key's hash.
  The hash function is a parameter. The three classes have the same text over three shard
  types, so the operations are written once over a shard and instantiated, and their laws are
  proved once from the contract of a shard.
\<close>

section \<open>State and operations\<close>

record 'c sharded =
  sh_datas :: "'c list"
  sh_maxSize :: nat
  sh_bucket :: nat
  sh_elasticity :: nat
  sh_status :: cache_status

definition new_sharded :: "(nat \<Rightarrow> nat \<Rightarrow> 'c) \<Rightarrow> nat \<Rightarrow> nat \<Rightarrow> nat \<Rightarrow> 'c sharded" where
  "new_sharded mk bucket max_size elasticity =
    (let pre_max_size = ceil_div max_size bucket;
         pre_elasticity = ceil_div elasticity bucket in
     \<lparr> sh_datas = replicate bucket (mk pre_max_size pre_elasticity),
       sh_maxSize = pre_max_size * bucket, sh_bucket = bucket,
       sh_elasticity = pre_elasticity * bucket, sh_status = new_CacheStatus \<rparr>)"

text \<open>\<open>_datas[_hash(k) % _bucket]\<close> and a call on it.\<close>

definition on_bucket :: "('k \<Rightarrow> nat) \<Rightarrow> 'k \<Rightarrow> (cache_status \<times> 'c \<Rightarrow> ('r \<times> cache_status \<times> 'c) result)
    \<Rightarrow> 'c sharded \<Rightarrow> ('r \<times> 'c sharded) result" where
  "on_bucket hash k call s =
    (if sh_bucket s = 0 then Inl DivByZero
     else let i = hash k mod sh_bucket s in
       if length (sh_datas s) \<le> i then Inl OutOfBounds
       else bind_res (call (sh_status s, sh_datas s ! i)) (\<lambda>(r, st, c).
              Inr (r, s\<lparr> sh_datas := (sh_datas s)[i := c], sh_status := st \<rparr>)))"

definition sh_setMaxSize :: "(nat \<Rightarrow> 'c \<Rightarrow> 'c) \<Rightarrow> nat \<Rightarrow> 'c sharded \<Rightarrow> 'c sharded" where
  "sh_setMaxSize setMax v s =
    (let pre_max_size = ceil_div v (sh_bucket s) in
     s\<lparr> sh_maxSize := pre_max_size * sh_bucket s, sh_datas := map (setMax pre_max_size) (sh_datas s) \<rparr>)"

definition sh_setElasticity :: "(nat \<Rightarrow> 'c \<Rightarrow> 'c) \<Rightarrow> nat \<Rightarrow> 'c sharded \<Rightarrow> 'c sharded" where
  "sh_setElasticity setEl v s =
    (let pre_elasticity = ceil_div v (sh_bucket s) in
     s\<lparr> sh_elasticity := pre_elasticity * sh_bucket s, sh_datas := map (setEl pre_elasticity) (sh_datas s) \<rparr>)"

definition sh_size :: "('c \<Rightarrow> nat) \<Rightarrow> 'c sharded \<Rightarrow> nat" where
  "sh_size csize s = sum_list (map csize (sh_datas s))"

definition sh_empty :: "('c \<Rightarrow> bool) \<Rightarrow> 'c sharded \<Rightarrow> bool" where
  "sh_empty cempty s \<longleftrightarrow> list_all cempty (sh_datas s)"

definition sh_clear :: "('c \<Rightarrow> 'c) \<Rightarrow> 'c sharded \<Rightarrow> 'c sharded" where
  "sh_clear cclear s = s\<lparr> sh_datas := map cclear (sh_datas s) \<rparr>"

subsection \<open>\<open>HashLruCache\<close>\<close>

definition new_HashLruCache :: "nat \<Rightarrow> nat \<Rightarrow> nat \<Rightarrow> ('k, 'v) lru sharded" where
  "new_HashLruCache = new_sharded new_LruCache"

definition hlru_set :: "('k \<Rightarrow> nat) \<Rightarrow> 'k \<Rightarrow> 'v \<Rightarrow> ('k, 'v) lru sharded
    \<Rightarrow> (('k \<times> 'v) list \<times> ('k, 'v) lru sharded) result" where
  "hlru_set hash k v = on_bucket hash k (lru_set k v)"

definition hlru_get :: "('k \<Rightarrow> nat) \<Rightarrow> 'k \<Rightarrow> ('k, 'v) lru sharded
    \<Rightarrow> ('v option \<times> ('k, 'v) lru sharded) result" where
  "hlru_get hash k = on_bucket hash k (lru_get k)"

definition hlru_del :: "('k \<Rightarrow> nat) \<Rightarrow> 'k \<Rightarrow> ('k, 'v) lru sharded \<Rightarrow> (bool \<times> ('k, 'v) lru sharded) result" where
  "hlru_del hash k = on_bucket hash k (lru_del k)"

definition hlru_size :: "('k, 'v) lru sharded \<Rightarrow> nat" where
  "hlru_size = sh_size lru_size"

definition hlru_empty :: "('k, 'v) lru sharded \<Rightarrow> bool" where
  "hlru_empty = sh_empty lru_empty"

definition hlru_clear :: "('k, 'v) lru sharded \<Rightarrow> ('k, 'v) lru sharded" where
  "hlru_clear = sh_clear lru_clear"

definition hlru_setMaxSize :: "nat \<Rightarrow> ('k, 'v) lru sharded \<Rightarrow> ('k, 'v) lru sharded" where
  "hlru_setMaxSize = sh_setMaxSize lru_setMaxSize"

definition hlru_setElasticity :: "nat \<Rightarrow> ('k, 'v) lru sharded \<Rightarrow> ('k, 'v) lru sharded" where
  "hlru_setElasticity = sh_setElasticity lru_setElasticity"

definition hlru_exists :: "('k \<Rightarrow> nat) \<Rightarrow> 'k \<Rightarrow> ('k, 'v) lru sharded \<Rightarrow> (bool \<times> ('k, 'v) lru sharded) result" where
  "hlru_exists hash k = on_bucket hash k (\<lambda>(st, c). Inr (lru_exists k c, st, c))"

subsection \<open>\<open>HashTimedLruCache\<close>\<close>

definition new_HashTimedLruCache :: "nat \<Rightarrow> nat \<Rightarrow> nat \<Rightarrow> ('k, 'v) tlru sharded" where
  "new_HashTimedLruCache = new_sharded new_TimedLruCache"

definition htl_set :: "('k \<Rightarrow> nat) \<Rightarrow> nat \<Rightarrow> 'k::linorder \<Rightarrow> 'v \<Rightarrow> nat \<Rightarrow> ('k, 'v) tlru sharded
    \<Rightarrow> (('k \<times> 'v) list \<times> ('k, 'v) tlru sharded) result" where
  "htl_set hash now k v expired = on_bucket hash k (tl_set now k (v, expired))"

definition htl_get :: "('k \<Rightarrow> nat) \<Rightarrow> 'k \<Rightarrow> ('k, 'v) tlru sharded
    \<Rightarrow> ('v option \<times> ('k, 'v) tlru sharded) result" where
  "htl_get hash k = on_bucket hash k (tl_get k)"

definition htl_del :: "('k \<Rightarrow> nat) \<Rightarrow> 'k::linorder \<Rightarrow> ('k, 'v) tlru sharded
    \<Rightarrow> (bool \<times> ('k, 'v) tlru sharded) result" where
  "htl_del hash k = on_bucket hash k (tl_del k)"

definition htl_exists :: "('k \<Rightarrow> nat) \<Rightarrow> 'k \<Rightarrow> ('k, 'v) tlru sharded \<Rightarrow> (bool \<times> ('k, 'v) tlru sharded) result" where
  "htl_exists hash k = on_bucket hash k (\<lambda>(st, c). Inr (tl_exists k c, st, c))"

definition htl_size :: "('k, 'v) tlru sharded \<Rightarrow> nat" where
  "htl_size = sh_size tl_size"

definition htl_empty :: "('k, 'v) tlru sharded \<Rightarrow> bool" where
  "htl_empty = sh_empty tl_empty"

definition htl_clear :: "('k, 'v) tlru sharded \<Rightarrow> ('k, 'v) tlru sharded" where
  "htl_clear = sh_clear tl_clear"

definition htl_setMaxSize :: "nat \<Rightarrow> ('k, 'v) tlru sharded \<Rightarrow> ('k, 'v) tlru sharded" where
  "htl_setMaxSize = sh_setMaxSize tl_setMaxSize"

definition htl_setElasticity :: "nat \<Rightarrow> ('k, 'v) tlru sharded \<Rightarrow> ('k, 'v) tlru sharded" where
  "htl_setElasticity = sh_setElasticity tl_setElasticity"

fun htl_checkTimeout_loop :: "nat \<Rightarrow> ('k, 'v) tlru list \<Rightarrow> (nat \<times> ('k, 'v) tlru list) result" where
  "htl_checkTimeout_loop ts [] = Inr (0, [])"
| "htl_checkTimeout_loop ts (c # cs) =
    bind_res (tl_checkTimeout ts c) (\<lambda>(n, ev, c').
      bind_res (htl_checkTimeout_loop ts cs) (\<lambda>(m, cs'). Inr (n + m, c' # cs')))"

definition htl_checkTimeout :: "nat \<Rightarrow> ('k, 'v) tlru sharded \<Rightarrow> (nat \<times> ('k, 'v) tlru sharded) result" where
  "htl_checkTimeout ts s =
    bind_res (htl_checkTimeout_loop ts (sh_datas s)) (\<lambda>(n, cs). Inr (n, s\<lparr> sh_datas := cs \<rparr>))"

subsection \<open>\<open>HashTimedCache\<close>\<close>

definition new_HashTimedCache :: "nat \<Rightarrow> nat \<Rightarrow> nat \<Rightarrow> ('k, 'v) tcache sharded" where
  "new_HashTimedCache = new_sharded new_TimedCache"

definition htc_set :: "('k \<Rightarrow> nat) \<Rightarrow> nat \<Rightarrow> 'k::linorder \<Rightarrow> 'v \<Rightarrow> nat \<Rightarrow> ('k, 'v) tcache sharded
    \<Rightarrow> (('k \<times> 'v) list \<times> ('k, 'v) tcache sharded) result" where
  "htc_set hash now k v expired = on_bucket hash k (tc_set now k v expired)"

definition htc_get :: "('k \<Rightarrow> nat) \<Rightarrow> 'k \<Rightarrow> ('k, 'v) tcache sharded
    \<Rightarrow> ('v option \<times> ('k, 'v) tcache sharded) result" where
  "htc_get hash k = on_bucket hash k (tc_get k)"

definition htc_del :: "('k \<Rightarrow> nat) \<Rightarrow> 'k \<Rightarrow> ('k, 'v) tcache sharded
    \<Rightarrow> (bool option \<times> ('k, 'v) tcache sharded) result" where
  "htc_del hash k = on_bucket hash k (tc_del k)"

definition htc_expired :: "('k \<Rightarrow> nat) \<Rightarrow> nat \<Rightarrow> 'k::linorder \<Rightarrow> nat \<Rightarrow> ('k, 'v) tcache sharded
    \<Rightarrow> (bool \<times> ('k, 'v) tcache sharded) result" where
  "htc_expired hash now k ts =
    on_bucket hash k (\<lambda>(st, c). bind_res (tc_expired now k ts c) (\<lambda>(b, c'). Inr (b, st, c')))"

definition htc_exists :: "('k \<Rightarrow> nat) \<Rightarrow> 'k \<Rightarrow> ('k, 'v) tcache sharded \<Rightarrow> (bool \<times> ('k, 'v) tcache sharded) result" where
  "htc_exists hash k = on_bucket hash k (\<lambda>(st, c). Inr (tc_exists k c, st, c))"

definition htc_size :: "('k, 'v) tcache sharded \<Rightarrow> nat" where
  "htc_size = sh_size tc_size"

definition htc_empty :: "('k, 'v) tcache sharded \<Rightarrow> bool" where
  "htc_empty = sh_empty tc_empty"

definition htc_clear :: "('k, 'v) tcache sharded \<Rightarrow> ('k, 'v) tcache sharded" where
  "htc_clear = sh_clear tc_clear"

definition htc_setMaxSize :: "nat \<Rightarrow> ('k, 'v) tcache sharded \<Rightarrow> ('k, 'v) tcache sharded" where
  "htc_setMaxSize = sh_setMaxSize tc_setMaxSize"

definition htc_setElasticity :: "nat \<Rightarrow> ('k, 'v) tcache sharded \<Rightarrow> ('k, 'v) tcache sharded" where
  "htc_setElasticity = sh_setElasticity tc_setElasticity"

definition htc_checkTimeout :: "nat \<Rightarrow> ('k, 'v) tcache sharded \<Rightarrow> nat \<times> ('k, 'v) tcache sharded" where
  "htc_checkTimeout ts s =
    (let rs = map (tc_checkTimeout ts) (sh_datas s) in
     (sum_list (map fst rs), s\<lparr> sh_datas := map (snd \<circ> snd) rs \<rparr>))"

section \<open>The sharded cache is a cache\<close>

definition sh_wf :: "('c \<Rightarrow> bool) \<Rightarrow> 'c sharded \<Rightarrow> bool" where
  "sh_wf cwf s \<longleftrightarrow> 0 < sh_bucket s \<and> length (sh_datas s) = sh_bucket s \<and> (\<forall>c \<in> set (sh_datas s). cwf c)"

definition sh_lookup :: "('c \<Rightarrow> 'k \<Rightarrow> 'v option) \<Rightarrow> ('k \<Rightarrow> nat) \<Rightarrow> 'c sharded \<Rightarrow> 'k \<Rightarrow> 'v option" where
  "sh_lookup look hash s k = look (sh_datas s ! (hash k mod sh_bucket s)) k"

lemma on_bucket_call:
  assumes s: "sh_wf cwf s"
    and call: "\<And>st c. cwf c \<Longrightarrow> \<exists>r st' c'. call (st, c) = Inr (r, st', c') \<and> cwf c' \<and> Q c r c'"
  shows "\<exists>r s' c'. on_bucket hash k call s = Inr (r, s') \<and> sh_wf cwf s' \<and>
           Q (sh_datas s ! (hash k mod sh_bucket s)) r c' \<and> sh_bucket s' = sh_bucket s \<and>
           sh_datas s' = (sh_datas s)[hash k mod sh_bucket s := c']"
proof -
  let ?i = "hash k mod sh_bucket s"
  have i: "?i < length (sh_datas s)" using s by (simp add: sh_wf_def)
  then have "cwf (sh_datas s ! ?i)" using s by (simp add: sh_wf_def)
  then obtain r st' c' where c: "call (sh_status s, sh_datas s ! ?i) = Inr (r, st', c')" "cwf c'"
      "Q (sh_datas s ! ?i) r c'"
    using call by blast
  let ?s = "s\<lparr> sh_datas := (sh_datas s)[?i := c'], sh_status := st' \<rparr>"
  have "on_bucket hash k call s = Inr (r, ?s)"
    using c i s by (simp add: on_bucket_def sh_wf_def Let_def not_le)
  moreover have "sh_wf cwf ?s"
    using s c(2) set_update_subset_insert [of "sh_datas s" ?i c'] by (auto simp: sh_wf_def)
  ultimately show ?thesis using c by auto
qed

lemma sh_lookup_update:
  assumes "sh_wf cwf s" "sh_bucket s' = sh_bucket s"
    "sh_datas s' = (sh_datas s)[hash k mod sh_bucket s := c']"
  shows "sh_lookup look hash s' k' =
    (if hash k' mod sh_bucket s = hash k mod sh_bucket s then look c' k' else sh_lookup look hash s k')"
  using assms by (auto simp: sh_lookup_def sh_wf_def)

lemma sh_lookup_same:
  "hash k' mod sh_bucket s = hash k mod sh_bucket s \<Longrightarrow>
   sh_lookup look hash s k' = look (sh_datas s ! (hash k mod sh_bucket s)) k'"
  by (simp add: sh_lookup_def)

context cache_shard
begin

lemma sharded_store:
  assumes s: "sh_wf inv s"
  shows "\<exists>e s'. on_bucket hash k (store k a) s = Inr (e, s') \<and> sh_wf inv s' \<and>
           sh_lookup look hash s' k = Some (val a) \<and>
           (\<forall>k' w. k' \<noteq> k \<longrightarrow> sh_lookup look hash s' k' = Some w \<longrightarrow> sh_lookup look hash s k' = Some w)"
proof -
  let ?Q = "\<lambda>c e c'. look c' k = Some (val a) \<and>
    (\<forall>k' w. k' \<noteq> k \<longrightarrow> look c' k' = Some w \<longrightarrow> look c k' = Some w)"
  obtain e s' c' where r: "on_bucket hash k (store k a) s = Inr (e, s')" "sh_wf inv s'"
      "?Q (sh_datas s ! (hash k mod sh_bucket s)) e c'" "sh_bucket s' = sh_bucket s"
      "sh_datas s' = (sh_datas s)[hash k mod sh_bucket s := c']"
    using on_bucket_call [OF s, where Q = ?Q and call = "store k a" and hash = hash and k = k] store_law
    by blast
  note u = sh_lookup_update [where hash = hash and k = k, OF s r(4,5), of look]
  note c0 = sh_lookup_same [where hash = hash and k = k and s = s and look = look]
  show ?thesis using r(1-3) by (auto simp: u c0)
qed

lemma sharded_fetch:
  assumes s: "sh_wf inv s"
  shows "\<exists>s'. on_bucket hash k (fetch k) s = Inr (sh_lookup look hash s k, s') \<and> sh_wf inv s' \<and>
           sh_lookup look hash s' = sh_lookup look hash s"
proof -
  let ?Q = "\<lambda>c r c'. r = look c k \<and> look c' = look c"
  obtain r s' c' where r: "on_bucket hash k (fetch k) s = Inr (r, s')" "sh_wf inv s'"
      "?Q (sh_datas s ! (hash k mod sh_bucket s)) r c'" "sh_bucket s' = sh_bucket s"
      "sh_datas s' = (sh_datas s)[hash k mod sh_bucket s := c']"
    using on_bucket_call [OF s, where Q = ?Q and call = "fetch k" and hash = hash and k = k] fetch_law
    by blast
  note u = sh_lookup_update [where hash = hash and k = k, OF s r(4,5), of look]
  note c0 = sh_lookup_same [where hash = hash and k = k and s = s and look = look]
  have "sh_lookup look hash s' k' = sh_lookup look hash s k'" for k' using r(3) by (auto simp: u c0)
  then show ?thesis using r(1-3) by (auto simp: c0)
qed

lemma sharded_remove:
  assumes s: "sh_wf inv s"
  shows "\<exists>s'. on_bucket hash k (remove k) s = Inr (sh_lookup look hash s k \<noteq> None, s') \<and> sh_wf inv s' \<and>
           sh_lookup look hash s' = (sh_lookup look hash s)(k := None)"
proof -
  let ?Q = "\<lambda>c r c'. r = (look c k \<noteq> None) \<and> look c' = (look c)(k := None)"
  obtain r s' c' where r: "on_bucket hash k (remove k) s = Inr (r, s')" "sh_wf inv s'"
      "?Q (sh_datas s ! (hash k mod sh_bucket s)) r c'" "sh_bucket s' = sh_bucket s"
      "sh_datas s' = (sh_datas s)[hash k mod sh_bucket s := c']"
    using on_bucket_call [OF s, where Q = ?Q and call = "remove k" and hash = hash and k = k] remove_law
    by blast
  note u = sh_lookup_update [where hash = hash and k = k, OF s r(4,5), of look]
  note c0 = sh_lookup_same [where hash = hash and k = k and s = s and look = look]
  have "sh_lookup look hash s' k' = ((sh_lookup look hash s)(k := None)) k'" for k'
    using r(3) by (auto simp: u c0)
  then show ?thesis using r(1-3) by (auto simp: c0)
qed

end

section \<open>The bounded shard of \<open>HashLruCache\<close>\<close>

definition lru_inv :: "nat \<Rightarrow> nat \<Rightarrow> ('k, 'v) lru \<Rightarrow> bool" where
  "lru_inv m e c \<longleftrightarrow> lru_wf c \<and> lc_maxSize c = m \<and> lc_elasticity c = e \<and>
     (0 < m \<longrightarrow> length (lru_list c) \<le> max m (m + e - 1))"

lemma lru_inv_step:
  assumes c: "lru_inv m e c" and w: "lru_wf c'" "lc_maxSize c' = m" "lc_elasticity c' = e"
    "lru_list c' = snd (spec_step m e x (lru_list c))"
  shows "lru_inv m e c'"
  using length_spec_step [of m "lru_list c" e x] lru_list_distinct [of c] c w by (auto simp: lru_inv_def)

interpretation blru: cache_shard lru_lookup "lru_inv m e" "\<lambda>v. v" lru_set lru_get lru_del
proof (unfold_locales, goal_cases)
  case (1 c k a st)
  then have wf: "lru_wf c" by (simp add: lru_inv_def)
  obtain ev st' c' where s: "lru_set k a (st, c) = Inr (ev, st', c')" "lru_wf c'"
      "lru_list c' = spec_set m e k a (lru_list c)" "lc_maxSize c' = m" "lc_elasticity c' = e"
    using lru_set_correct [OF wf, of k a st] 1 by (auto simp: lru_inv_def)
  show ?case
    using s map_of_spec_set [OF lru_list_distinct [OF wf]] lru_inv_step [OF 1 s(2,4,5), of "LSet k a"]
    by (auto simp: lru_lookup_def)
next
  case (2 c k st)
  then have wf: "lru_wf c" by (simp add: lru_inv_def)
  obtain st' c' where s: "lru_get k (st, c) = Inr (map_of (lru_list c) k, st', c')" "lru_wf c'"
      "lru_list c' = spec_get k (lru_list c)" "lc_maxSize c' = m" "lc_elasticity c' = e"
    using lru_get_correct [OF wf, of k st] 2 by (auto simp: lru_inv_def)
  show ?case
    using s lru_inv_step [OF 2 s(2,4,5), of "LGet k"] by (auto simp: lru_lookup_def map_of_spec_get)
next
  case (3 c k st)
  then have wf: "lru_wf c" by (simp add: lru_inv_def)
  obtain st' c' where s: "lru_del k (st, c) = Inr (map_of (lru_list c) k \<noteq> None, st', c')" "lru_wf c'"
      "lru_list c' = drop_key k (lru_list c)" "lc_maxSize c' = m" "lc_elasticity c' = e"
    using lru_del_correct [OF wf, of k st] 3 by (auto simp: lru_inv_def)
  show ?case
    using s lru_inv_step [OF 3 s(2,4,5), of "LDel k"] by (auto simp: lru_lookup_def)
qed

lemma hlru_new_wf:
  "0 < b \<Longrightarrow> sh_wf (lru_inv (ceil_div m b) (ceil_div e b)) (new_HashLruCache b m e)"
  by (simp add: sh_wf_def new_HashLruCache_def new_sharded_def Let_def lru_inv_def lru_wf_new)
    (simp add: new_LruCache_def lru_list_def)

lemma hlru_size_bound:
  assumes "sh_wf (lru_inv m e) s" "0 < m"
  shows "hlru_size s \<le> sh_bucket s * max m (m + e - 1)"
proof -
  have "\<forall>c \<in> set (sh_datas s). lru_size c \<le> max m (m + e - 1)"
    using assms by (auto simp: sh_wf_def lru_inv_def)
  moreover have "\<forall>c \<in> set cs. f c \<le> n \<Longrightarrow> sum_list (map f cs) \<le> length cs * n"
    for cs :: "('a, 'b) lru list" and f n
    by (induction cs) auto
  ultimately have "sum_list (map lru_size (sh_datas s)) \<le> length (sh_datas s) * max m (m + e - 1)"
    by blast
  then show ?thesis using assms by (simp add: hlru_size_def sh_size_def sh_wf_def)
qed

section \<open>Sequences of calls on \<open>HashLruCache\<close>\<close>

datatype ('k, 'v) hlru_op = HSet 'k 'v | HGet 'k | HDel 'k

fun hlru_step :: "('k \<Rightarrow> nat) \<Rightarrow> ('k, 'v) hlru_op \<Rightarrow> ('k, 'v) lru sharded \<Rightarrow> ('k, 'v) lru sharded result" where
  "hlru_step hash (HSet k v) s = bind_res (hlru_set hash k v s) (\<lambda>(ev, s'). Inr s')"
| "hlru_step hash (HGet k) s = bind_res (hlru_get hash k s) (\<lambda>(r, s'). Inr s')"
| "hlru_step hash (HDel k) s = bind_res (hlru_del hash k s) (\<lambda>(r, s'). Inr s')"

fun hlru_run :: "('k \<Rightarrow> nat) \<Rightarrow> ('k, 'v) hlru_op list \<Rightarrow> ('k, 'v) lru sharded \<Rightarrow> ('k, 'v) lru sharded result" where
  "hlru_run hash [] s = Inr s"
| "hlru_run hash (x # xs) s = bind_res (hlru_step hash x s) (hlru_run hash xs)"

lemma on_bucket_keeps_bucket: "on_bucket hash k call s = Inr (r, s') \<Longrightarrow> sh_bucket s' = sh_bucket s"
  by (auto simp: on_bucket_def Let_def split: if_splits)

lemma hlru_step_keeps:
  assumes s: "sh_wf (lru_inv m e) s"
  shows "\<exists>s'. hlru_step hash x s = Inr s' \<and> sh_wf (lru_inv m e) s' \<and> sh_bucket s' = sh_bucket s"
proof (cases x)
  case (HSet k v)
  then show ?thesis
    using blru.sharded_store [OF s, of hash k v] on_bucket_keeps_bucket by (fastforce simp: hlru_set_def)
next
  case (HGet k)
  then show ?thesis
    using blru.sharded_fetch [OF s, of hash k] on_bucket_keeps_bucket by (fastforce simp: hlru_get_def)
next
  case (HDel k)
  then show ?thesis
    using blru.sharded_remove [OF s, of hash k] on_bucket_keeps_bucket by (fastforce simp: hlru_del_def)
qed

lemma hlru_run_keeps:
  "sh_wf (lru_inv m e) s \<Longrightarrow>
   \<exists>s'. hlru_run hash xs s = Inr s' \<and> sh_wf (lru_inv m e) s' \<and> sh_bucket s' = sh_bucket s"
proof (induction xs arbitrary: s)
  case (Cons x xs)
  obtain s1 where s1: "hlru_step hash x s = Inr s1" "sh_wf (lru_inv m e) s1" "sh_bucket s1 = sh_bucket s"
    using hlru_step_keeps [OF Cons.prems] by blast
  then show ?case using Cons.IH [OF s1(2)] by auto
qed simp





section \<open>Whole-cache operations\<close>

lemma sh_empty_size:
  assumes "\<And>c. cempty c \<longleftrightarrow> csize c = 0"
  shows "sh_empty cempty s \<longleftrightarrow> sh_size csize s = 0"
  using assms by (simp add: sh_empty_def sh_size_def list_all_iff)

lemma sh_clear_empty:
  assumes "\<And>c. csize (cclear c) = 0"
  shows "sh_size csize (sh_clear cclear s) = 0"
  using assms by (simp add: sh_size_def sh_clear_def)

text \<open>\<open>empty\<close> is \<open>size() == 0\<close>, and \<open>clear\<close> empties every bucket.\<close>

lemma hash_caches_empty:
  "hlru_empty a \<longleftrightarrow> hlru_size a = 0" "htl_empty b \<longleftrightarrow> htl_size b = 0" "htc_empty c \<longleftrightarrow> htc_size c = 0"
  unfolding hlru_empty_def hlru_size_def htl_empty_def htl_size_def htc_empty_def htc_size_def
  by (rule sh_empty_size; simp add: lru_empty_def lru_size_def tl_empty_def tl_size_def tc_empty_def tc_size_def)+

lemma hash_caches_clear:
  "hlru_size (hlru_clear a) = 0" "htl_size (htl_clear b) = 0" "htc_size (htc_clear c) = 0"
  unfolding hlru_clear_def hlru_size_def htl_clear_def htl_size_def htc_clear_def htc_size_def
  by (rule sh_clear_empty; simp add: lru_clear_def lru_size_def tl_clear_def tl_size_def tc_clear_def tc_size_def)+

text \<open>A new limit is spread over the buckets and rounded up: the total never falls below it.\<close>

lemma sh_setMaxSize_covers: "0 < sh_bucket s \<Longrightarrow> v \<le> sh_maxSize (sh_setMaxSize f v s)"
  by (simp add: sh_setMaxSize_def Let_def ceil_div_covers)

lemma sh_setElasticity_covers: "0 < sh_bucket s \<Longrightarrow> v \<le> sh_elasticity (sh_setElasticity f v s)"
  by (simp add: sh_setElasticity_def Let_def ceil_div_covers)

end
