(* ===== verification/Fiber.thy ===== *)
theory Fiber
  imports Prelude
begin

text \<open>
  \<open>src/fiber.cpp\<close>: fibers with their own stacks, and the switches between them. A fiber object
  is named by its \<open>_fiberId\<close>. Each thread has the thread-local pointers \<open>t_fiber\<close>,
  \<open>t_thread_fiber\<close> and (from \<open>src/scheduler.cpp\<close>) \<open>t_scheduler_fiber\<close>; the field \<open>th_running\<close> is
  the fiber whose stack the processor is really on. The \<open>ucontext\<close> calls always succeed. What a
  stored \<open>_context\<close> holds is tracked, since switching to a context whose stack is in use, or
  storing the registers of one fiber in the context of another, corrupts a stack: the model
  returns the fault \<open>StaleContext\<close> there.
\<close>

section \<open>State\<close>

datatype FiberState = Init | Holding | Execute | Terminate | Ready | Exception

datatype entry = MainFunc | CallerMainFunc

text \<open>
  The contents of \<open>_context\<close>: a fresh entry point (\<open>makecontext\<close>), a suspended computation, the
  end of a main function (resuming it reaches the assertion behind the last switch), or nothing
  valid while the fiber is running.
\<close>

datatype ucontext = Entry entry | Saved | Ended | Live

record 'cb fiber =
  fb_callback :: "'cb option"
  fb_stack :: "nat option"
  fb_state :: FiberState
  fb_threadId :: nat
  fb_context :: ucontext

record tls =
  th_fiber :: "nat option"
  th_thread_fiber :: "nat option"
  th_scheduler_fiber :: "nat option"
  th_running :: "nat option"

record 'cb fworld =
  fw_heap :: "nat \<rightharpoonup> 'cb fiber"
  fw_fiberId :: nat
  fw_fiberCount :: nat
  fw_tls :: "nat \<Rightarrow> tls"

definition new_fworld :: "'cb fworld" where
  "new_fworld = \<lparr> fw_heap = Map.empty, fw_fiberId = 0, fw_fiberCount = 0,
    fw_tls = (\<lambda>_. \<lparr> th_fiber = None, th_thread_fiber = None, th_scheduler_fiber = None,
                     th_running = None \<rparr>) \<rparr>"

definition upd_tls :: "nat \<Rightarrow> (tls \<Rightarrow> tls) \<Rightarrow> 'cb fworld \<Rightarrow> 'cb fworld" where
  "upd_tls tid f w = w\<lparr> fw_tls := (fw_tls w)(tid := f (fw_tls w tid)) \<rparr>"

definition upd_fiber :: "nat \<Rightarrow> ('cb fiber \<Rightarrow> 'cb fiber) \<Rightarrow> 'cb fworld \<Rightarrow> 'cb fworld result" where
  "upd_fiber f g w =
    (case fw_heap w f of
       None \<Rightarrow> Inl NullDeref
     | Some x \<Rightarrow> Inr (w\<lparr> fw_heap := (fw_heap w)(f \<mapsto> g x) \<rparr>))"

section \<open>Operations\<close>

text \<open>The private constructor: the main fiber of a thread runs on the thread's own stack.\<close>

definition new_main_Fiber :: "nat \<Rightarrow> 'cb fworld \<Rightarrow> nat \<times> 'cb fworld" where
  "new_main_Fiber tid w =
    (let f = fw_fiberId w + 1;
         x = \<lparr> fb_callback = None, fb_stack = None, fb_state = Execute, fb_threadId = tid,
               fb_context = Live \<rparr> in
     (f, upd_tls tid (\<lambda>t. t\<lparr> th_fiber := Some f, th_running := Some f \<rparr>)
           (w\<lparr> fw_heap := (fw_heap w)(f \<mapsto> x), fw_fiberId := f,
               fw_fiberCount := fw_fiberCount w + 1 \<rparr>)))"

definition DEFAULT_STACK_SIZE :: nat where
  "DEFAULT_STACK_SIZE = 128 * 1024"

definition new_Fiber ::
    "nat \<Rightarrow> 'cb option \<Rightarrow> nat \<Rightarrow> bool \<Rightarrow> 'cb fworld \<Rightarrow> nat \<times> 'cb fworld" where
  "new_Fiber tid callback stackSize useCaller w =
    (let f = fw_fiberId w + 1;
         x = \<lparr> fb_callback = callback,
               fb_stack = Some (if stackSize = 0 then DEFAULT_STACK_SIZE else stackSize),
               fb_state = Init, fb_threadId = tid,
               fb_context = Entry (if useCaller then CallerMainFunc else MainFunc) \<rparr> in
     (f, w\<lparr> fw_heap := (fw_heap w)(f \<mapsto> x), fw_fiberId := f,
            fw_fiberCount := fw_fiberCount w + 1 \<rparr>))"

definition fiber_reset :: "nat \<Rightarrow> 'cb option \<Rightarrow> 'cb fworld \<Rightarrow> 'cb fworld result" where
  "fiber_reset f callback w =
    (case fw_heap w f of
       None \<Rightarrow> Inl NullDeref
     | Some x \<Rightarrow>
         if fb_stack x = None then Inl AssertFailed
         else if fb_state x \<notin> {Terminate, Exception, Init} then Inl AssertFailed
         else if fb_context x = Live then Inl StaleContext
         else Inr (w\<lparr> fw_heap := (fw_heap w)(f \<mapsto> x\<lparr> fb_callback := callback,
                fb_context := Entry MainFunc, fb_state := Init \<rparr>) \<rparr>))"

text \<open>\<open>swapcontext\<close>: store the running computation in \<open>src\<close>, go on with the one in \<open>dest\<close>.\<close>

definition swap_saving ::
    "ucontext \<Rightarrow> nat \<Rightarrow> nat \<Rightarrow> nat \<Rightarrow> 'cb fworld \<Rightarrow> 'cb fworld result" where
  "swap_saving k tid src dest w =
    (if th_running (fw_tls w tid) \<noteq> Some src then Inl StaleContext
     else bind_res (upd_fiber src (\<lambda>x. x\<lparr> fb_context := k \<rparr>) w) (\<lambda>w1.
       case fw_heap w1 dest of
         None \<Rightarrow> Inl NullDeref
       | Some y \<Rightarrow>
           if fb_context y = Live then Inl StaleContext
           else if fb_context y = Ended then Inl AssertFailed
           else Inr (upd_tls tid (\<lambda>t. t\<lparr> th_running := Some dest \<rparr>)
                  (w1\<lparr> fw_heap := (fw_heap w1)(dest \<mapsto> y\<lparr> fb_context := Live \<rparr>) \<rparr>))))"

definition setThis :: "nat \<Rightarrow> nat option \<Rightarrow> 'cb fworld \<Rightarrow> 'cb fworld result" where
  "setThis tid fiber w =
    (if fiber = None then Inl AssertFailed
     else Inr (upd_tls tid (\<lambda>t. t\<lparr> th_fiber := fiber \<rparr>) w))"

definition getThis :: "nat \<Rightarrow> 'cb fworld \<Rightarrow> nat \<times> 'cb fworld" where
  "getThis tid w =
    (case th_fiber (fw_tls w tid) of
       Some f \<Rightarrow> (f, w)
     | None \<Rightarrow>
         let (f, w1) = new_main_Fiber tid w in
         (f, upd_tls tid (\<lambda>t. t\<lparr> th_thread_fiber := Some f \<rparr>) w1))"

text \<open>\<open>Scheduler::getMainFiber\<close> with the fall-back to the main fiber of the thread.\<close>

definition main_fiber :: "nat \<Rightarrow> 'cb fworld \<Rightarrow> nat option" where
  "main_fiber tid w =
    (case th_scheduler_fiber (fw_tls w tid) of
       Some m \<Rightarrow> Some m
     | None \<Rightarrow> th_thread_fiber (fw_tls w tid))"

definition fiber_call :: "nat \<Rightarrow> nat \<Rightarrow> 'cb fworld \<Rightarrow> 'cb fworld result" where
  "fiber_call tid f w =
    bind_res (setThis tid (Some f) w) (\<lambda>w1.
    bind_res (upd_fiber f (\<lambda>x. x\<lparr> fb_state := Execute \<rparr>) w1) (\<lambda>w2.
      case th_thread_fiber (fw_tls w2 tid) of
        None \<Rightarrow> Inl AssertFailed
      | Some m \<Rightarrow> swap_saving Saved tid m f w2))"

definition fiber_back :: "ucontext \<Rightarrow> nat \<Rightarrow> nat \<Rightarrow> 'cb fworld \<Rightarrow> 'cb fworld result" where
  "fiber_back k tid f w =
    bind_res (setThis tid (th_thread_fiber (fw_tls w tid)) w) (\<lambda>w1.
      case th_thread_fiber (fw_tls w1 tid) of
        None \<Rightarrow> Inl AssertFailed
      | Some m \<Rightarrow> swap_saving k tid f m w1)"

definition swapIn :: "nat \<Rightarrow> nat \<Rightarrow> 'cb fworld \<Rightarrow> 'cb fworld result" where
  "swapIn tid f w =
    bind_res (setThis tid (Some f) w) (\<lambda>w1.
      case fw_heap w1 f of
        None \<Rightarrow> Inl NullDeref
      | Some x \<Rightarrow>
          if fb_state x = Execute then Inl AssertFailed
          else bind_res (upd_fiber f (\<lambda>x. x\<lparr> fb_state := Execute \<rparr>) w1) (\<lambda>w2.
            case main_fiber tid w2 of
              None \<Rightarrow> Inl AssertFailed
            | Some m \<Rightarrow> swap_saving Saved tid m f w2))"

definition swapOut :: "ucontext \<Rightarrow> nat \<Rightarrow> nat \<Rightarrow> 'cb fworld \<Rightarrow> 'cb fworld result" where
  "swapOut k tid f w =
    (case main_fiber tid w of
       None \<Rightarrow> Inl AssertFailed
     | Some m \<Rightarrow> bind_res (setThis tid (Some m) w) (swap_saving k tid f m))"

text \<open>
  \<open>yieldToReady\<close> and \<open>yieldToHold\<close> first set the state and then switch; the two parts are
  separate because other threads see the state in between.
\<close>

definition yield_mark :: "FiberState \<Rightarrow> nat \<Rightarrow> 'cb fworld \<Rightarrow> (nat \<times> 'cb fworld) result" where
  "yield_mark st tid w =
    (let (current, w1) = getThis tid w in
     case fw_heap w1 current of
       None \<Rightarrow> Inl NullDeref
     | Some x \<Rightarrow>
         if fb_state x \<noteq> Execute then Inl AssertFailed
         else bind_res (upd_fiber current (\<lambda>x. x\<lparr> fb_state := st \<rparr>) w1) (\<lambda>w2. Inr (current, w2)))"

definition yieldToReady :: "nat \<Rightarrow> 'cb fworld \<Rightarrow> 'cb fworld result" where
  "yieldToReady tid w = bind_res (yield_mark Ready tid w) (\<lambda>(f, w1). swapOut Saved tid f w1)"

definition yieldToHold :: "nat \<Rightarrow> 'cb fworld \<Rightarrow> 'cb fworld result" where
  "yieldToHold tid w = bind_res (yield_mark Holding tid w) (\<lambda>(f, w1). swapOut Saved tid f w1)"

text \<open>
  The end of \<open>mainFunc\<close> and \<open>callerMainFunc\<close>, after the callback returned or threw: the part
  that sets the state, and the whole with the last switch.
\<close>

definition main_mark :: "bool \<Rightarrow> nat \<Rightarrow> 'cb fworld \<Rightarrow> (nat \<times> 'cb fworld) result" where
  "main_mark threw tid w =
    (let (current, w1) = getThis tid w in
     bind_res (upd_fiber current
       (\<lambda>x. if threw then x\<lparr> fb_state := Exception \<rparr>
            else x\<lparr> fb_callback := None, fb_state := Terminate \<rparr>) w1)
       (\<lambda>w2. Inr (current, w2)))"

definition mainFunc_end :: "bool \<Rightarrow> nat \<Rightarrow> 'cb fworld \<Rightarrow> 'cb fworld result" where
  "mainFunc_end threw tid w = bind_res (main_mark threw tid w) (\<lambda>(f, w1). swapOut Ended tid f w1)"

definition callerMainFunc_end :: "bool \<Rightarrow> nat \<Rightarrow> 'cb fworld \<Rightarrow> 'cb fworld result" where
  "callerMainFunc_end threw tid w =
    bind_res (main_mark threw tid w) (\<lambda>(f, w1). fiber_back Ended tid f w1)"

section \<open>Stacks in use\<close>

text \<open>
  The invariant of the switches: a fiber's stored context is \<open>Live\<close> exactly when its stack is in
  use by a thread, and no stack is in use by two threads.
\<close>

abbreviation running :: "'cb fworld \<Rightarrow> nat \<Rightarrow> nat option" where
  "running w tid \<equiv> th_running (fw_tls w tid)"

definition ctx_of :: "'cb fworld \<Rightarrow> nat \<rightharpoonup> ucontext" where
  "ctx_of w f = map_option fb_context (fw_heap w f)"

definition stacks_ok :: "'cb fworld \<Rightarrow> bool" where
  "stacks_ok w \<longleftrightarrow>
     (\<forall>f. ctx_of w f \<noteq> None \<longrightarrow> f \<le> fw_fiberId w) \<and>
     (\<forall>f. ctx_of w f = Some Live \<longleftrightarrow> (\<exists>tid. running w tid = Some f)) \<and>
     (\<forall>a b f. running w a = Some f \<longrightarrow> running w b = Some f \<longrightarrow> a = b)"

lemma stacks_ok_live: "stacks_ok w \<Longrightarrow> running w tid = Some f \<Longrightarrow> ctx_of w f = Some Live"
  unfolding stacks_ok_def by blast

lemma stacks_ok_inj: "stacks_ok w \<Longrightarrow> running w a = Some f \<Longrightarrow> running w b = Some f \<Longrightarrow> a = b"
  unfolding stacks_ok_def by blast

lemma stacks_ok_cong:
  "stacks_ok w \<Longrightarrow> (\<And>tid. running w' tid = running w tid) \<Longrightarrow> fw_fiberId w' = fw_fiberId w \<Longrightarrow>
   ctx_of w' = ctx_of w \<Longrightarrow> stacks_ok w'"
  by (simp add: stacks_ok_def)

lemma stacks_ok_fresh:
  assumes "stacks_ok w" "fw_fiberId w < f"
  shows "ctx_of w f = None" "running w a \<noteq> Some f"
proof -
  show n: "ctx_of w f = None" using assms unfolding stacks_ok_def by (meson not_le)
  show "running w a \<noteq> Some f" using stacks_ok_live [OF assms(1)] n by force
qed

text \<open>\<open>t_fiber\<close> tells the truth.\<close>

definition this_ok :: "'cb fworld \<Rightarrow> bool" where
  "this_ok w \<longleftrightarrow> (\<forall>tid. th_fiber (fw_tls w tid) = running w tid)"

lemma upd_tls_simps [simp]:
  "fw_heap (upd_tls tid f w) = fw_heap w" "fw_fiberId (upd_tls tid f w) = fw_fiberId w"
  "fw_fiberCount (upd_tls tid f w) = fw_fiberCount w"
  "fw_tls (upd_tls tid f w) a = (if a = tid then f (fw_tls w tid) else fw_tls w a)"
  by (simp_all add: upd_tls_def)

lemma upd_fiber_eq_Inr:
  "upd_fiber f g w = Inr w' \<longleftrightarrow>
     (\<exists>x. fw_heap w f = Some x \<and> w' = w\<lparr> fw_heap := (fw_heap w)(f \<mapsto> g x) \<rparr>)"
  by (auto simp: upd_fiber_def split: option.splits)

text \<open>What a successful switch does.\<close>

lemma swap_saving_Inr:
  assumes "swap_saving k tid src dest w = Inr w'"
  obtains x y where "running w tid = Some src" "fw_heap w src = Some x"
    "((fw_heap w)(src \<mapsto> x\<lparr> fb_context := k \<rparr>)) dest = Some y"
    "fb_context y \<noteq> Live" "fb_context y \<noteq> Ended"
    "w' = upd_tls tid (\<lambda>t. t\<lparr> th_running := Some dest \<rparr>)
       (w\<lparr> fw_heap := (fw_heap w)(src \<mapsto> x\<lparr> fb_context := k \<rparr>, dest \<mapsto> y\<lparr> fb_context := Live \<rparr>) \<rparr>)"
  using assms by (auto simp: swap_saving_def upd_fiber_eq_Inr split: if_splits option.splits)

lemma swap_saving_ok:
  assumes w: "stacks_ok w" and k: "k \<noteq> Live" and s: "swap_saving k tid src dest w = Inr w'"
  shows "stacks_ok w'" "running w' tid = Some dest" "\<And>a. a \<noteq> tid \<Longrightarrow> fw_tls w' a = fw_tls w a"
    "th_fiber (fw_tls w' tid) = th_fiber (fw_tls w tid)"
proof -
  obtain x y where sw: "running w tid = Some src" "fw_heap w src = Some x"
    "((fw_heap w)(src \<mapsto> x\<lparr> fb_context := k \<rparr>)) dest = Some y" "fb_context y \<noteq> Live"
    "w' = upd_tls tid (\<lambda>t. t\<lparr> th_running := Some dest \<rparr>)
       (w\<lparr> fw_heap := (fw_heap w)(src \<mapsto> x\<lparr> fb_context := k \<rparr>, dest \<mapsto> y\<lparr> fb_context := Live \<rparr>) \<rparr>)"
    using swap_saving_Inr [OF s] by metis
  show run: "running w' tid = Some dest" "\<And>a. a \<noteq> tid \<Longrightarrow> fw_tls w' a = fw_tls w a"
    "th_fiber (fw_tls w' tid) = th_fiber (fw_tls w tid)"
    by (simp_all add: sw(5))
  have ctx: "ctx_of w' = (ctx_of w)(src \<mapsto> k, dest \<mapsto> Live)"
    by (simp add: sw(5) ctx_of_def fun_eq_iff)
  have dom: "ctx_of w src \<noteq> None" "ctx_of w dest \<noteq> None"
    using sw(2,3) by (auto simp: ctx_of_def split: if_splits)
  have "ctx_of w dest \<noteq> Some Live \<or> dest = src" using sw(3,4) by (auto simp: ctx_of_def)
  then have nd: "running w a \<noteq> Some dest" if "a \<noteq> tid" for a
    using that stacks_ok_live [OF w, of a dest] stacks_ok_inj [OF w, of a dest tid] sw(1) by auto
  have nf: "running w a \<noteq> Some src" if "a \<noteq> tid" for a
    using that stacks_ok_inj [OF w, of a src tid] sw(1) by auto
  have "ctx_of w' f = Some Live \<longleftrightarrow> (\<exists>a. running w' a = Some f)" for f
  proof (cases "f = dest")
    case True
    then show ?thesis using run(1) by (auto simp: ctx)
  next
    case nd': False
    show ?thesis
    proof (cases "f = src")
      case True
      then show ?thesis using nd' nf run k by (metis ctx fun_upd_apply option.inject)
    next
      case False
      have "(\<exists>a. running w a = Some f) \<longleftrightarrow> (\<exists>a. running w' a = Some f)"
        using run nd' False sw(1) by (metis option.inject)
      then show ?thesis using False nd' w unfolding stacks_ok_def by (simp add: ctx)
    qed
  qed
  moreover have "a = b" if "running w' a = Some f" "running w' b = Some f" for a b f
    using that run nd stacks_ok_inj [OF w] by (metis option.inject)
  moreover have "f \<le> fw_fiberId w'" if "ctx_of w' f \<noteq> None" for f
  proof -
    have "ctx_of w f \<noteq> None" using that dom by (auto simp: ctx split: if_splits)
    then show ?thesis using w by (simp add: stacks_ok_def sw(5))
  qed
  ultimately show "stacks_ok w'" unfolding stacks_ok_def by blast
qed

definition world_ok :: "'cb fworld \<Rightarrow> bool" where
  "world_ok w \<longleftrightarrow> stacks_ok w \<and> this_ok w"

lemma stacks_ok_setThis [simp]:
  "stacks_ok w \<Longrightarrow> stacks_ok (upd_tls tid (\<lambda>t. t\<lparr> th_fiber := f \<rparr>) w)"
  by (rule stacks_ok_cong) (auto simp: ctx_of_def fun_eq_iff)

lemma stacks_ok_upd_fiber:
  assumes "stacks_ok w" "\<And>x. fb_context (g x) = fb_context x" "upd_fiber f g w = Inr w'"
  shows "stacks_ok w'" "fw_tls w' = fw_tls w"
proof -
  obtain x where x: "fw_heap w f = Some x" "w' = w\<lparr> fw_heap := (fw_heap w)(f \<mapsto> g x) \<rparr>"
    using assms(3) by (auto simp: upd_fiber_eq_Inr)
  show "stacks_ok w'" by (rule stacks_ok_cong [OF assms(1)]) (auto simp: x ctx_of_def fun_eq_iff assms(2))
  show "fw_tls w' = fw_tls w" by (simp add: x)
qed

lemma world_ok_switch:
  assumes w: "stacks_ok w" "\<And>a. a \<noteq> tid \<Longrightarrow> th_fiber (fw_tls w a) = running w a"
    "th_fiber (fw_tls w tid) = Some dest" and k: "k \<noteq> Live" and s: "swap_saving k tid src dest w = Inr w'"
  shows "world_ok w'" "running w' tid = Some dest"
proof -
  note sw = swap_saving_ok [OF w(1) k s]
  show "running w' tid = Some dest" by (rule sw(2))
  have "th_fiber (fw_tls w' a) = running w' a" for a
    using sw(2,3,4) w(2,3) by (cases "a = tid") simp_all
  then show "world_ok w'" using sw(1) by (simp add: world_ok_def this_ok_def)
qed

lemma world_ok_new: "world_ok new_fworld"
  by (simp add: world_ok_def stacks_ok_def this_ok_def new_fworld_def ctx_of_def)

lemma world_ok_new_Fiber:
  assumes "world_ok w"
  shows "world_ok (snd (new_Fiber tid callback stackSize useCaller w))"
proof -
  let ?f = "fw_fiberId w + 1"
  have w: "stacks_ok w" using assms by (simp add: world_ok_def)
  note fresh = stacks_ok_fresh [OF w, of ?f]
  show ?thesis
    using assms fresh
    by (auto simp: world_ok_def stacks_ok_def this_ok_def new_Fiber_def Let_def le_Suc_eq ctx_of_def)
qed

lemma world_ok_getThis:
  assumes "world_ok w"
  shows "world_ok (snd (getThis tid w))" "running (snd (getThis tid w)) tid = Some (fst (getThis tid w))"
proof -
  let ?f = "fw_fiberId w + 1"
  have w: "stacks_ok w" using assms by (simp add: world_ok_def)
  have tok: "th_fiber (fw_tls w a) = running w a" for a
    using assms by (simp add: world_ok_def this_ok_def)
  show "running (snd (getThis tid w)) tid = Some (fst (getThis tid w))"
    using tok [of tid, symmetric] by (auto simp: getThis_def new_main_Fiber_def Let_def split: option.split)
  show "world_ok (snd (getThis tid w))"
  proof (cases "th_fiber (fw_tls w tid)")
    case None
    let ?w = "snd (getThis tid w)"
    have w': "ctx_of ?w = (ctx_of w)(?f \<mapsto> Live)" "fw_fiberId ?w = ?f"
      "\<And>a. running ?w a = (if a = tid then Some ?f else running w a)"
      "\<And>a. th_fiber (fw_tls ?w a) = (if a = tid then Some ?f else th_fiber (fw_tls w a))"
      using None by (auto simp: getThis_def new_main_Fiber_def Let_def ctx_of_def fun_eq_iff)
    have none: "running w tid = None" using None tok by simp
    note fresh = stacks_ok_fresh [OF w, of ?f]
    have "ctx_of ?w f = Some Live \<longleftrightarrow> (\<exists>a. running ?w a = Some f)" for f
    proof (cases "f = ?f")
      case False
      have "(\<exists>a. running ?w a = Some f) \<longleftrightarrow> (\<exists>a. running w a = Some f)"
        unfolding w'(3) using False none by (metis option.distinct(1) option.inject)
      then show ?thesis using False w unfolding stacks_ok_def by (simp add: w'(1))
    qed (auto simp: w'(1,3))
    moreover have "f \<le> fw_fiberId ?w" if "ctx_of ?w f \<noteq> None" for f
      using that w unfolding stacks_ok_def w'(1,2) by (auto split: if_splits simp: le_SucI)
    moreover have "a = b" if "running ?w a = Some f" "running ?w b = Some f" for a b f
      using that stacks_ok_inj [OF w] fresh(2) unfolding w'(3) by (auto split: if_splits)
    ultimately have "stacks_ok ?w" unfolding stacks_ok_def by blast
    then show ?thesis using tok w'(3,4) by (simp add: world_ok_def this_ok_def)
  next
    case (Some f)
    then show ?thesis using assms by (simp add: getThis_def)
  qed
qed

lemma world_ok_reset:
  assumes w: "world_ok w" and s: "fiber_reset f callback w = Inr w'"
  shows "world_ok w'"
proof -
  obtain x where x: "fw_heap w f = Some x" "fb_context x \<noteq> Live"
    "w' = w\<lparr> fw_heap := (fw_heap w)(f \<mapsto> x\<lparr> fb_callback := callback,
                fb_context := Entry MainFunc, fb_state := Init \<rparr>) \<rparr>"
    using s by (auto simp: fiber_reset_def split: option.splits if_splits)
  have ctx: "ctx_of w' = (ctx_of w)(f \<mapsto> Entry MainFunc)" by (simp add: x ctx_of_def fun_eq_iff)
  have tls: "fw_tls w' = fw_tls w" "fw_fiberId w' = fw_fiberId w" by (simp_all add: x(3))
  have "ctx_of w f \<noteq> None" "ctx_of w f \<noteq> Some Live" using x by (simp_all add: ctx_of_def)
  then show ?thesis
    using w unfolding world_ok_def stacks_ok_def this_ok_def ctx tls by auto
qed

lemma world_ok_call:
  assumes w: "world_ok w" and s: "fiber_call tid f w = Inr w'"
  shows "world_ok w'" "running w' tid = Some f"
proof -
  let ?w1 = "upd_tls tid (\<lambda>t. t\<lparr> th_fiber := Some f \<rparr>) w"
  obtain w2 m where u: "upd_fiber f (\<lambda>x. x\<lparr> fb_state := Execute \<rparr>) ?w1 = Inr w2"
    and sw: "swap_saving Saved tid m f w2 = Inr w'"
    using s by (auto simp: fiber_call_def setThis_def split: option.splits)
  have "stacks_ok ?w1" using w by (simp add: world_ok_def)
  note w2 = stacks_ok_upd_fiber [OF this _ u]
  show "world_ok w'" "running w' tid = Some f"
    using world_ok_switch [OF w2(1) _ _ _ sw] w2(2) w by (auto simp: world_ok_def this_ok_def)
qed

lemma world_ok_swapIn:
  assumes w: "world_ok w" and s: "swapIn tid f w = Inr w'"
  shows "world_ok w'" "running w' tid = Some f"
proof -
  let ?w1 = "upd_tls tid (\<lambda>t. t\<lparr> th_fiber := Some f \<rparr>) w"
  obtain w2 m where u: "upd_fiber f (\<lambda>x. x\<lparr> fb_state := Execute \<rparr>) ?w1 = Inr w2"
    and sw: "swap_saving Saved tid m f w2 = Inr w'"
    using s by (auto simp: swapIn_def setThis_def split: option.splits if_splits)
  have "stacks_ok ?w1" using w by (simp add: world_ok_def)
  note w2 = stacks_ok_upd_fiber [OF this _ u]
  show "world_ok w'" "running w' tid = Some f"
    using world_ok_switch [OF w2(1) _ _ _ sw] w2(2) w by (auto simp: world_ok_def this_ok_def)
qed

lemma world_ok_swapOut:
  assumes w: "world_ok w" and s: "swapOut k tid f w = Inr w'" and k: "k \<noteq> Live"
  shows "world_ok w'" "running w' tid = main_fiber tid w"
proof -
  obtain m where m: "main_fiber tid w = Some m"
    and sw: "swap_saving k tid f m (upd_tls tid (\<lambda>t. t\<lparr> th_fiber := Some m \<rparr>) w) = Inr w'"
    using s by (auto simp: swapOut_def setThis_def split: option.splits)
  show "world_ok w'" "running w' tid = main_fiber tid w"
    using world_ok_switch [OF _ _ _ k sw] w m by (auto simp: world_ok_def this_ok_def)
qed

lemma world_ok_back:
  assumes w: "world_ok w" and s: "fiber_back k tid f w = Inr w'" and k: "k \<noteq> Live"
  shows "world_ok w'"
proof -
  obtain m where m: "th_thread_fiber (fw_tls w tid) = Some m"
    and sw: "swap_saving k tid f m (upd_tls tid (\<lambda>t. t\<lparr> th_fiber := Some m \<rparr>) w) = Inr w'"
    using s by (auto simp: fiber_back_def setThis_def split: option.splits if_splits)
  show ?thesis
    using world_ok_switch(1) [OF _ _ _ k sw] w by (auto simp: world_ok_def this_ok_def)
qed

lemma world_ok_upd_fiber:
  assumes "world_ok w" "\<And>x. fb_context (g x) = fb_context x" "upd_fiber f g w = Inr w'"
  shows "world_ok w'"
  using assms stacks_ok_upd_fiber [OF _ assms(2,3)] by (auto simp: world_ok_def this_ok_def)

lemma world_ok_mark:
  assumes "world_ok w"
  shows "yield_mark st tid w = Inr (f, w') \<Longrightarrow> world_ok w'"
    "main_mark threw tid w = Inr (f, w') \<Longrightarrow> world_ok w'"
proof -
  note upd = world_ok_upd_fiber [OF world_ok_getThis(1) [OF assms]]
  show "world_ok w'" if "yield_mark st tid w = Inr (f, w')"
    using that upd [of "\<lambda>x. x\<lparr> fb_state := st \<rparr>" "fst (getThis tid w)" tid w']
    by (auto simp: yield_mark_def case_prod_beta Let_def split: option.splits if_splits)
  show "world_ok w'" if "main_mark threw tid w = Inr (f, w')"
    using that upd [of "\<lambda>x. if threw then x\<lparr> fb_state := Exception \<rparr>
            else x\<lparr> fb_callback := None, fb_state := Terminate \<rparr>" "fst (getThis tid w)" tid w']
    by (auto simp: main_mark_def case_prod_beta Let_def)
qed

section \<open>Sequences of fiber operations\<close>

text \<open>The calls of any number of threads, in any order.\<close>

datatype 'cb fiber_op =
    GetThis nat
  | NewFiber nat "'cb option" nat bool
  | Reset nat "'cb option"
  | Call nat nat
  | Back nat nat
  | SwapIn nat nat
  | SwapOut nat nat
  | Yield nat FiberState
  | YieldMark nat FiberState
  | EndMark nat bool
  | EndMain nat bool
  | EndCallerMain nat bool

fun fiber_step :: "'cb fiber_op \<Rightarrow> 'cb fworld \<Rightarrow> 'cb fworld result" where
  "fiber_step (GetThis tid) w = Inr (snd (getThis tid w))"
| "fiber_step (NewFiber tid cb sz caller) w = Inr (snd (new_Fiber tid cb sz caller w))"
| "fiber_step (Reset f cb) w = fiber_reset f cb w"
| "fiber_step (Call tid f) w = fiber_call tid f w"
| "fiber_step (Back tid f) w = fiber_back Saved tid f w"
| "fiber_step (SwapIn tid f) w = swapIn tid f w"
| "fiber_step (SwapOut tid f) w = swapOut Saved tid f w"
| "fiber_step (Yield tid st) w = (if st = Ready then yieldToReady tid w else yieldToHold tid w)"
| "fiber_step (YieldMark tid st) w = bind_res (yield_mark st tid w) (\<lambda>(f, w'). Inr w')"
| "fiber_step (EndMark tid threw) w = bind_res (main_mark threw tid w) (\<lambda>(f, w'). Inr w')"
| "fiber_step (EndMain tid threw) w = mainFunc_end threw tid w"
| "fiber_step (EndCallerMain tid threw) w = callerMainFunc_end threw tid w"

fun fiber_run :: "'cb fiber_op list \<Rightarrow> 'cb fworld \<Rightarrow> 'cb fworld result" where
  "fiber_run [] w = Inr w"
| "fiber_run (x # xs) w = bind_res (fiber_step x w) (fiber_run xs)"

lemma world_ok_yields:
  assumes "world_ok w"
  shows "yieldToReady tid w = Inr w' \<Longrightarrow> world_ok w'" "yieldToHold tid w = Inr w' \<Longrightarrow> world_ok w'"
    "mainFunc_end threw tid w = Inr w' \<Longrightarrow> world_ok w'" "callerMainFunc_end threw tid w = Inr w' \<Longrightarrow> world_ok w'"
  using world_ok_swapOut(1) [OF world_ok_mark(1) [OF assms]] world_ok_swapOut(1) [OF world_ok_mark(2) [OF assms]]
    world_ok_back [OF world_ok_mark(2) [OF assms]]
  by (fastforce simp: yieldToReady_def yieldToHold_def mainFunc_end_def callerMainFunc_end_def)+

lemma fiber_step_ok:
  assumes w: "world_ok w" and s: "fiber_step x w = Inr w'"
  shows "world_ok w'"
proof (cases x)
  case (Yield tid st)
  then show ?thesis using s world_ok_yields(1,2) [OF w] by (simp split: if_splits)
next
  case (YieldMark tid st)
  then show ?thesis using s world_ok_mark(1) [OF w] by auto
next
  case (EndMark tid threw)
  then show ?thesis using s world_ok_mark(2) [OF w] by auto
next
  case (SwapOut tid f)
  then show ?thesis using s world_ok_swapOut(1) [OF w] by simp
next
  case (Back tid f)
  then show ?thesis using s world_ok_back [OF w] by simp
qed (use s w in \<open>auto dest: world_ok_reset world_ok_call(1) world_ok_swapIn(1) world_ok_yields(3,4)
  intro: world_ok_getThis(1) world_ok_new_Fiber\<close>)

lemma fiber_run_ok: "world_ok w \<Longrightarrow> fiber_run xs w = Inr w' \<Longrightarrow> world_ok w'"
  by (induction xs arbitrary: w) (auto dest: fiber_step_ok)

section \<open>Properties\<close>


lemma fiber_demo_run:
  "\<exists>w. fiber_run [GetThis 1, GetThis 2, NewFiber 1 (Some ''job'') 0 False, SwapIn 2 3, Yield 2 Holding,
     SwapIn 1 3] new_fworld = Inr w \<and> running w 1 = Some 3 \<and> running w 2 = Some 2"
  by (simp add: new_fworld_def getThis_def new_main_Fiber_def new_Fiber_def swapIn_def setThis_def
      upd_fiber_def main_fiber_def swap_saving_def yieldToHold_def yield_mark_def swapOut_def Let_def
      upd_tls_def)


end
