(* ===== verification/Scheduler.thy ===== *)
theory Scheduler
  imports Fiber "HOL-Library.Multiset"
begin

text \<open>
  \<open>src/scheduler.cpp\<close>: a queue of fibers and callbacks that worker threads run. Each worker executes
  \<open>Scheduler::run\<close>; its program counter, its local \<open>cb_fiber\<close> and its idle fiber are a \<open>worker\<close>. The
  atomic steps are the critical sections of the mutex, the changes of the atomic counters, the
  assignments of a fiber's state and the context switches, so that histories interleave the
  workers exactly where the code lets them interleave. User code is any sequence of yields,
  schedule calls and a final return or exception.
\<close>

section \<open>State\<close>

record 'cb task =
  ft_fiber :: "nat option"
  ft_callback :: "'cb option"
  ft_thread :: int

text \<open>What a worker switched to: a fiber of the queue, its callback fiber, its idle fiber.\<close>

datatype kind = KTask | KCb | KIdle

text \<open>
  Where a worker is in \<open>run\<close>: at the top of the loop, behind the critical section with its \<open>ft\<close>,
  in a fiber, in a fiber that has set its state but not switched yet, back from a fiber, behind
  the decrement of the counter, or out of the loop.
\<close>

datatype 'cb pc =
    Top
  | Picked "'cb task option"
  | InFiber nat kind
  | Leaving nat kind ucontext
  | Returned nat kind
  | Settling nat kind
  | Exited

text \<open>The field \<open>wk_main\<close> records the fiber that runs the loop, \<open>t_scheduler_fiber\<close> of the thread.\<close>

record 'cb worker =
  wk_pc :: "'cb pc"
  wk_cb :: "nat option"
  wk_idle :: nat
  wk_main :: nat

record 'cb sched =
  sc_world :: "'cb fworld"
  sc_fibers :: "'cb task list"
  sc_active :: nat
  sc_idle :: nat
  sc_stopping :: bool
  sc_autoStop :: bool
  sc_rootThread :: int
  sc_rootFiber :: "nat option"
  sc_threadCount :: nat
  sc_workers :: "nat \<rightharpoonup> 'cb worker"

section \<open>Construction, start and stop\<close>

definition set_scheduler_fiber :: "nat \<Rightarrow> nat option \<Rightarrow> 'cb fworld \<Rightarrow> 'cb fworld" where
  "set_scheduler_fiber tid f = upd_tls tid (\<lambda>t. t\<lparr> th_scheduler_fiber := f \<rparr>)"

text \<open>The constructor on thread \<open>tid\<close>; \<open>run\<close> stands for \<open>std::bind(&Scheduler::run, this)\<close>, and
  \<open>this\<close> says whether \<open>t_scheduler\<close> is null.\<close>

definition new_Scheduler ::
    "nat \<Rightarrow> bool \<Rightarrow> nat \<Rightarrow> bool \<Rightarrow> 'cb \<Rightarrow> 'cb fworld \<Rightarrow> 'cb sched result" where
  "new_Scheduler tid noScheduler threads useCaller runCb w0 =
    (if threads = 0 then Inl AssertFailed
     else
       let s = \<lparr> sc_world = w0, sc_fibers = [], sc_active = 0, sc_idle = 0, sc_stopping = True,
                 sc_autoStop = False, sc_rootThread = -1, sc_rootFiber = None,
                 sc_threadCount = threads, sc_workers = Map.empty \<rparr> in
       if \<not> useCaller then Inr s
       else if \<not> noScheduler then Inl AssertFailed
       else
         let w1 = snd (getThis tid w0);
             (root, w2) = new_Fiber tid (Some runCb) 0 True w1;
             w3 = set_scheduler_fiber tid (Some root) w2 in
         Inr (s\<lparr> sc_world := w3, sc_rootThread := int tid, sc_rootFiber := Some root,
                 sc_threadCount := threads - 1 \<rparr>))"

definition stopping :: "'cb sched \<Rightarrow> bool" where
  "stopping s \<longleftrightarrow> sc_autoStop s \<and> sc_stopping s \<and> sc_fibers s = [] \<and> sc_active s = 0"

text \<open>\<open>start\<close>: the number of threads it creates, each of which enters \<open>run\<close>.\<close>

definition sched_start :: "'cb sched \<Rightarrow> nat \<times> 'cb sched" where
  "sched_start s =
    (if \<not> sc_stopping s then (0, s) else (sc_threadCount s, s\<lparr> sc_stopping := False \<rparr>))"

text \<open>
  \<open>stop\<close> up to the joins, on thread \<open>tid\<close>: whether it returned at once, and the new state, in
  which control may be in the root fiber. \<open>mine\<close> says whether \<open>t_scheduler\<close> is this scheduler.
\<close>

definition sched_stop :: "nat \<Rightarrow> bool \<Rightarrow> 'cb sched \<Rightarrow> (bool \<times> 'cb sched) result" where
  "sched_stop tid mine s0 =
    (let s = s0\<lparr> sc_autoStop := True \<rparr>;
         rootState = (case sc_rootFiber s of None \<Rightarrow> None
                      | Some r \<Rightarrow> map_option fb_state (fw_heap (sc_world s) r));
         early = (sc_threadCount s = 0 \<and> (rootState = Some Terminate \<or> rootState = Some Init));
         s1 = s\<lparr> sc_stopping := True \<rparr> in
     if early \<and> stopping s1 then Inr (True, s1)
     else if (sc_rootThread s \<noteq> -1) \<noteq> mine then Inl AssertFailed
     else case sc_rootFiber s1 of
       None \<Rightarrow> Inr (False, s1)
     | Some r \<Rightarrow>
         if stopping s1 then Inr (False, s1)
         else bind_res (fiber_call tid r (sc_world s1)) (\<lambda>w. Inr (False, s1\<lparr> sc_world := w \<rparr>)))"

section \<open>The queue\<close>

definition scheduleLock :: "'cb task \<Rightarrow> 'cb sched \<Rightarrow> bool \<times> 'cb sched" where
  "scheduleLock t s = (sc_fibers s = [], s\<lparr> sc_fibers := sc_fibers s @ [t] \<rparr>)"

text \<open>\<open>schedule\<close> for one task and for a range of callbacks: whether \<open>tickle\<close> is called.\<close>

definition schedule :: "'cb task \<Rightarrow> 'cb sched \<Rightarrow> bool \<times> 'cb sched" where
  "schedule t s = scheduleLock t s"

fun schedule_range :: "'cb option list \<Rightarrow> 'cb sched \<Rightarrow> bool \<times> 'cb sched" where
  "schedule_range [] s = (False, s)"
| "schedule_range (cb # cbs) s =
    (let (a, s1) = scheduleLock \<lparr> ft_fiber = None, ft_callback = cb, ft_thread = -1 \<rparr> s;
         (b, s2) = schedule_range cbs s1 in
     (a \<or> b, s2))"

text \<open>The scan of \<open>run\<close>: the flag \<open>tickle_me\<close>, the task taken and the queue that is left.\<close>

fun scan :: "int \<Rightarrow> (nat \<rightharpoonup> FiberState) \<Rightarrow> 'cb task list \<Rightarrow> bool
    \<Rightarrow> (bool \<times> 'cb task option \<times> 'cb task list) result" where
  "scan tid st [] tickle_me = Inr (tickle_me, None, [])"
| "scan tid st (t # ts) tickle_me =
    (if ft_thread t \<noteq> -1 \<and> ft_thread t \<noteq> tid then
       bind_res (scan tid st ts True) (\<lambda>(k, r, q). Inr (k, r, t # q))
     else if ft_fiber t = None \<and> ft_callback t = None then Inl AssertFailed
     else if (case ft_fiber t of None \<Rightarrow> False | Some f \<Rightarrow> st f = Some Execute) then
       bind_res (scan tid st ts tickle_me) (\<lambda>(k, r, q). Inr (k, r, t # q))
     else Inr (tickle_me \<or> ts \<noteq> [], Some t, ts))"

section \<open>The steps of a worker\<close>

definition st_of :: "'cb fworld \<Rightarrow> nat \<rightharpoonup> FiberState" where
  "st_of w f = map_option fb_state (fw_heap w f)"

definition set_pc :: "nat \<Rightarrow> 'cb worker \<Rightarrow> 'cb pc \<Rightarrow> 'cb sched \<Rightarrow> 'cb sched" where
  "set_pc tid wk p s = s\<lparr> sc_workers := (sc_workers s)(tid \<mapsto> wk\<lparr> wk_pc := p \<rparr>) \<rparr>"

text \<open>The part of \<open>run\<close> before the loop.\<close>

definition run_main :: "nat \<Rightarrow> 'cb sched \<Rightarrow> 'cb fworld" where
  "run_main tid s =
    (if int tid \<noteq> sc_rootThread s
     then let (f, w) = getThis tid (sc_world s) in set_scheduler_fiber tid (Some f) w
     else sc_world s)"

definition run_begin :: "'cb \<Rightarrow> nat \<Rightarrow> 'cb sched \<Rightarrow> 'cb sched result" where
  "run_begin idleCb tid s =
    (let (idle, w2) = new_Fiber tid (Some idleCb) 0 False (run_main tid s) in
     case th_scheduler_fiber (fw_tls w2 tid) of
       None \<Rightarrow> Inl AssertFailed
     | Some m \<Rightarrow>
         Inr (s\<lparr> sc_world := w2, sc_workers := (sc_workers s)(tid \<mapsto>
           \<lparr> wk_pc = Top, wk_cb = None, wk_idle = idle, wk_main = m \<rparr>) \<rparr>))"

text \<open>The critical section at the top of the loop.\<close>

definition run_pick :: "nat \<Rightarrow> 'cb worker \<Rightarrow> 'cb sched \<Rightarrow> (bool \<times> 'cb sched) result" where
  "run_pick tid wk s =
    bind_res (scan (int tid) (st_of (sc_world s)) (sc_fibers s) False) (\<lambda>(tickle_me, t, q).
      Inr (tickle_me, set_pc tid wk (Picked t)
        (s\<lparr> sc_fibers := q, sc_active := (if t = None then sc_active s else sc_active s + 1) \<rparr>)))"

definition alive :: "FiberState \<Rightarrow> bool" where
  "alive st \<longleftrightarrow> st \<noteq> Terminate \<and> st \<noteq> Exception"

definition dispatch_fiber :: "nat \<Rightarrow> 'cb worker \<Rightarrow> nat \<Rightarrow> kind \<Rightarrow> 'cb sched \<Rightarrow> 'cb sched result" where
  "dispatch_fiber tid wk f k s =
    bind_res (swapIn tid f (sc_world s)) (\<lambda>w. Inr (set_pc tid wk (InFiber f k) (s\<lparr> sc_world := w \<rparr>)))"

definition dispatch_callback :: "nat \<Rightarrow> 'cb worker \<Rightarrow> 'cb \<Rightarrow> 'cb sched \<Rightarrow> 'cb sched result" where
  "dispatch_callback tid wk cb s =
    (case wk_cb wk of
       Some c \<Rightarrow> bind_res (fiber_reset c (Some cb) (sc_world s)) (\<lambda>w.
         dispatch_fiber tid wk c KCb (s\<lparr> sc_world := w \<rparr>))
     | None \<Rightarrow>
         let (c, w) = new_Fiber tid (Some cb) 0 False (sc_world s) in
         dispatch_fiber tid (wk\<lparr> wk_cb := Some c \<rparr>) c KCb (s\<lparr> sc_world := w \<rparr>))"

definition dispatch_idle :: "nat \<Rightarrow> 'cb worker \<Rightarrow> 'cb sched \<Rightarrow> 'cb sched result" where
  "dispatch_idle tid wk s =
    (case st_of (sc_world s) (wk_idle wk) of
       None \<Rightarrow> Inl NullDeref
     | Some st \<Rightarrow>
         if st = Terminate then Inr (set_pc tid wk Exited s)
         else dispatch_fiber tid wk (wk_idle wk) KIdle (s\<lparr> sc_idle := sc_idle s + 1 \<rparr>))"

text \<open>The three-way branch of \<open>run\<close> up to the switch.\<close>

definition run_dispatch :: "nat \<Rightarrow> 'cb worker \<Rightarrow> 'cb task option \<Rightarrow> 'cb sched \<Rightarrow> 'cb sched result" where
  "run_dispatch tid wk ft s =
    (case ft of
       None \<Rightarrow> dispatch_idle tid wk s
     | Some t \<Rightarrow>
         let skip = (case ft_callback t of
                       Some cb \<Rightarrow> dispatch_callback tid wk cb s
                     | None \<Rightarrow> Inr (set_pc tid wk Top (s\<lparr> sc_active := sc_active s - 1 \<rparr>))) in
         case ft_fiber t of
           None \<Rightarrow> skip
         | Some f \<Rightarrow>
             (case st_of (sc_world s) f of
                None \<Rightarrow> Inl NullDeref
              | Some st \<Rightarrow> if alive st then dispatch_fiber tid wk f KTask s else skip))"

text \<open>Back from a fiber: first the counter, then what becomes of the fiber.\<close>

definition run_decrement :: "nat \<Rightarrow> 'cb worker \<Rightarrow> nat \<Rightarrow> kind \<Rightarrow> 'cb sched \<Rightarrow> 'cb sched" where
  "run_decrement tid wk f k s =
    set_pc tid wk (Settling f k)
      (if k = KIdle then s\<lparr> sc_idle := sc_idle s - 1 \<rparr> else s\<lparr> sc_active := sc_active s - 1 \<rparr>)"

definition run_settle :: "nat \<Rightarrow> 'cb worker \<Rightarrow> nat \<Rightarrow> kind \<Rightarrow> 'cb sched \<Rightarrow> 'cb sched result" where
  "run_settle tid wk f k s =
    (case st_of (sc_world s) f of
       None \<Rightarrow> Inl NullDeref
     | Some st \<Rightarrow>
         let wk' = (if k = KCb \<and> alive st then wk\<lparr> wk_cb := None \<rparr> else wk);
             hold = bind_res (upd_fiber f (\<lambda>x. x\<lparr> fb_state := Holding \<rparr>) (sc_world s)) (\<lambda>w.
                      Inr (set_pc tid wk' Top (s\<lparr> sc_world := w \<rparr>))) in
         if st = Ready \<and> k \<noteq> KIdle then
           Inr (set_pc tid wk' Top
             (snd (schedule \<lparr> ft_fiber = Some f, ft_callback = None, ft_thread = -1 \<rparr> s)))
         else if alive st then hold
         else if k = KCb then
           bind_res (fiber_reset f None (sc_world s)) (\<lambda>w.
             Inr (set_pc tid wk' Top (s\<lparr> sc_world := w \<rparr>)))
         else Inr (set_pc tid wk' Top s))"

text \<open>User code in a fiber that yields, or comes to its end; and one round of \<open>Scheduler::idle\<close>.\<close>

definition fiber_yield ::
    "nat \<Rightarrow> 'cb worker \<Rightarrow> kind \<Rightarrow> FiberState \<Rightarrow> 'cb sched \<Rightarrow> 'cb sched result" where
  "fiber_yield tid wk k st s =
    bind_res (yield_mark st tid (sc_world s)) (\<lambda>(f, w).
      Inr (set_pc tid wk (Leaving f k Saved) (s\<lparr> sc_world := w \<rparr>)))"

definition fiber_end ::
    "nat \<Rightarrow> 'cb worker \<Rightarrow> kind \<Rightarrow> bool \<Rightarrow> 'cb sched \<Rightarrow> 'cb sched result" where
  "fiber_end tid wk k threw s =
    bind_res (main_mark threw tid (sc_world s)) (\<lambda>(f, w).
      Inr (set_pc tid wk (Leaving f k Ended) (s\<lparr> sc_world := w \<rparr>)))"

definition idle_round :: "nat \<Rightarrow> 'cb worker \<Rightarrow> 'cb sched \<Rightarrow> 'cb sched result" where
  "idle_round tid wk s =
    (if stopping s then fiber_end tid wk KIdle False s else fiber_yield tid wk KIdle Holding s)"

definition fiber_out :: "nat \<Rightarrow> 'cb worker \<Rightarrow> nat \<Rightarrow> kind \<Rightarrow> ucontext \<Rightarrow> 'cb sched \<Rightarrow> 'cb sched result" where
  "fiber_out tid wk f k c s =
    bind_res (swapOut c tid f (sc_world s)) (\<lambda>w.
      Inr (set_pc tid wk (Returned f k) (s\<lparr> sc_world := w \<rparr>)))"

text \<open>\<open>switchTo\<close> in user code: it schedules the running fiber and then yields. The first part.\<close>

definition switchTo :: "nat \<Rightarrow> bool \<Rightarrow> int \<Rightarrow> 'cb sched \<Rightarrow> (bool \<times> 'cb sched) result" where
  "switchTo tid mine thread s =
    (if mine \<and> (thread = -1 \<or> thread = int tid) then Inr (False, s)
     else let (f, w) = getThis tid (sc_world s) in
       Inr (True, snd (schedule \<lparr> ft_fiber = Some f, ft_callback = None, ft_thread = thread \<rparr>
                         (s\<lparr> sc_world := w \<rparr>))))"

section \<open>Histories\<close>

datatype 'cb action =
    AStart nat 'cb
  | APick nat
  | ADispatch nat
  | AIdle nat
  | AYield nat FiberState
  | AEnd nat bool
  | AOut nat
  | ADecrement nat
  | ASettle nat
  | ANew nat "'cb option"
  | ASchedule "'cb task"
  | AStop
  | AStopRoot nat

text \<open>One step: None when the thread is elsewhere.\<close>

definition at_pc :: "nat \<Rightarrow> 'cb sched \<Rightarrow> ('cb worker \<Rightarrow> 'cb sched result option) \<Rightarrow> 'cb sched result option" where
  "at_pc tid s f = (case sc_workers s tid of None \<Rightarrow> None | Some wk \<Rightarrow> f wk)"

fun sched_exec :: "'cb action \<Rightarrow> 'cb sched \<Rightarrow> 'cb sched result option" where
  "sched_exec (AStart tid cb) s = (if sc_workers s tid = None then Some (run_begin cb tid s) else None)"
| "sched_exec (APick tid) s = at_pc tid s (\<lambda>wk. case wk_pc wk of
     Top \<Rightarrow> Some (bind_res (run_pick tid wk s) (\<lambda>(k, s'). Inr s')) | _ \<Rightarrow> None)"
| "sched_exec (ADispatch tid) s = at_pc tid s (\<lambda>wk. case wk_pc wk of
     Picked t \<Rightarrow> Some (run_dispatch tid wk t s) | _ \<Rightarrow> None)"
| "sched_exec (AIdle tid) s = at_pc tid s (\<lambda>wk. case wk_pc wk of
     InFiber f KIdle \<Rightarrow> Some (idle_round tid wk s) | _ \<Rightarrow> None)"
| "sched_exec (AYield tid st) s = at_pc tid s (\<lambda>wk. case wk_pc wk of
     InFiber f k \<Rightarrow> if k \<noteq> KIdle \<and> st \<in> {Ready, Holding} then Some (fiber_yield tid wk k st s) else None
   | _ \<Rightarrow> None)"
| "sched_exec (AEnd tid threw) s = at_pc tid s (\<lambda>wk. case wk_pc wk of
     InFiber f k \<Rightarrow> if k \<noteq> KIdle then Some (fiber_end tid wk k threw s) else None
   | _ \<Rightarrow> None)"
| "sched_exec (AOut tid) s = at_pc tid s (\<lambda>wk. case wk_pc wk of
     Leaving f k c \<Rightarrow> Some (fiber_out tid wk f k c s) | _ \<Rightarrow> None)"
| "sched_exec (ADecrement tid) s = at_pc tid s (\<lambda>wk. case wk_pc wk of
     Returned f k \<Rightarrow> Some (Inr (run_decrement tid wk f k s)) | _ \<Rightarrow> None)"
| "sched_exec (ASettle tid) s = at_pc tid s (\<lambda>wk. case wk_pc wk of
     Settling f k \<Rightarrow> Some (run_settle tid wk f k s) | _ \<Rightarrow> None)"
| "sched_exec (ANew tid cb) s =
     Some (Inr (s\<lparr> sc_world := snd (new_Fiber tid cb 0 False (sc_world s)) \<rparr>))"
| "sched_exec (ASchedule t) s = Some (Inr (snd (schedule t s)))"
| "sched_exec AStop s = Some (Inr (s\<lparr> sc_autoStop := True, sc_stopping := True \<rparr>))"
| "sched_exec (AStopRoot tid) s =
     (if int tid = sc_rootThread s then Some (bind_res (sched_stop tid True s) (\<lambda>(b, s'). Inr s')) else None)"

section \<open>Effects of the fiber operations\<close>

text \<open>
  The operations change the states, the contexts and the running fibers; the effects are stated
  on these three views of the world, and \<open>same_mains\<close> says that the thread-local main fibers stay.
\<close>

definition stk_of :: "'cb fworld \<Rightarrow> nat \<Rightarrow> bool" where
  "stk_of w f \<longleftrightarrow> (\<exists>x. fw_heap w f = Some x \<and> fb_stack x \<noteq> None)"

definition same_mains :: "'cb fworld \<Rightarrow> 'cb fworld \<Rightarrow> bool" where
  "same_mains w w' \<longleftrightarrow> (\<forall>a. main_fiber a w' = main_fiber a w \<and>
     th_scheduler_fiber (fw_tls w' a) = th_scheduler_fiber (fw_tls w a))"

definition resumable :: "ucontext option \<Rightarrow> bool" where
  "resumable c \<longleftrightarrow> c \<noteq> None \<and> c \<noteq> Some Live \<and> c \<noteq> Some Ended"

lemma st_of_ctx_of: "st_of w f = None \<longleftrightarrow> ctx_of w f = None"
  by (simp add: st_of_def ctx_of_def)

lemma swapIn_effect:
  assumes "main_fiber tid w = Some m" "running w tid = Some m" "m \<noteq> f" "ctx_of w m \<noteq> None"
    "st_of w f = Some st" "st \<noteq> Execute" "resumable (ctx_of w f)"
  shows "\<exists>w'. swapIn tid f w = Inr w' \<and> st_of w' = (st_of w)(f \<mapsto> Execute) \<and>
    ctx_of w' = (ctx_of w)(m \<mapsto> Saved, f \<mapsto> Live) \<and> stk_of w' = stk_of w \<and>
    running w' = (running w)(tid \<mapsto> f) \<and> same_mains w w' \<and> fw_fiberId w' = fw_fiberId w"
  using assms
  by (auto simp: swapIn_def setThis_def upd_fiber_def main_fiber_def swap_saving_def st_of_def ctx_of_def
      stk_of_def fun_eq_iff same_mains_def resumable_def split: option.splits)

lemma swapOut_effect:
  assumes "main_fiber tid w = Some m" "running w tid = Some f" "m \<noteq> f" "ctx_of w f \<noteq> None"
    "ctx_of w m = Some Saved"
  shows "\<exists>w'. swapOut k tid f w = Inr w' \<and> st_of w' = st_of w \<and>
    ctx_of w' = (ctx_of w)(f \<mapsto> k, m \<mapsto> Live) \<and> stk_of w' = stk_of w \<and>
    running w' = (running w)(tid \<mapsto> m) \<and> same_mains w w' \<and> fw_fiberId w' = fw_fiberId w"
  using assms
  by (auto simp: swapOut_def setThis_def upd_fiber_def main_fiber_def swap_saving_def st_of_def ctx_of_def
      stk_of_def fun_eq_iff same_mains_def split: option.splits)

lemma getThis_running:
  assumes "world_ok w" "running w tid = Some f"
  shows "getThis tid w = (f, w)"
  using assms by (simp add: getThis_def world_ok_def this_ok_def)

lemma yield_mark_effect:
  assumes "world_ok w" "running w tid = Some f" "st_of w f = Some Execute"
  shows "\<exists>w'. yield_mark st tid w = Inr (f, w') \<and> st_of w' = (st_of w)(f \<mapsto> st) \<and> ctx_of w' = ctx_of w \<and>
    stk_of w' = stk_of w \<and> running w' = running w \<and> same_mains w w' \<and> fw_fiberId w' = fw_fiberId w"
  using assms getThis_running [OF assms(1,2)]
  by (auto simp: yield_mark_def upd_fiber_def st_of_def ctx_of_def stk_of_def fun_eq_iff same_mains_def
      main_fiber_def split: option.splits)

lemma main_mark_effect:
  assumes "world_ok w" "running w tid = Some f" "ctx_of w f \<noteq> None"
  shows "\<exists>w'. main_mark threw tid w = Inr (f, w') \<and>
    st_of w' = (st_of w)(f \<mapsto> (if threw then Exception else Terminate)) \<and> ctx_of w' = ctx_of w \<and>
    stk_of w' = stk_of w \<and> running w' = running w \<and> same_mains w w' \<and> fw_fiberId w' = fw_fiberId w"
  using assms getThis_running [OF assms(1,2)]
  by (auto simp: main_mark_def upd_fiber_def st_of_def ctx_of_def stk_of_def fun_eq_iff same_mains_def
      main_fiber_def split: option.splits)

lemma reset_effect:
  assumes "stk_of w f" "st_of w f \<in> {Some Terminate, Some Exception, Some Init}" "ctx_of w f \<noteq> Some Live"
  shows "\<exists>w'. fiber_reset f cb w = Inr w' \<and> st_of w' = (st_of w)(f \<mapsto> Init) \<and>
    ctx_of w' = (ctx_of w)(f \<mapsto> Entry MainFunc) \<and> stk_of w' = stk_of w \<and> running w' = running w \<and>
    same_mains w w' \<and> fw_fiberId w' = fw_fiberId w"
  using assms
  by (auto simp: fiber_reset_def st_of_def ctx_of_def stk_of_def fun_eq_iff same_mains_def
      main_fiber_def split: option.splits)

lemma hold_effect:
  assumes "ctx_of w f \<noteq> None"
  shows "\<exists>w'. upd_fiber f (\<lambda>x. x\<lparr> fb_state := Holding \<rparr>) w = Inr w' \<and> st_of w' = (st_of w)(f \<mapsto> Holding) \<and>
    ctx_of w' = ctx_of w \<and> stk_of w' = stk_of w \<and> running w' = running w \<and> same_mains w w' \<and>
    fw_fiberId w' = fw_fiberId w"
  using assms
  by (auto simp: upd_fiber_def st_of_def ctx_of_def stk_of_def fun_eq_iff same_mains_def
      main_fiber_def split: option.splits)

lemma new_Fiber_effect:
  fixes w :: "'cb fworld" and tid sz :: nat and cb :: "'cb option"
  defines "f \<equiv> fst (new_Fiber tid cb sz False w)" and "w' \<equiv> snd (new_Fiber tid cb sz False w)"
  shows "f = fw_fiberId w + 1" "st_of w' = (st_of w)(f \<mapsto> Init)" "ctx_of w' = (ctx_of w)(f \<mapsto> Entry MainFunc)"
    "stk_of w' = (stk_of w)(f := True)" "running w' = running w" "same_mains w w'" "fw_fiberId w' = f"
  by (auto simp: f_def w'_def new_Fiber_def Let_def st_of_def ctx_of_def stk_of_def fun_eq_iff
      same_mains_def main_fiber_def split: option.split)

section \<open>Invariant\<close>

text \<open>A fiber that is not running and can be handed to a worker: suspended, fresh or finished.\<close>

definition parked :: "'cb fworld \<Rightarrow> nat \<Rightarrow> bool" where
  "parked w f \<longleftrightarrow>
     ctx_of w f = Some Ended \<and> st_of w f \<in> {Some Terminate, Some Exception} \<or>
     resumable (ctx_of w f) \<and> st_of w f \<in> {Some Init, Some Holding, Some Ready}"

definition task_ok :: "'cb fworld \<Rightarrow> 'cb task \<Rightarrow> bool" where
  "task_ok w t \<longleftrightarrow> (ft_fiber t \<noteq> None \<or> ft_callback t \<noteq> None) \<and> (\<forall>f. ft_fiber t = Some f \<longrightarrow> parked w f)"

definition spare :: "'cb fworld \<Rightarrow> nat \<Rightarrow> bool" where
  "spare w c \<longleftrightarrow> ctx_of w c = Some (Entry MainFunc) \<and> st_of w c = Some Init \<and> stk_of w c"

fun in_use :: "'cb pc \<Rightarrow> (nat \<times> kind) option" where
  "in_use (InFiber f k) = Some (f, k)"
| "in_use (Leaving f k c) = Some (f, k)"
| "in_use (Returned f k) = Some (f, k)"
| "in_use (Settling f k) = Some (f, k)"
| "in_use _ = None"

definition uses_kind :: "kind \<Rightarrow> 'cb pc \<Rightarrow> bool" where
  "uses_kind k p \<longleftrightarrow> (\<exists>f. in_use p = Some (f, k))"

fun pc_ok :: "'cb fworld \<Rightarrow> nat \<Rightarrow> nat \<Rightarrow> 'cb pc \<Rightarrow> bool" where
  "pc_ok w tid m (Picked t) \<longleftrightarrow> running w tid = Some m \<and> (\<forall>x. t = Some x \<longrightarrow> task_ok w x)"
| "pc_ok w tid m (InFiber f k) \<longleftrightarrow> running w tid = Some f \<and> ctx_of w m = Some Saved \<and> st_of w f = Some Execute"
| "pc_ok w tid m (Leaving f k c) \<longleftrightarrow> running w tid = Some f \<and> ctx_of w m = Some Saved \<and>
     (c = Ended \<and> st_of w f \<in> {Some Terminate, Some Exception} \<or>
      c = Saved \<and> st_of w f \<in> {Some Holding, Some Ready})"
| "pc_ok w tid m (Returned f k) \<longleftrightarrow> running w tid = Some m \<and> parked w f"
| "pc_ok w tid m (Settling f k) \<longleftrightarrow> running w tid = Some m \<and> parked w f"
| "pc_ok w tid m _ \<longleftrightarrow> running w tid = Some m"

definition kind_ok :: "'cb fworld \<Rightarrow> 'cb worker \<Rightarrow> bool" where
  "kind_ok w wk \<longleftrightarrow>
     (\<forall>f. in_use (wk_pc wk) = Some (f, KCb) \<longrightarrow> wk_cb wk = Some f \<and> stk_of w f) \<and>
     (\<forall>f. in_use (wk_pc wk) = Some (f, KIdle) \<longrightarrow> f = wk_idle wk) \<and>
     st_of w (wk_idle wk) \<noteq> Some Exception"

definition wk_ok :: "'cb fworld \<Rightarrow> nat \<Rightarrow> 'cb worker \<Rightarrow> bool" where
  "wk_ok w tid wk \<longleftrightarrow>
     main_fiber tid w = Some (wk_main wk) \<and> pc_ok w tid (wk_main wk) (wk_pc wk) \<and> kind_ok w wk \<and>
     (\<not> uses_kind KIdle (wk_pc wk) \<longrightarrow> parked w (wk_idle wk)) \<and>
     (\<forall>c. wk_cb wk = Some c \<and> \<not> uses_kind KCb (wk_pc wk) \<longrightarrow> spare w c)"

text \<open>The fibers a worker owns, and the fibers that have an owner.\<close>

definition opt_list :: "'a option \<Rightarrow> 'a list" where
  "opt_list x = (case x of None \<Rightarrow> [] | Some a \<Rightarrow> [a])"

lemma opt_list_simps [simp]:
  "opt_list None = []" "opt_list (Some a) = [a]" "a \<in> set (opt_list x) \<longleftrightarrow> x = Some a"
  by (auto simp: opt_list_def split: option.split)

definition hand :: "'cb pc \<Rightarrow> nat list" where
  "hand p = (case p of Picked (Some t) \<Rightarrow> opt_list (ft_fiber t)
             | _ \<Rightarrow> (case in_use p of Some (f, KTask) \<Rightarrow> [f] | _ \<Rightarrow> []))"

definition owned :: "'cb worker \<Rightarrow> nat list" where
  "owned wk = wk_main wk # wk_idle wk # opt_list (wk_cb wk) @ hand (wk_pc wk)"

definition queue_fibers :: "'cb task list \<Rightarrow> nat list" where
  "queue_fibers ts = concat (map (\<lambda>t. opt_list (ft_fiber t)) ts)"

definition held :: "'cb sched \<Rightarrow> nat multiset" where
  "held s = (\<Sum>tid \<in> dom (sc_workers s). mset (owned (the (sc_workers s tid))))"

definition own :: "'cb sched \<Rightarrow> nat multiset" where
  "own s = mset (queue_fibers (sc_fibers s)) + held s"

definition busy :: "'cb pc \<Rightarrow> bool" where
  "busy p \<longleftrightarrow> (case p of Picked t \<Rightarrow> t \<noteq> None | Settling f k \<Rightarrow> False
              | _ \<Rightarrow> (\<exists>f k. in_use p = Some (f, k) \<and> k \<noteq> KIdle))"

definition idling :: "'cb pc \<Rightarrow> bool" where
  "idling p \<longleftrightarrow> (case p of Settling f k \<Rightarrow> False | _ \<Rightarrow> uses_kind KIdle p)"

definition workers_with :: "('cb pc \<Rightarrow> bool) \<Rightarrow> 'cb sched \<Rightarrow> nat set" where
  "workers_with P s = {tid. \<exists>wk. sc_workers s tid = Some wk \<and> P (wk_pc wk)}"

definition counts_ok :: "'cb sched \<Rightarrow> bool" where
  "counts_ok s \<longleftrightarrow> finite (dom (sc_workers s)) \<and>
     sc_active s = card (workers_with busy s) \<and> sc_idle s = card (workers_with idling s)"

definition sched_ok :: "'cb sched \<Rightarrow> bool" where
  "sched_ok s \<longleftrightarrow> world_ok (sc_world s) \<and> counts_ok s \<and> (\<forall>f. count (own s) f \<le> 1) \<and>
     (\<forall>t \<in> set (sc_fibers s). task_ok (sc_world s) t) \<and>
     (\<forall>tid wk. sc_workers s tid = Some wk \<longrightarrow> wk_ok (sc_world s) tid wk)"

section \<open>Frame lemmas\<close>

lemma parked_ctx: "parked w f \<Longrightarrow> ctx_of w f \<noteq> None" "parked w f \<Longrightarrow> ctx_of w f \<noteq> Some Live"
  by (auto simp: parked_def resumable_def)

lemma parked_state:
  assumes "parked w f"
  obtains st where "st_of w f = Some st" "st \<noteq> Execute"
  using assms by (auto simp: parked_def)

lemma parked_cong: "st_of w' f = st_of w f \<Longrightarrow> ctx_of w' f = ctx_of w f \<Longrightarrow> parked w' f = parked w f"
  by (simp add: parked_def)

lemma in_use_owned:
  "kind_ok w wk \<Longrightarrow> in_use (wk_pc wk) = Some (f, k) \<Longrightarrow> f \<in> set (owned wk)"
  by (cases k; cases "wk_pc wk") (auto simp: kind_ok_def owned_def hand_def)

lemma wk_ok_cong:
  assumes ok: "wk_ok w tid wk" and run: "running w' tid = running w tid"
    and main: "main_fiber tid w' = main_fiber tid w"
    and same: "\<And>f. f \<in> set (owned wk) \<Longrightarrow> st_of w' f = st_of w f \<and> ctx_of w' f = ctx_of w f \<and> stk_of w' f = stk_of w f"
  shows "wk_ok w' tid wk"
proof -
  have k: "kind_ok w wk" using ok by (simp add: wk_ok_def)
  have m: "st_of w' (wk_main wk) = st_of w (wk_main wk)" "ctx_of w' (wk_main wk) = ctx_of w (wk_main wk)"
    and i: "st_of w' (wk_idle wk) = st_of w (wk_idle wk)" "ctx_of w' (wk_idle wk) = ctx_of w (wk_idle wk)"
    using same by (simp_all add: owned_def)
  have c: "spare w' c = spare w c" "stk_of w' c = stk_of w c" if "wk_cb wk = Some c" for c
    using same [of c] that by (simp_all add: owned_def spare_def)
  have u: "st_of w' f = st_of w f \<and> ctx_of w' f = ctx_of w f" if "in_use (wk_pc wk) = Some (f, kk)" for f kk
    using same in_use_owned [OF k that] by simp
  have t: "task_ok w' x = task_ok w x" if "wk_pc wk = Picked (Some x)" for x
  proof -
    have "parked w' f = parked w f" if "ft_fiber x = Some f" for f
      using same [of f] that \<open>wk_pc wk = Picked (Some x)\<close> by (simp add: owned_def hand_def parked_def)
    then show ?thesis by (auto simp: task_ok_def)
  qed
  have "pc_ok w' tid (wk_main wk) (wk_pc wk)"
    using ok run m u t unfolding wk_ok_def
    by (cases "wk_pc wk") (auto simp: parked_def)
  moreover have "kind_ok w' wk" using k i c by (auto simp: kind_ok_def)
  ultimately show ?thesis using ok main i c unfolding wk_ok_def by (simp add: parked_def)
qed

lemma wk_ok_owned_ctx:
  assumes w: "world_ok w" and ok: "wk_ok w tid wk" and f: "f \<in> set (owned wk)"
  shows "ctx_of w f \<noteq> None"
proof -
  have live: "ctx_of w g \<noteq> None" if "running w tid = Some g" for g
    using stacks_ok_live [of w tid g] w that by (simp add: world_ok_def)
  have use: "ctx_of w g \<noteq> None" if "in_use (wk_pc wk) = Some (g, k)" for g k
    using ok live that parked_ctx unfolding wk_ok_def by (cases "wk_pc wk") auto
  have "ctx_of w (wk_main wk) \<noteq> None" using ok live unfolding wk_ok_def by (cases "wk_pc wk") auto
  moreover have "ctx_of w (wk_idle wk) \<noteq> None"
    using ok use parked_ctx unfolding wk_ok_def kind_ok_def uses_kind_def by blast
  moreover have "ctx_of w c \<noteq> None" if "wk_cb wk = Some c" for c
    using ok use that unfolding wk_ok_def kind_ok_def uses_kind_def spare_def by force
  moreover have "ctx_of w g \<noteq> None" if "g \<in> set (hand (wk_pc wk))" for g
    using that use ok unfolding wk_ok_def
    by (cases "wk_pc wk")
      (auto simp: hand_def task_ok_def dest: parked_ctx(1) split: option.splits kind.splits)
  ultimately show ?thesis using f by (auto simp: owned_def)
qed

lemma held_upd:
  assumes "finite (dom (sc_workers s))" "sc_workers s tid = Some wk" "sc_workers s' = (sc_workers s)(tid \<mapsto> wk')"
  shows "held s' + mset (owned wk) = held s + mset (owned wk')"
proof -
  let ?D = "dom (sc_workers s)" and ?g = "\<lambda>m a. mset (owned (the (m a)))"
  have d: "dom (sc_workers s') = ?D" using assms(2,3) by auto
  have "held s = ?g (sc_workers s) tid + (\<Sum>a \<in> ?D - {tid}. ?g (sc_workers s) a)"
    unfolding held_def using assms(1,2) by (intro sum.remove) auto
  moreover have "held s' = ?g (sc_workers s') tid + (\<Sum>a \<in> ?D - {tid}. ?g (sc_workers s') a)"
    unfolding held_def d using assms(1,2) by (intro sum.remove) auto
  moreover have "(\<Sum>a \<in> ?D - {tid}. ?g (sc_workers s') a) = (\<Sum>a \<in> ?D - {tid}. ?g (sc_workers s) a)"
    by (intro sum.cong) (auto simp: assms(3))
  ultimately show ?thesis using assms(2,3) by (simp add: ac_simps)
qed

lemma held_member:
  assumes "finite (dom (sc_workers s))" "sc_workers s tid = Some wk"
  shows "mset (owned wk) \<subseteq># held s"
  unfolding held_def using assms by (subst sum.remove [of _ tid]) auto

lemma held_two:
  assumes "finite (dom (sc_workers s))" "sc_workers s a = Some x" "sc_workers s b = Some y" "a \<noteq> b"
  shows "mset (owned x) + mset (owned y) \<subseteq># held s"
proof -
  have "held s = mset (owned x) + (\<Sum>t \<in> dom (sc_workers s) - {a}. mset (owned (the (sc_workers s t))))"
    unfolding held_def using assms by (subst sum.remove [of _ a]) auto
  moreover have "(\<Sum>t \<in> dom (sc_workers s) - {a}. mset (owned (the (sc_workers s t))))
      = mset (owned y) + (\<Sum>t \<in> dom (sc_workers s) - {a} - {b}. mset (owned (the (sc_workers s t))))"
    using assms by (subst sum.remove [of _ b]) auto
  ultimately show ?thesis by simp
qed

text \<open>What has one owner has no other.\<close>

lemma exclusive:
  assumes ok: "sched_ok s" and wk: "sc_workers s tid = Some wk" and f: "f \<in> set (owned wk)"
  shows "f \<notin> set (queue_fibers (sc_fibers s))"
    "\<And>a y. sc_workers s a = Some y \<Longrightarrow> a \<noteq> tid \<Longrightarrow> f \<notin> set (owned y)"
    "count (mset (owned wk)) f = 1"
proof -
  have fin: "finite (dom (sc_workers s))" using ok by (simp add: sched_ok_def counts_ok_def)
  have one: "count (own s) f \<le> 1" using ok by (simp add: sched_ok_def)
  have sub: "mset (queue_fibers (sc_fibers s)) + mset (owned wk) \<subseteq># own s"
    unfolding own_def using held_member [OF fin wk] by simp
  have pos: "1 \<le> count (mset (owned wk)) f" using f by (simp add: Suc_le_eq)
  have le: "count (mset (queue_fibers (sc_fibers s))) f + count (mset (owned wk)) f \<le> 1"
    using mset_subset_eq_count [OF sub, of f] one by simp
  show "f \<notin> set (queue_fibers (sc_fibers s))"
  proof
    assume "f \<in> set (queue_fibers (sc_fibers s))"
    then have "1 \<le> count (mset (queue_fibers (sc_fibers s))) f" by (simp add: Suc_le_eq)
    then show False using le pos by linarith
  qed
  show "count (mset (owned wk)) f = 1" using le pos by linarith
  fix a y assume a: "sc_workers s a = Some y" "a \<noteq> tid"
  show "f \<notin> set (owned y)"
  proof
    assume "f \<in> set (owned y)"
    then have "1 \<le> count (mset (owned y)) f" by (simp add: Suc_le_eq)
    moreover have "mset (owned y) + mset (owned wk) \<subseteq># own s"
      unfolding own_def using held_two [OF fin a(1) wk a(2)] by (simp add: subset_mset.add_increasing)
    then have "count (mset (owned y)) f + count (mset (owned wk)) f \<le> 1"
      using mset_subset_eq_count [of _ "own s" f] one by (metis count_union order_trans)
    ultimately show False using pos by linarith
  qed
qed

lemma own_known:
  assumes "sched_ok s" "f \<in># own s"
  shows "ctx_of (sc_world s) f \<noteq> None"
proof -
  have w: "world_ok (sc_world s)" using assms(1) by (simp add: sched_ok_def)
  have fin: "finite (dom (sc_workers s))" using assms(1) by (simp add: sched_ok_def counts_ok_def)
  from assms(2) consider "f \<in> set (queue_fibers (sc_fibers s))" | "f \<in># held s" by (auto simp: own_def)
  then show ?thesis
  proof cases
    case 1
    then show ?thesis
      using assms(1) parked_ctx(1) by (fastforce simp: queue_fibers_def sched_ok_def task_ok_def)
  next
    case 2
    then obtain tid wk where "sc_workers s tid = Some wk" "f \<in> set (owned wk)"
      unfolding held_def using fin by (auto simp: set_mset_sum)
    then show ?thesis using assms(1) wk_ok_owned_ctx [OF w] unfolding sched_ok_def by blast
  qed
qed

lemma card_workers_upd:
  assumes "finite (dom (sc_workers s))" "sc_workers s tid = Some wk" "sc_workers s' = (sc_workers s)(tid \<mapsto> wk')"
  shows "card (workers_with P s') + of_bool (P (wk_pc wk)) = card (workers_with P s) + of_bool (P (wk_pc wk'))"
proof -
  define R where "R = workers_with P s - {tid}"
  have fin: "finite R"
    unfolding R_def using assms(1) by (rule finite_subset [rotated]) (auto simp: workers_with_def)
  have out: "tid \<notin> R" by (simp add: R_def)
  have add: "card (R \<union> (if b then {tid} else {})) = card R + of_bool b" for b
    using fin out by simp
  have "workers_with P s = R \<union> (if P (wk_pc wk) then {tid} else {})"
    using assms(2) by (auto simp: workers_with_def R_def)
  moreover have "workers_with P s' = R \<union> (if P (wk_pc wk') then {tid} else {})"
    using assms(3) by (auto simp: workers_with_def R_def split: if_splits)
  ultimately show ?thesis by (metis add add.commute add.left_commute)
qed

text \<open>
  The frame rule: worker \<open>tid\<close> makes a step that touches only its own fibers and fresh ones, and
  takes no fiber that has another owner.
\<close>

lemma step_frame:
  assumes ok: "sched_ok s" and wk: "sc_workers s tid = Some wk"
    and ws: "sc_workers s' = (sc_workers s)(tid \<mapsto> wk')"
    and w': "world_ok (sc_world s')" and wk': "wk_ok (sc_world s') tid wk'"
    and fr: "\<And>f. f \<in> set fresh \<Longrightarrow> ctx_of (sc_world s) f = None" "distinct fresh"
    and mv: "mset (queue_fibers (sc_fibers s')) + mset (owned wk')
       \<subseteq># mset (queue_fibers (sc_fibers s)) + mset (owned wk) + mset fresh"
    and same: "\<And>f. f \<notin> set (owned wk) \<Longrightarrow> f \<notin> set fresh \<Longrightarrow> st_of (sc_world s') f = st_of (sc_world s) f \<and>
       ctx_of (sc_world s') f = ctx_of (sc_world s) f \<and> stk_of (sc_world s') f = stk_of (sc_world s) f"
    and run: "\<And>a. a \<noteq> tid \<Longrightarrow> running (sc_world s') a = running (sc_world s) a"
    and mains: "same_mains (sc_world s) (sc_world s')"
    and queue: "\<And>t. t \<in> set (sc_fibers s') \<Longrightarrow> t \<in> set (sc_fibers s) \<or> task_ok (sc_world s') t"
    and act: "sc_active s' + of_bool (busy (wk_pc wk)) = sc_active s + of_bool (busy (wk_pc wk'))"
    and idl: "sc_idle s' + of_bool (idling (wk_pc wk)) = sc_idle s + of_bool (idling (wk_pc wk'))"
  shows "sched_ok s'"
proof -
  have fin: "finite (dom (sc_workers s))" and cnt: "counts_ok s" and one: "\<And>f. count (own s) f \<le> 1"
    using ok by (simp_all add: sched_ok_def counts_ok_def)
  have stays: "st_of (sc_world s') f = st_of (sc_world s) f \<and> ctx_of (sc_world s') f = ctx_of (sc_world s) f \<and>
      stk_of (sc_world s') f = stk_of (sc_world s) f"
    if "f \<notin> set (owned wk)" "f \<in># own s" for f
    using same [OF that(1)] fr(1) [of f] own_known [OF ok that(2)] by blast
  have "wk_ok (sc_world s') a y" if y: "sc_workers s' a = Some y" for a y
  proof (cases "a = tid")
    case True
    then show ?thesis using wk' y ws by simp
  next
    case False
    then have y': "sc_workers s a = Some y" using y ws by simp
    have "wk_ok (sc_world s) a y" using ok y' by (simp add: sched_ok_def)
    then show ?thesis
    proof (rule wk_ok_cong)
      show "running (sc_world s') a = running (sc_world s) a" by (rule run [OF False])
      show "main_fiber a (sc_world s') = main_fiber a (sc_world s)" using mains by (simp add: same_mains_def)
      fix f assume f: "f \<in> set (owned y)"
      have "f \<notin> set (owned wk)" by (rule exclusive(2) [OF ok y' f wk]) (use False in simp)
      moreover have "f \<in># own s"
        using mset_subset_eqD [OF held_member [OF fin y'], of f] f by (simp add: own_def)
      ultimately show "st_of (sc_world s') f = st_of (sc_world s) f \<and>
          ctx_of (sc_world s') f = ctx_of (sc_world s) f \<and> stk_of (sc_world s') f = stk_of (sc_world s) f"
        by (rule stays)
    qed
  qed
  moreover have "task_ok (sc_world s') t" if t: "t \<in> set (sc_fibers s')" for t
  proof (cases "t \<in> set (sc_fibers s)")
    case True
    then have tok: "task_ok (sc_world s) t" using ok by (simp add: sched_ok_def)
    have "parked (sc_world s') f" if f: "ft_fiber t = Some f" for f
    proof -
      have q: "f \<in> set (queue_fibers (sc_fibers s))" using True f by (auto simp: queue_fibers_def)
      then have "f \<notin> set (owned wk)" using exclusive(1) [OF ok wk] by blast
      moreover have "f \<in># own s" using q by (simp add: own_def)
      moreover have "parked (sc_world s) f" using tok f by (simp add: task_ok_def)
      ultimately show ?thesis using stays [of f] parked_cong [of "sc_world s'" f "sc_world s"] by simp
    qed
    then show ?thesis using tok by (simp add: task_ok_def)
  next
    case False
    then show ?thesis using queue [OF t] by blast
  qed
  moreover have "count (own s') f \<le> 1" for f
  proof -
    have "own s' + mset (owned wk) = mset (queue_fibers (sc_fibers s')) + mset (owned wk') + held s"
      using held_upd [OF fin wk ws] by (simp add: own_def ac_simps)
    also have "\<dots> \<subseteq># (mset (queue_fibers (sc_fibers s)) + mset (owned wk) + mset fresh) + held s"
      using mv by (simp add: subset_mset.add_right_mono)
    also have "\<dots> = own s + mset fresh + mset (owned wk)" by (simp add: own_def ac_simps)
    finally have "own s' \<subseteq># own s + mset fresh" by simp
    then have "count (own s') f \<le> count (own s) f + count (mset fresh) f"
      using mset_subset_eq_count [of "own s'" "own s + mset fresh" f] by simp
    moreover have "count (own s) f + count (mset fresh) f \<le> 1"
    proof (cases "f \<in> set fresh")
      case True
      then have "f \<notin># own s" using fr(1) own_known [OF ok] by blast
      moreover have "count (mset fresh) f \<le> 1" using fr(2) by (simp add: distinct_count_atmost_1)
      ultimately show ?thesis by (simp add: not_in_iff)
    next
      case False
      then have "count (mset fresh) f = 0" by simp
      then show ?thesis using one [of f] by linarith
    qed
    ultimately show ?thesis by linarith
  qed
  moreover have "counts_ok s'"
  proof -
    have "dom (sc_workers s') = dom (sc_workers s)" using wk ws by auto
    then show ?thesis
      using cnt act idl card_workers_upd [OF fin wk ws, of busy] card_workers_upd [OF fin wk ws, of idling]
      by (simp add: counts_ok_def)
  qed
  ultimately show ?thesis using w' by (simp add: sched_ok_def)
qed

section \<open>Every step keeps the invariant\<close>

lemma hand_simps [simp]:
  "hand Top = []" "hand Exited = []" "hand (Picked None) = []" "hand (Picked (Some t)) = opt_list (ft_fiber t)"
  "hand (InFiber f k) = (if k = KTask then [f] else [])" "hand (Leaving f k c) = (if k = KTask then [f] else [])"
  "hand (Returned f k) = (if k = KTask then [f] else [])" "hand (Settling f k) = (if k = KTask then [f] else [])"
  by (cases k; simp add: hand_def)+

lemma busy_simps [simp]:
  "\<not> busy Top" "\<not> busy Exited" "busy (Picked t) \<longleftrightarrow> t \<noteq> None" "busy (InFiber f k) \<longleftrightarrow> k \<noteq> KIdle"
  "busy (Leaving f k c) \<longleftrightarrow> k \<noteq> KIdle" "busy (Returned f k) \<longleftrightarrow> k \<noteq> KIdle" "\<not> busy (Settling f k)"
  by (simp_all add: busy_def)

lemma idling_simps [simp]:
  "\<not> idling Top" "\<not> idling Exited" "\<not> idling (Picked t)" "idling (InFiber f k) \<longleftrightarrow> k = KIdle"
  "idling (Leaving f k c) \<longleftrightarrow> k = KIdle" "idling (Returned f k) \<longleftrightarrow> k = KIdle" "\<not> idling (Settling f k)"
  by (simp_all add: idling_def uses_kind_def)

lemma uses_kind_simps [simp]:
  "\<not> uses_kind k Top" "\<not> uses_kind k Exited" "\<not> uses_kind k (Picked t)" "uses_kind k (InFiber f k') \<longleftrightarrow> k' = k"
  "uses_kind k (Leaving f k' c) \<longleftrightarrow> k' = k" "uses_kind k (Returned f k') \<longleftrightarrow> k' = k"
  "uses_kind k (Settling f k') \<longleftrightarrow> k' = k"
  by (auto simp: uses_kind_def)

lemma owned_pc [simp]:
  "owned (wk\<lparr> wk_pc := p \<rparr>) = wk_main wk # wk_idle wk # opt_list (wk_cb wk) @ hand p"
  by (simp add: owned_def)

lemma queue_fibers_simps [simp]:
  "queue_fibers [] = []" "queue_fibers (t # ts) = opt_list (ft_fiber t) @ queue_fibers ts"
  "queue_fibers (ts @ us) = queue_fibers ts @ queue_fibers us"
  by (simp_all add: queue_fibers_def)

lemma set_pc_simps [simp]:
  "sc_workers (set_pc tid wk p s) = (sc_workers s)(tid \<mapsto> wk\<lparr> wk_pc := p \<rparr>)"
  "sc_world (set_pc tid wk p s) = sc_world s" "sc_fibers (set_pc tid wk p s) = sc_fibers s"
  "sc_active (set_pc tid wk p s) = sc_active s" "sc_idle (set_pc tid wk p s) = sc_idle s"
  by (simp_all add: set_pc_def)

lemma same_mains_refl [simp]: "same_mains w w"
  by (simp add: same_mains_def)

lemma sched_okD:
  assumes "sched_ok s"
  shows "world_ok (sc_world s)" "\<And>t. t \<in> set (sc_fibers s) \<Longrightarrow> task_ok (sc_world s) t"
    "\<And>tid wk. sc_workers s tid = Some wk \<Longrightarrow> wk_ok (sc_world s) tid wk"
  using assms by (simp_all add: sched_ok_def)

lemma owned_distinct:
  assumes "sched_ok s" "sc_workers s tid = Some wk"
  shows "distinct (owned wk)"
  using exclusive(3) [OF assms] by (simp add: distinct_count_atmost_1)

text \<open>The scan takes the first task it may run and leaves the others as they are.\<close>

definition runnable :: "int \<Rightarrow> (nat \<rightharpoonup> FiberState) \<Rightarrow> 'cb task \<Rightarrow> bool" where
  "runnable tid st t \<longleftrightarrow> (ft_thread t = -1 \<or> ft_thread t = tid) \<and> (\<forall>f. ft_fiber t = Some f \<longrightarrow> st f \<noteq> Some Execute)"

lemma scan_correct:
  assumes "\<forall>t \<in> set ts. ft_fiber t \<noteq> None \<or> ft_callback t \<noteq> None"
  shows "\<exists>k r q. scan tid st ts b = Inr (k, r, q) \<and>
    (case r of None \<Rightarrow> q = ts \<and> (\<forall>t \<in> set ts. \<not> runnable tid st t)
     | Some t \<Rightarrow> \<exists>us vs. ts = us @ t # vs \<and> q = us @ vs \<and> runnable tid st t \<and> (\<forall>u \<in> set us. \<not> runnable tid st u))"
  using assms
proof (induction ts arbitrary: b)
  case (Cons t ts)
  show ?case
  proof (cases "runnable tid st t")
    case True
    then have "scan tid st (t # ts) b = Inr (b \<or> ts \<noteq> [], Some t, ts)"
      using Cons.prems by (auto simp: runnable_def split: option.splits)
    moreover have "\<exists>us vs. t # ts = us @ t # vs \<and> ts = us @ vs \<and> (\<forall>u \<in> set us. \<not> runnable tid st u)"
      by (intro exI [of _ "[]"] exI [of _ ts]) simp
    ultimately show ?thesis using True by (simp del: scan.simps)
  next
    case False
    define b' where "b' = ((ft_thread t \<noteq> -1 \<and> ft_thread t \<noteq> tid) \<or> b)"
    have "scan tid st (t # ts) b = bind_res (scan tid st ts b') (\<lambda>(k, r, q). Inr (k, r, t # q))"
      using False Cons.prems by (cases "ft_fiber t") (auto simp: runnable_def b'_def)
    moreover obtain k r q where "scan tid st ts b' = Inr (k, r, q)" and
      q: "case r of None \<Rightarrow> q = ts \<and> (\<forall>t \<in> set ts. \<not> runnable tid st t)
     | Some t \<Rightarrow> \<exists>us vs. ts = us @ t # vs \<and> q = us @ vs \<and> runnable tid st t \<and> (\<forall>u \<in> set us. \<not> runnable tid st u)"
      using Cons.IH [of b'] Cons.prems by auto
    ultimately have "scan tid st (t # ts) b = Inr (k, r, t # q)" by simp
    moreover have "case r of None \<Rightarrow> t # q = t # ts \<and> (\<forall>t \<in> set (t # ts). \<not> runnable tid st t)
       | Some x \<Rightarrow> \<exists>us vs. t # ts = us @ x # vs \<and> t # q = us @ vs \<and> runnable tid st x \<and>
           (\<forall>u \<in> set us. \<not> runnable tid st u)"
    proof (cases r)
      case (Some x)
      then obtain us vs where "ts = us @ x # vs" "q = us @ vs" "runnable tid st x" "\<forall>u \<in> set us. \<not> runnable tid st u"
        using q by auto
      then have "t # ts = (t # us) @ x # vs \<and> t # q = (t # us) @ vs \<and> runnable tid st x \<and>
          (\<forall>u \<in> set (t # us). \<not> runnable tid st u)" using False by simp
      then show ?thesis unfolding Some option.case by blast
    qed (use q False in auto)
    ultimately show ?thesis by blast
  qed
qed simp

lemma run_pick_ok:
  assumes ok: "sched_ok s" and wk: "sc_workers s tid = Some wk" and pc: "wk_pc wk = Top"
  shows "\<exists>k s'. run_pick tid wk s = Inr (k, s') \<and> sched_ok s'"
proof -
  note d = sched_okD [OF ok]
  obtain k r q where sc: "scan (int tid) (st_of (sc_world s)) (sc_fibers s) False = Inr (k, r, q)"
    and rq: "case r of None \<Rightarrow> q = sc_fibers s
     | Some t \<Rightarrow> \<exists>us vs. sc_fibers s = us @ t # vs \<and> q = us @ vs"
    using scan_correct [of "sc_fibers s" "int tid" "st_of (sc_world s)" False] d(2)
    by (fastforce simp: task_ok_def split: option.splits)
  let ?s = "set_pc tid wk (Picked r) (s\<lparr> sc_fibers := q, sc_active := (if r = None then sc_active s else sc_active s + 1) \<rparr>)"
  have sub: "set q \<subseteq> set (sc_fibers s)" using rq by (auto split: option.splits)
  have tk: "task_ok (sc_world s) x" if "r = Some x" for x using rq that d(2) by auto
  have "sched_ok ?s"
  proof (rule step_frame [OF ok wk, where wk' = "wk\<lparr> wk_pc := Picked r \<rparr>" and fresh = "[]"])
    show "wk_ok (sc_world ?s) tid (wk\<lparr> wk_pc := Picked r \<rparr>)"
      using d(3) [OF wk] pc tk by (simp add: wk_ok_def kind_ok_def)
    show "mset (queue_fibers (sc_fibers ?s)) + mset (owned (wk\<lparr> wk_pc := Picked r \<rparr>))
       \<subseteq># mset (queue_fibers (sc_fibers s)) + mset (owned wk) + mset []"
      using rq pc by (auto simp: owned_def ac_simps split: option.splits)
  qed (use d(1) pc sub in auto)
  then show ?thesis using sc by (simp add: run_pick_def)
qed

lemma dispatch_fiber_ok:
  assumes ok: "sched_ok s" and wk: "sc_workers s tid = Some wk" and pc: "wk_pc wk = Picked p"
    and f: "resumable (ctx_of (sc_world s) f)" "st_of (sc_world s) f = Some st" "st \<noteq> Execute"
    and k: "k = KTask \<and> (\<exists>t. p = Some t \<and> ft_fiber t = Some f) \<or>
      k = KCb \<and> wk_cb wk = Some f \<and> p \<noteq> None \<or> k = KIdle \<and> f = wk_idle wk \<and> p = None"
  shows "\<exists>s'. dispatch_fiber tid wk f k (s\<lparr> sc_idle := sc_idle s + of_bool (k = KIdle) \<rparr>) = Inr s' \<and> sched_ok s'"
proof -
  let ?w = "sc_world s" and ?m = "wk_main wk" and ?wk = "wk\<lparr> wk_pc := InFiber f k \<rparr>"
  note d = sched_okD [OF ok] and dist = owned_distinct [OF ok wk]
  have wko: "wk_ok ?w tid wk" by (rule d(3) [OF wk])
  then have m: "main_fiber tid ?w = Some ?m" "running ?w tid = Some ?m" using pc by (simp_all add: wk_ok_def)
  have mf: "?m \<noteq> f" and fo: "f \<in> set (owned wk)" and idf: "k \<noteq> KIdle \<Longrightarrow> wk_idle wk \<noteq> f"
    and cbf: "\<And>c. k \<noteq> KCb \<Longrightarrow> wk_cb wk = Some c \<Longrightarrow> c \<noteq> f"
    and mi: "wk_idle wk \<noteq> ?m" "\<And>c. wk_cb wk = Some c \<Longrightarrow> c \<noteq> ?m"
    using dist k pc by (auto simp: owned_def)
  have "ctx_of ?w ?m \<noteq> None" using stacks_ok_live [of ?w tid ?m] m d(1) by (simp add: world_ok_def)
  then obtain w' where w': "swapIn tid f ?w = Inr w'" "st_of w' = (st_of ?w)(f \<mapsto> Execute)"
    "ctx_of w' = (ctx_of ?w)(?m \<mapsto> Saved, f \<mapsto> Live)" "stk_of w' = stk_of ?w"
    "running w' = (running ?w)(tid \<mapsto> f)" "same_mains ?w w'"
    using swapIn_effect [OF m mf _ f(2,3,1)] by blast
  let ?s = "set_pc tid wk (InFiber f k) (s\<lparr> sc_idle := sc_idle s + of_bool (k = KIdle), sc_world := w' \<rparr>)"
  have "sched_ok ?s"
  proof (rule step_frame [OF ok wk, where wk' = ?wk and fresh = "[]"])
    show "world_ok (sc_world ?s)" using world_ok_swapIn(1) [OF d(1) w'(1)] by simp
    have "main_fiber tid w' = Some ?m" using w'(6) m(1) by (simp add: same_mains_def)
    moreover have "pc_ok w' tid ?m (InFiber f k)"
      using mf by (simp add: w'(2,3) fun_cong [OF w'(5), of tid])
    moreover have "kind_ok w' ?wk"
      using wko k idf by (auto simp: wk_ok_def kind_ok_def w'(2,4) spare_def pc)
    moreover have "k \<noteq> KIdle \<longrightarrow> parked w' (wk_idle wk)"
      using wko pc idf mi(1) parked_cong [of w' "wk_idle wk" ?w] by (auto simp: wk_ok_def w'(2,3))
    moreover have "\<forall>c. wk_cb wk = Some c \<and> k \<noteq> KCb \<longrightarrow> spare w' c"
      using wko pc cbf mi(2) by (auto simp: wk_ok_def spare_def w'(2-4))
    ultimately show "wk_ok (sc_world ?s) tid ?wk" by (simp add: wk_ok_def)
    show "mset (queue_fibers (sc_fibers ?s)) + mset (owned ?wk)
       \<subseteq># mset (queue_fibers (sc_fibers s)) + mset (owned wk) + mset []"
      using k pc by (auto simp: owned_def)
    show "st_of (sc_world ?s) g = st_of ?w g \<and> ctx_of (sc_world ?s) g = ctx_of ?w g \<and>
        stk_of (sc_world ?s) g = stk_of ?w g" if "g \<notin> set (owned wk)" for g
      using that fo by (auto simp: w'(2-4) owned_def)
    show "running (sc_world ?s) a = running ?w a" if "a \<noteq> tid" for a
      using fun_cong [OF w'(5), of a] that by simp
  qed (use w'(6) k pc in auto)
  then show ?thesis using w'(1) by (simp add: dispatch_fiber_def)
qed

lemma dispatch_fiber_upd:
  "dispatch_fiber tid wk f k (s\<lparr> sc_workers := (sc_workers s)(tid \<mapsto> x) \<rparr>) = dispatch_fiber tid wk f k s"
  by (simp add: dispatch_fiber_def set_pc_def)

lemma parked_alive:
  assumes "parked w f" "st_of w f = Some st" "alive st"
  shows "resumable (ctx_of w f)" "st \<noteq> Execute"
  using assms by (auto simp: parked_def alive_def)

lemma dispatch_callback_ok:
  assumes ok: "sched_ok s" and wk: "sc_workers s tid = Some wk" and pc: "wk_pc wk = Picked (Some t)"
  shows "\<exists>s'. dispatch_callback tid wk cb s = Inr s' \<and> sched_ok s'"
proof (cases "wk_cb wk")
  case (Some c)
  let ?w = "sc_world s"
  note d = sched_okD [OF ok] and dist = owned_distinct [OF ok wk]
  have wko: "wk_ok ?w tid wk" by (rule d(3) [OF wk])
  then have sp: "spare ?w c" using Some pc by (simp add: wk_ok_def)
  then obtain w' where w': "fiber_reset c (Some cb) ?w = Inr w'" "st_of w' = (st_of ?w)(c \<mapsto> Init)"
    "ctx_of w' = (ctx_of ?w)(c \<mapsto> Entry MainFunc)" "stk_of w' = stk_of ?w" "running w' = running ?w"
    "same_mains ?w w'"
    using reset_effect [of ?w c "Some cb"] by (auto simp: spare_def)
  have st: "st_of w' = st_of ?w" "ctx_of w' = ctx_of ?w"
    using sp by (auto simp: w'(2,3) spare_def fun_eq_iff)
  have "sched_ok (s\<lparr> sc_world := w' \<rparr>)"
  proof (rule step_frame [OF ok wk, where wk' = wk and fresh = "[]"])
    show "world_ok (sc_world (s\<lparr> sc_world := w' \<rparr>))" using world_ok_reset [OF d(1) w'(1)] by simp
    show "wk_ok (sc_world (s\<lparr> sc_world := w' \<rparr>)) tid wk"
      using wk_ok_cong [OF wko] fun_cong [OF w'(5)] w'(4,6) st by (simp add: same_mains_def)
  qed (use wk w'(4,6) st fun_cong [OF w'(5)] in auto)
  then show ?thesis
    using dispatch_fiber_ok [of "s\<lparr> sc_world := w' \<rparr>" tid wk "Some t" c Init KCb] wk pc Some sp w'(1) st
    by (simp add: dispatch_callback_def spare_def resumable_def)
next
  case None
  let ?w = "sc_world s" and ?c = "fst (new_Fiber tid (Some cb) 0 False (sc_world s))"
    and ?w' = "snd (new_Fiber tid (Some cb) 0 False (sc_world s))"
  let ?wk = "wk\<lparr> wk_cb := Some ?c \<rparr>"
  let ?s = "s\<lparr> sc_world := ?w', sc_workers := (sc_workers s)(tid \<mapsto> ?wk) \<rparr>"
  note d = sched_okD [OF ok] and nw = new_Fiber_effect [where tid = tid and cb = "Some cb" and sz = 0 and w = ?w]
  have wko: "wk_ok ?w tid wk" by (rule d(3) [OF wk])
  have fresh: "ctx_of ?w ?c = None"
    using stacks_ok_fresh(1) [of ?w ?c] d(1) nw(1) by (simp add: world_ok_def)
  then have cn: "?c \<notin> set (owned wk)" using wk_ok_owned_ctx [OF d(1) wko] by blast
  have wko': "wk_ok ?w' tid wk"
  proof (rule wk_ok_cong [OF wko])
    show "running ?w' tid = running ?w tid" using fun_cong [OF nw(5)] .
    show "main_fiber tid ?w' = main_fiber tid ?w" using nw(6) by (simp add: same_mains_def)
  qed (use cn in \<open>auto simp: nw(2-4)\<close>)
  have "sched_ok ?s"
  proof (rule step_frame [OF ok wk, where wk' = ?wk and fresh = "[?c]"])
    show "world_ok (sc_world ?s)" using world_ok_new_Fiber [OF d(1)] by simp
    have "spare ?w' ?c" by (simp add: spare_def nw(2-4))
    then show "wk_ok (sc_world ?s) tid ?wk" using wko' pc None by (simp add: wk_ok_def kind_ok_def)
    show "running (sc_world ?s) a = running ?w a" for a using fun_cong [OF nw(5)] by simp
  qed (use fresh nw(6) pc None in \<open>auto simp: nw(2-4) owned_def ac_simps\<close>)
  then show ?thesis
    using dispatch_fiber_ok [of ?s tid ?wk "Some t" ?c Init KCb] None pc
      dispatch_fiber_upd [of tid ?wk ?c KCb "s\<lparr> sc_world := ?w' \<rparr>" ?wk]
    by (simp add: dispatch_callback_def case_prod_beta Let_def resumable_def nw(2,3))
qed

lemma pc_frame:
  assumes ok: "sched_ok s" and wk: "sc_workers s tid = Some wk"
    and w: "wk_ok (sc_world s) tid (wk\<lparr> wk_pc := p \<rparr>)"
    and h: "mset (hand p) \<subseteq># mset (hand (wk_pc wk))"
    and act: "a + of_bool (busy (wk_pc wk)) = sc_active s + of_bool (busy p)"
    and idl: "i + of_bool (idling (wk_pc wk)) = sc_idle s + of_bool (idling p)"
  shows "sched_ok (set_pc tid wk p (s\<lparr> sc_active := a, sc_idle := i \<rparr>))"
proof (rule step_frame [OF ok wk, where wk' = "wk\<lparr> wk_pc := p \<rparr>" and fresh = "[]"])
  show "mset (queue_fibers (sc_fibers (set_pc tid wk p (s\<lparr> sc_active := a, sc_idle := i \<rparr>))))
      + mset (owned (wk\<lparr> wk_pc := p \<rparr>))
      \<subseteq># mset (queue_fibers (sc_fibers s)) + mset (owned wk) + mset []"
    using h by (simp add: owned_def [of wk])
qed (use sched_okD(1) [OF ok] w act idl in simp_all)

lemma busy_count:
  assumes "counts_ok s" "sc_workers s tid = Some wk" "P (wk_pc wk)"
  shows "0 < card (workers_with P s)"
proof -
  have "tid \<in> workers_with P s" using assms(2,3) by (auto simp: workers_with_def)
  moreover have "finite (workers_with P s)"
    using assms(1) by (rule_tac finite_subset [of _ "dom (sc_workers s)"]) (auto simp: workers_with_def counts_ok_def)
  ultimately show ?thesis by (auto simp: card_gt_0_iff)
qed

lemma active_pos:
  assumes "sched_ok s" "sc_workers s tid = Some wk"
  shows "busy (wk_pc wk) \<Longrightarrow> 0 < sc_active s" "idling (wk_pc wk) \<Longrightarrow> 0 < sc_idle s"
  using assms busy_count [of s tid wk busy] busy_count [of s tid wk idling]
  by (auto simp: sched_ok_def counts_ok_def)

lemma dispatch_idle_ok:
  assumes ok: "sched_ok s" and wk: "sc_workers s tid = Some wk" and pc: "wk_pc wk = Picked None"
  shows "\<exists>s'. dispatch_idle tid wk s = Inr s' \<and> sched_ok s'"
proof -
  let ?w = "sc_world s"
  have wko: "wk_ok ?w tid wk" by (rule sched_okD(3) [OF ok wk])
  then have pk: "parked ?w (wk_idle wk)" "st_of ?w (wk_idle wk) \<noteq> Some Exception"
    using pc by (simp_all add: wk_ok_def kind_ok_def)
  then obtain st where st: "st_of ?w (wk_idle wk) = Some st" using parked_state by blast
  show ?thesis
  proof (cases "st = Terminate")
    case True
    have "sched_ok (set_pc tid wk Exited (s\<lparr> sc_active := sc_active s, sc_idle := sc_idle s \<rparr>))"
      by (rule pc_frame [OF ok wk]) (use wko pc in \<open>simp_all add: wk_ok_def kind_ok_def\<close>)
    then show ?thesis using True st by (simp add: dispatch_idle_def)
  next
    case False
    then have "alive st" using pk(2) st by (simp add: alive_def)
    then show ?thesis
      using dispatch_fiber_ok [OF ok wk pc parked_alive(1) [OF pk(1) st] st parked_alive(2) [OF pk(1) st], of KIdle]
        False st by (simp add: dispatch_idle_def)
  qed
qed

lemma run_dispatch_ok:
  assumes ok: "sched_ok s" and wk: "sc_workers s tid = Some wk" and pc: "wk_pc wk = Picked ft"
  shows "\<exists>s'. run_dispatch tid wk ft s = Inr s' \<and> sched_ok s'"
proof (cases ft)
  case None
  then show ?thesis using dispatch_idle_ok [OF ok wk] pc by (simp add: run_dispatch_def)
next
  case (Some t)
  let ?w = "sc_world s"
  have wko: "wk_ok ?w tid wk" by (rule sched_okD(3) [OF ok wk])
  then have tok: "task_ok ?w t" using pc Some by (simp add: wk_ok_def)
  let ?skip = "case ft_callback t of Some cb \<Rightarrow> dispatch_callback tid wk cb s
      | None \<Rightarrow> Inr (set_pc tid wk Top (s\<lparr> sc_active := sc_active s - 1 \<rparr>))"
  have "sched_ok (set_pc tid wk Top (s\<lparr> sc_active := sc_active s - 1, sc_idle := sc_idle s \<rparr>))"
    by (rule pc_frame [OF ok wk]) (use wko pc Some active_pos(1) [OF ok wk] in \<open>simp_all add: wk_ok_def kind_ok_def\<close>)
  then have skip: "\<exists>s'. ?skip = Inr s' \<and> sched_ok s'"
    using dispatch_callback_ok [OF ok wk] pc Some by (cases "ft_callback t") simp_all
  show ?thesis
  proof (cases "ft_fiber t")
    case None
    then show ?thesis using skip Some by (simp add: run_dispatch_def)
  next
    case f: (Some f)
    have pk: "parked ?w f" using tok f by (simp add: task_ok_def)
    then obtain st where st: "st_of ?w f = Some st" using parked_state by blast
    show ?thesis
    proof (cases "alive st")
      case True
      then show ?thesis
        using dispatch_fiber_ok [OF ok wk pc parked_alive(1) [OF pk st] st parked_alive(2) [OF pk st], of KTask]
          Some f st by (simp add: run_dispatch_def)
    next
      case False
      then show ?thesis using skip Some f st by (simp add: run_dispatch_def)
    qed
  qed
qed

text \<open>The fiber in use sets its state.\<close>

lemma mark_frame:
  assumes ok: "sched_ok s" and wk: "sc_workers s tid = Some wk" and pc: "wk_pc wk = InFiber f k"
    and w': "world_ok w'" "st_of w' = (st_of (sc_world s))(f \<mapsto> st)" "ctx_of w' = ctx_of (sc_world s)"
      "stk_of w' = stk_of (sc_world s)" "running w' = running (sc_world s)" "same_mains (sc_world s) w'"
    and c: "c = Ended \<and> st \<in> {Terminate, Exception} \<or> c = Saved \<and> st \<in> {Holding, Ready}"
    and ki: "k = KIdle \<longrightarrow> st \<noteq> Exception"
  shows "sched_ok (set_pc tid wk (Leaving f k c) (s\<lparr> sc_world := w' \<rparr>))"
proof -
  let ?w = "sc_world s" and ?wk = "wk\<lparr> wk_pc := Leaving f k c \<rparr>"
  note dist = owned_distinct [OF ok wk]
  have wko: "wk_ok ?w tid wk" by (rule sched_okD(3) [OF ok wk])
  then have kind: "kind_ok ?w wk" and main: "main_fiber tid ?w = Some (wk_main wk)"
    and run: "running ?w tid = Some f" "ctx_of ?w (wk_main wk) = Some Saved" using pc by (simp_all add: wk_ok_def)
  have fo: "f \<in> set (owned wk)" by (rule in_use_owned [OF kind, of _ k]) (simp add: pc)
  have idf: "k \<noteq> KIdle \<Longrightarrow> wk_idle wk \<noteq> f" and cbf: "\<And>c. k \<noteq> KCb \<Longrightarrow> wk_cb wk = Some c \<Longrightarrow> c \<noteq> f"
    using dist kind pc by (cases k; auto simp: owned_def kind_ok_def)+
  have "wk_ok w' tid ?wk"
  proof -
    have "pc_ok w' tid (wk_main wk) (Leaving f k c)"
      using run c by (auto simp: w'(2,3) fun_cong [OF w'(5), of tid])
    moreover have "kind_ok w' ?wk" using kind pc ki idf by (auto simp: kind_ok_def w'(2,4))
    moreover have "k \<noteq> KIdle \<longrightarrow> parked w' (wk_idle wk)"
      using wko pc idf parked_cong [of w' "wk_idle wk" ?w] by (auto simp: wk_ok_def w'(2,3))
    moreover have "\<forall>c. wk_cb wk = Some c \<and> k \<noteq> KCb \<longrightarrow> spare w' c"
      using wko pc cbf by (auto simp: wk_ok_def spare_def w'(2-4))
    ultimately show ?thesis using main w'(6) by (simp add: wk_ok_def same_mains_def)
  qed
  then show ?thesis
    using fo pc w'(1,6) fun_cong [OF w'(5)]
    by (intro step_frame [OF ok wk, where wk' = ?wk and fresh = "[]"]) (auto simp: w'(2-4) owned_def)
qed

lemma fiber_yield_ok:
  assumes ok: "sched_ok s" and wk: "sc_workers s tid = Some wk" and pc: "wk_pc wk = InFiber f k"
    and st: "st \<in> {Ready, Holding}"
  shows "\<exists>s'. fiber_yield tid wk k st s = Inr s' \<and> sched_ok s'"
proof -
  let ?w = "sc_world s"
  note d = sched_okD [OF ok]
  have "running ?w tid = Some f" "st_of ?w f = Some Execute" using d(3) [OF wk] pc by (simp_all add: wk_ok_def)
  then obtain w' where w': "yield_mark st tid ?w = Inr (f, w')" "st_of w' = (st_of ?w)(f \<mapsto> st)"
    "ctx_of w' = ctx_of ?w" "stk_of w' = stk_of ?w" "running w' = running ?w" "same_mains ?w w'"
    using yield_mark_effect [OF d(1)] by blast
  then show ?thesis
    using mark_frame [OF ok wk pc world_ok_mark(1) [OF d(1) w'(1)] w'(2-6), of Saved] st
    by (auto simp: fiber_yield_def)
qed

lemma fiber_end_ok:
  assumes ok: "sched_ok s" and wk: "sc_workers s tid = Some wk" and pc: "wk_pc wk = InFiber f k"
    and th: "k = KIdle \<longrightarrow> \<not> threw"
  shows "\<exists>s'. fiber_end tid wk k threw s = Inr s' \<and> sched_ok s'"
proof -
  let ?w = "sc_world s" and ?st = "if threw then Exception else Terminate"
  note d = sched_okD [OF ok]
  have "running ?w tid = Some f" "ctx_of ?w f \<noteq> None"
    using d(3) [OF wk] pc st_of_ctx_of [of ?w f] by (simp_all add: wk_ok_def)
  then obtain w' where w': "main_mark threw tid ?w = Inr (f, w')" "st_of w' = (st_of ?w)(f \<mapsto> ?st)"
    "ctx_of w' = ctx_of ?w" "stk_of w' = stk_of ?w" "running w' = running ?w" "same_mains ?w w'"
    using main_mark_effect [OF d(1)] by blast
  then show ?thesis
    using mark_frame [OF ok wk pc world_ok_mark(2) [OF d(1) w'(1)] w'(2-6), of Ended] th
    by (auto simp: fiber_end_def)
qed

lemma idle_round_ok:
  assumes "sched_ok s" "sc_workers s tid = Some wk" "wk_pc wk = InFiber f KIdle"
  shows "\<exists>s'. idle_round tid wk s = Inr s' \<and> sched_ok s'"
  using fiber_end_ok [OF assms, of False] fiber_yield_ok [OF assms, of Holding] by (simp add: idle_round_def)

lemma fiber_out_ok:
  assumes ok: "sched_ok s" and wk: "sc_workers s tid = Some wk" and pc: "wk_pc wk = Leaving f k c"
  shows "\<exists>s'. fiber_out tid wk f k c s = Inr s' \<and> sched_ok s'"
proof -
  let ?w = "sc_world s" and ?m = "wk_main wk" and ?wk = "wk\<lparr> wk_pc := Returned f k \<rparr>"
  note d = sched_okD [OF ok] and dist = owned_distinct [OF ok wk]
  have wko: "wk_ok ?w tid wk" by (rule d(3) [OF wk])
  then have kind: "kind_ok ?w wk" and main: "main_fiber tid ?w = Some ?m"
    and run: "running ?w tid = Some f" "ctx_of ?w ?m = Some Saved"
    and cst: "c = Ended \<and> st_of ?w f \<in> {Some Terminate, Some Exception} \<or>
      c = Saved \<and> st_of ?w f \<in> {Some Holding, Some Ready}" using pc by (simp_all add: wk_ok_def)
  have fo: "f \<in> set (owned wk)" by (rule in_use_owned [OF kind, of _ k]) (simp add: pc)
  have mf: "?m \<noteq> f" and idf: "k \<noteq> KIdle \<Longrightarrow> wk_idle wk \<noteq> f" and mi: "wk_idle wk \<noteq> ?m"
    and cbf: "\<And>c. wk_cb wk = Some c \<Longrightarrow> c \<noteq> ?m \<and> (k \<noteq> KCb \<longrightarrow> c \<noteq> f)"
    using dist kind pc by (cases k; auto simp: owned_def kind_ok_def)+
  have "ctx_of ?w f \<noteq> None" using cst st_of_ctx_of [of ?w f] by auto
  then obtain w' where w': "swapOut c tid f ?w = Inr w'" "st_of w' = st_of ?w"
    "ctx_of w' = (ctx_of ?w)(f \<mapsto> c, ?m \<mapsto> Live)" "stk_of w' = stk_of ?w"
    "running w' = (running ?w)(tid \<mapsto> ?m)" "same_mains ?w w'"
    using swapOut_effect [OF main run(1) mf _ run(2)] by blast
  let ?s = "set_pc tid wk (Returned f k) (s\<lparr> sc_world := w' \<rparr>)"
  have "sched_ok ?s"
  proof (rule step_frame [OF ok wk, where wk' = ?wk and fresh = "[]"])
    show "world_ok (sc_world ?s)" using world_ok_swapOut(1) [OF d(1) w'(1)] cst by auto
    have "parked w' f" using cst mf by (auto simp: parked_def resumable_def w'(2,3))
    then have "pc_ok w' tid ?m (Returned f k)" by (simp add: fun_cong [OF w'(5), of tid])
    moreover have "kind_ok w' ?wk" using kind pc by (auto simp: kind_ok_def w'(2,4))
    moreover have "k \<noteq> KIdle \<longrightarrow> parked w' (wk_idle wk)"
      using wko pc idf mi parked_cong [of w' "wk_idle wk" ?w] by (auto simp: wk_ok_def w'(2,3))
    moreover have "\<forall>c. wk_cb wk = Some c \<and> k \<noteq> KCb \<longrightarrow> spare w' c"
      using wko pc cbf by (auto simp: wk_ok_def spare_def w'(2-4))
    ultimately show "wk_ok (sc_world ?s) tid ?wk" using main w'(6) by (simp add: wk_ok_def same_mains_def)
    show "running (sc_world ?s) a = running ?w a" if "a \<noteq> tid" for a
      using fun_cong [OF w'(5), of a] that by simp
    show "st_of (sc_world ?s) g = st_of ?w g \<and> ctx_of (sc_world ?s) g = ctx_of ?w g \<and>
        stk_of (sc_world ?s) g = stk_of ?w g" if "g \<notin> set (owned wk)" for g
      using that fo by (auto simp: w'(2-4) owned_def)
  qed (use w'(6) pc in \<open>auto simp: owned_def\<close>)
  then show ?thesis using w'(1) by (simp add: fiber_out_def)
qed

lemma run_decrement_ok:
  assumes ok: "sched_ok s" and wk: "sc_workers s tid = Some wk" and pc: "wk_pc wk = Returned f k"
  shows "sched_ok (run_decrement tid wk f k s)"
proof -
  have wko: "wk_ok (sc_world s) tid (wk\<lparr> wk_pc := Settling f k \<rparr>)"
    using sched_okD(3) [OF ok wk] pc by (simp add: wk_ok_def kind_ok_def)
  have "sched_ok (set_pc tid wk (Settling f k)
      (s\<lparr> sc_active := (if k = KIdle then sc_active s else sc_active s - 1),
          sc_idle := (if k = KIdle then sc_idle s - 1 else sc_idle s) \<rparr>))"
    by (rule pc_frame [OF ok wk wko]) (use pc active_pos [OF ok wk] in auto)
  then show ?thesis by (simp add: run_decrement_def split: if_splits)
qed

text \<open>The fiber a worker came back from: requeued, held, or reused as the callback fiber.\<close>

lemma settle_frame:
  assumes ok: "sched_ok s" and wk: "sc_workers s tid = Some wk" and pc: "wk_pc wk = Settling f k"
    and w': "world_ok w'" "\<And>g. g \<noteq> f \<Longrightarrow> st_of w' g = st_of (sc_world s) g \<and> ctx_of w' g = ctx_of (sc_world s) g"
      "stk_of w' = stk_of (sc_world s)" "running w' = running (sc_world s)" "same_mains (sc_world s) w'"
    and q: "q = sc_fibers s \<or> k \<noteq> KIdle \<and> parked w' f \<and>
       q = sc_fibers s @ [\<lparr> ft_fiber = Some f, ft_callback = None, ft_thread = -1 \<rparr>] \<and> (k = KCb \<longrightarrow> cb = None)"
    and cb: "cb = wk_cb wk \<or> cb = None" "k = KCb \<Longrightarrow> cb \<noteq> None \<Longrightarrow> spare w' f"
    and idl: "k = KIdle \<Longrightarrow> parked w' f \<and> st_of w' f \<noteq> Some Exception"
  shows "sched_ok (set_pc tid (wk\<lparr> wk_cb := cb \<rparr>) Top (s\<lparr> sc_world := w', sc_fibers := q \<rparr>))"
proof -
  let ?w = "sc_world s" and ?wk = "wk\<lparr> wk_cb := cb, wk_pc := Top \<rparr>"
  note dist = owned_distinct [OF ok wk]
  have wko: "wk_ok ?w tid wk" by (rule sched_okD(3) [OF ok wk])
  then have kind: "kind_ok ?w wk" and main: "main_fiber tid ?w = Some (wk_main wk)"
    and run: "running ?w tid = Some (wk_main wk)" using pc by (simp_all add: wk_ok_def)
  have fo: "f \<in> set (owned wk)" by (rule in_use_owned [OF kind, of _ k]) (simp add: pc)
  have idf: "k \<noteq> KIdle \<Longrightarrow> wk_idle wk \<noteq> f" and cbf: "\<And>c. k \<noteq> KCb \<Longrightarrow> wk_cb wk = Some c \<Longrightarrow> c \<noteq> f"
    and kcb: "k = KCb \<Longrightarrow> wk_cb wk = Some f" and kid: "k = KIdle \<Longrightarrow> wk_idle wk = f"
    using dist kind pc by (cases k; auto simp: owned_def kind_ok_def)+
  have idle: "parked w' (wk_idle wk)" "st_of w' (wk_idle wk) \<noteq> Some Exception"
    using wko kind pc idf kid idl w'(2) [of "wk_idle wk"] parked_cong [of w' "wk_idle wk" ?w]
    by (cases "k = KIdle"; simp add: wk_ok_def kind_ok_def)+
  have "spare w' c" if "cb = Some c" for c
    using that cb wko pc cbf kcb w'(2) [of c] w'(3) by (cases "k = KCb") (auto simp: wk_ok_def spare_def)
  then have wk': "wk_ok w' tid ?wk"
    using main run idle w'(5) fun_cong [OF w'(4), of tid] by (simp add: wk_ok_def kind_ok_def same_mains_def)
  show ?thesis
  proof (rule step_frame [OF ok wk, where wk' = ?wk and fresh = "[]"])
    show "mset (queue_fibers (sc_fibers (set_pc tid (wk\<lparr> wk_cb := cb \<rparr>) Top (s\<lparr> sc_world := w', sc_fibers := q \<rparr>))))
        + mset (owned ?wk) \<subseteq># mset (queue_fibers (sc_fibers s)) + mset (owned wk) + mset []"
      using q cb(1) pc kcb by (cases k) (auto simp: owned_def ac_simps)
    show "t \<in> set (sc_fibers s) \<or>
        task_ok (sc_world (set_pc tid (wk\<lparr> wk_cb := cb \<rparr>) Top (s\<lparr> sc_world := w', sc_fibers := q \<rparr>))) t"
      if "t \<in> set (sc_fibers (set_pc tid (wk\<lparr> wk_cb := cb \<rparr>) Top (s\<lparr> sc_world := w', sc_fibers := q \<rparr>)))" for t
      using that q by (auto simp: task_ok_def)
    show "st_of (sc_world (set_pc tid (wk\<lparr> wk_cb := cb \<rparr>) Top (s\<lparr> sc_world := w', sc_fibers := q \<rparr>))) g = st_of ?w g \<and>
        ctx_of (sc_world (set_pc tid (wk\<lparr> wk_cb := cb \<rparr>) Top (s\<lparr> sc_world := w', sc_fibers := q \<rparr>))) g = ctx_of ?w g \<and>
        stk_of (sc_world (set_pc tid (wk\<lparr> wk_cb := cb \<rparr>) Top (s\<lparr> sc_world := w', sc_fibers := q \<rparr>))) g = stk_of ?w g"
      if "g \<notin> set (owned wk)" for g
      using that fo w'(2) [of g] w'(3) by auto
  qed (use w'(1,5) wk' pc fun_cong [OF w'(4)] in auto)
qed

lemma run_settle_ok:
  assumes ok: "sched_ok s" and wk: "sc_workers s tid = Some wk" and pc: "wk_pc wk = Settling f k"
  shows "\<exists>s'. run_settle tid wk f k s = Inr s' \<and> sched_ok s'"
proof -
  let ?w = "sc_world s"
  note d = sched_okD [OF ok]
  have wko: "wk_ok ?w tid wk" by (rule d(3) [OF wk])
  then have kind: "kind_ok ?w wk" and pk: "parked ?w f" using pc by (simp_all add: wk_ok_def)
  obtain st where st: "st_of ?w f = Some st" using parked_state [OF pk] by blast
  have idl: "k = KIdle \<Longrightarrow> st \<noteq> Exception" using kind pc st by (auto simp: kind_ok_def)
  have stk: "k = KCb \<Longrightarrow> stk_of ?w f" using kind pc by (simp add: kind_ok_def)
  let ?cb = "if k = KCb \<and> alive st then None else wk_cb wk"
  have eq: "(if k = KCb \<and> alive st then wk\<lparr> wk_cb := None \<rparr> else wk) = wk\<lparr> wk_cb := ?cb \<rparr>" by simp
  note frame = settle_frame [OF ok wk pc, where cb = ?cb]
  consider "st = Ready \<and> k \<noteq> KIdle" | "\<not> (st = Ready \<and> k \<noteq> KIdle)" "alive st" | "\<not> alive st" "k = KCb"
    | "\<not> alive st" "k \<noteq> KCb" by blast
  then show ?thesis
  proof cases
    case 1
    have "sched_ok (set_pc tid (wk\<lparr> wk_cb := ?cb \<rparr>) Top (s\<lparr> sc_world := ?w,
        sc_fibers := sc_fibers s @ [\<lparr> ft_fiber = Some f, ft_callback = None, ft_thread = -1 \<rparr>] \<rparr>))"
      by (rule frame) (use 1 d(1) pk in \<open>auto simp: alive_def\<close>)
    then show ?thesis
      using 1 st by (cases "k = KCb") (auto simp: run_settle_def Let_def schedule_def scheduleLock_def alive_def)
  next
    case 2
    obtain w' where w': "upd_fiber f (\<lambda>x. x\<lparr> fb_state := Holding \<rparr>) ?w = Inr w'"
      "st_of w' = (st_of ?w)(f \<mapsto> Holding)" "ctx_of w' = ctx_of ?w" "stk_of w' = stk_of ?w"
      "running w' = running ?w" "same_mains ?w w'"
      using hold_effect [of ?w f] parked_ctx(1) [OF pk] by blast
    have "parked w' f" using pk 2(2) st by (auto simp: parked_def w'(2,3) alive_def)
    then have "sched_ok (set_pc tid (wk\<lparr> wk_cb := ?cb \<rparr>) Top (s\<lparr> sc_world := w', sc_fibers := sc_fibers s \<rparr>))"
      by (intro frame world_ok_upd_fiber [OF d(1) _ w'(1)] w'(4-6)) (use 2 in \<open>auto simp: w'(2,3)\<close>)
    then show ?thesis using 2 st w'(1) by (cases "k = KCb") (auto simp: run_settle_def Let_def)
  next
    case 3
    then have tst: "st_of ?w f \<in> {Some Terminate, Some Exception, Some Init}" using st by (auto simp: alive_def)
    obtain w' where w': "fiber_reset f None ?w = Inr w'"
      "st_of w' = (st_of ?w)(f \<mapsto> Init)" "ctx_of w' = (ctx_of ?w)(f \<mapsto> Entry MainFunc)" "stk_of w' = stk_of ?w"
      "running w' = running ?w" "same_mains ?w w'"
      using reset_effect [OF stk [OF 3(2)] tst parked_ctx(2) [OF pk], of None] by blast
    have "spare w' f" using stk [OF 3(2)] by (simp add: spare_def w'(2-4))
    then have "sched_ok (set_pc tid (wk\<lparr> wk_cb := ?cb \<rparr>) Top (s\<lparr> sc_world := w', sc_fibers := sc_fibers s \<rparr>))"
      by (intro frame world_ok_reset [OF d(1) w'(1)] w'(4-6)) (use 3 in \<open>auto simp: w'(2,3)\<close>)
    then show ?thesis using 3 st w'(1) unfolding run_settle_def eq Let_def by (auto simp: alive_def)
  next
    case 4
    have "sched_ok (set_pc tid (wk\<lparr> wk_cb := ?cb \<rparr>) Top (s\<lparr> sc_world := ?w, sc_fibers := sc_fibers s \<rparr>))"
      by (rule frame) (use 4 d(1) pk idl st in auto)
    then show ?thesis using 4 st unfolding run_settle_def eq Let_def by (auto simp: alive_def)
  qed
qed

text \<open>Steps of threads that are not workers: they change no fiber that has an owner.\<close>

lemma world_frame:
  assumes ok: "sched_ok s" and w': "world_ok w'"
    and same: "\<And>f. f \<in># own s \<Longrightarrow> st_of w' f = st_of (sc_world s) f \<and>
       ctx_of w' f = ctx_of (sc_world s) f \<and> stk_of w' f = stk_of (sc_world s) f"
    and run: "\<And>a. a \<in> dom (sc_workers s) \<Longrightarrow> running w' a = running (sc_world s) a \<and>
       main_fiber a w' = main_fiber a (sc_world s)"
  shows "sched_ok (s\<lparr> sc_world := w' \<rparr>)"
proof -
  note d = sched_okD [OF ok]
  have fin: "finite (dom (sc_workers s))" using ok by (simp add: sched_ok_def counts_ok_def)
  have "wk_ok w' a y" if y: "sc_workers s a = Some y" for a y
  proof (rule wk_ok_cong [OF d(3) [OF y]])
    fix f assume "f \<in> set (owned y)"
    then have "f \<in># own s" using mset_subset_eqD [OF held_member [OF fin y], of f] by (simp add: own_def)
    then show "st_of w' f = st_of (sc_world s) f \<and> ctx_of w' f = ctx_of (sc_world s) f \<and>
       stk_of w' f = stk_of (sc_world s) f" by (rule same)
  qed (use run [of a] y in auto)
  moreover have "task_ok w' t" if t: "t \<in> set (sc_fibers s)" for t
  proof -
    have "parked w' f" if f: "ft_fiber t = Some f" for f
    proof -
      have "f \<in># own s" using t f by (auto simp: own_def queue_fibers_def)
      then show ?thesis using same [of f] parked_cong [of w' f "sc_world s"] d(2) [OF t] f by (simp add: task_ok_def)
    qed
    then show ?thesis using d(2) [OF t] by (simp add: task_ok_def)
  qed
  moreover have "own (s\<lparr> sc_world := w' \<rparr>) = own s" by (simp add: own_def held_def)
  moreover have "counts_ok (s\<lparr> sc_world := w' \<rparr>)"
    using ok by (simp add: sched_ok_def counts_ok_def workers_with_def)
  ultimately show ?thesis using ok w' by (simp add: sched_ok_def)
qed

lemma new_ok:
  assumes ok: "sched_ok s"
  shows "sched_ok (s\<lparr> sc_world := snd (new_Fiber tid cb sz False (sc_world s)) \<rparr>)"
proof -
  let ?w = "sc_world s" and ?f = "fw_fiberId (sc_world s) + 1"
  note nw = new_Fiber_effect [where tid = tid and cb = cb and sz = sz and w = ?w]
  have w: "world_ok ?w" by (rule sched_okD(1) [OF ok])
  have fresh: "ctx_of ?w ?f = None" using stacks_ok_fresh(1) [of ?w ?f] w by (simp add: world_ok_def)
  show ?thesis
  proof (rule world_frame [OF ok world_ok_new_Fiber [OF w]])
    fix f assume "f \<in># own s"
    then have "f \<noteq> ?f" using fresh own_known [OF ok] by blast
    then show "st_of (snd (new_Fiber tid cb sz False ?w)) f = st_of ?w f \<and>
        ctx_of (snd (new_Fiber tid cb sz False ?w)) f = ctx_of ?w f \<and>
        stk_of (snd (new_Fiber tid cb sz False ?w)) f = stk_of ?w f" by (simp add: nw(1-4))
  next
    fix a show "running (snd (new_Fiber tid cb sz False ?w)) a = running ?w a \<and>
        main_fiber a (snd (new_Fiber tid cb sz False ?w)) = main_fiber a ?w"
      using fun_cong [OF nw(5), of a] nw(6) by (simp add: same_mains_def)
  qed
qed

lemma schedule_ok:
  assumes ok: "sched_ok s" and t: "task_ok (sc_world s) t" "\<And>f. ft_fiber t = Some f \<Longrightarrow> f \<notin># own s"
  shows "sched_ok (snd (schedule t s))"
proof -
  let ?s = "s\<lparr> sc_fibers := sc_fibers s @ [t] \<rparr>"
  have own: "own ?s = own s + mset (opt_list (ft_fiber t))" by (simp add: own_def held_def ac_simps)
  have "count (own ?s) f \<le> 1" for f
  proof (cases "ft_fiber t = Some f")
    case True
    then have "count (own s) f = 0" using t(2) by (simp add: not_in_iff)
    then show ?thesis using True by (simp add: own)
  next
    case False
    then show ?thesis using ok by (cases "ft_fiber t") (auto simp: own sched_ok_def)
  qed
  then have "sched_ok ?s" using ok t(1) by (auto simp: sched_ok_def counts_ok_def workers_with_def)
  then show ?thesis by (simp add: schedule_def scheduleLock_def)
qed

text \<open>A thread may enter \<open>run\<close> when it is new, or, as the root thread, when it is in the root fiber.\<close>

definition start_ok :: "nat \<Rightarrow> 'cb sched \<Rightarrow> bool" where
  "start_ok tid s \<longleftrightarrow> sc_workers s tid = None \<and>
     (if int tid = sc_rootThread s
      then (\<exists>m. th_scheduler_fiber (fw_tls (sc_world s) tid) = Some m \<and> running (sc_world s) tid = Some m \<and> m \<notin># own s)
      else th_fiber (fw_tls (sc_world s) tid) = None)"

lemma prologue:
  assumes ok: "sched_ok s" and st: "start_ok tid s"
  defines "w1 \<equiv> run_main tid s"
  shows "sched_ok (s\<lparr> sc_world := w1 \<rparr>)" "\<exists>m. th_scheduler_fiber (fw_tls w1 tid) = Some m \<and> running w1 tid = Some m \<and> m \<notin># own s"
proof -
  let ?w = "sc_world s" and ?f = "fw_fiberId (sc_world s) + 1"
  note d = sched_okD [OF ok]
  have nw: "sc_workers s tid = None" using st by (simp add: start_ok_def)
  have "sched_ok (s\<lparr> sc_world := w1 \<rparr>) \<and>
      (\<exists>m. th_scheduler_fiber (fw_tls w1 tid) = Some m \<and> running w1 tid = Some m \<and> m \<notin># own s)"
  proof (cases "int tid = sc_rootThread s")
    case True
    then show ?thesis using ok st by (simp add: w1_def run_main_def start_ok_def)
  next
    case False
    then have no: "th_fiber (fw_tls ?w tid) = None" using st by (simp add: start_ok_def)
    have w1: "w1 = set_scheduler_fiber tid (Some (fst (getThis tid ?w))) (snd (getThis tid ?w))"
      using False by (simp add: w1_def run_main_def case_prod_beta Let_def)
    have fresh: "ctx_of ?w ?f = None" using stacks_ok_fresh(1) [of ?w ?f] d(1) by (simp add: world_ok_def)
    have eff: "st_of w1 = (st_of ?w)(?f \<mapsto> Execute)" "ctx_of w1 = (ctx_of ?w)(?f \<mapsto> Live)"
      "stk_of w1 = (stk_of ?w)(?f := False)" "\<And>a. a \<noteq> tid \<Longrightarrow> fw_tls w1 a = fw_tls ?w a"
      "th_scheduler_fiber (fw_tls w1 tid) = Some ?f" "running w1 tid = Some ?f"
      using no by (auto simp: w1 getThis_def new_main_Fiber_def set_scheduler_fiber_def st_of_def ctx_of_def
          stk_of_def fun_eq_iff Let_def)
    have ow: "world_ok w1"
      using world_ok_getThis(1) [OF d(1), of tid] unfolding w1 set_scheduler_fiber_def
      by (auto simp: world_ok_def this_ok_def stacks_ok_def ctx_of_def)
    have "sched_ok (s\<lparr> sc_world := w1 \<rparr>)"
    proof (rule world_frame [OF ok ow])
      fix f assume "f \<in># own s"
      then have "f \<noteq> ?f" using fresh own_known [OF ok] by blast
      then show "st_of w1 f = st_of ?w f \<and> ctx_of w1 f = ctx_of ?w f \<and> stk_of w1 f = stk_of ?w f"
        by (simp add: eff(1-3))
    next
      fix a assume "a \<in> dom (sc_workers s)"
      then have "a \<noteq> tid" using nw by auto
      then show "running w1 a = running ?w a \<and> main_fiber a w1 = main_fiber a ?w"
        by (simp add: eff(4) main_fiber_def split: option.split)
    qed
    then show ?thesis using eff(5,6) own_known [OF ok, of ?f] fresh by blast
  qed
  then show "sched_ok (s\<lparr> sc_world := w1 \<rparr>)"
    "\<exists>m. th_scheduler_fiber (fw_tls w1 tid) = Some m \<and> running w1 tid = Some m \<and> m \<notin># own s" by blast+
qed

lemma add_worker:
  assumes ok: "sched_ok s" and nw: "sc_workers s tid = None" and pc: "wk_pc wk = Top" "wk_cb wk = None"
    and wk: "wk_ok (sc_world s) tid wk" and new: "wk_main wk \<notin># own s" "wk_idle wk \<notin># own s" "wk_main wk \<noteq> wk_idle wk"
  shows "sched_ok (s\<lparr> sc_workers := (sc_workers s)(tid \<mapsto> wk) \<rparr>)"
proof -
  let ?s = "s\<lparr> sc_workers := (sc_workers s)(tid \<mapsto> wk) \<rparr>"
  have fin: "finite (dom (sc_workers s))" using ok by (simp add: sched_ok_def counts_ok_def)
  have out: "tid \<notin> dom (sc_workers s)" using nw by auto
  have "(\<Sum>a \<in> dom (sc_workers s). mset (owned (the (((sc_workers s)(tid \<mapsto> wk)) a))))
      = (\<Sum>a \<in> dom (sc_workers s). mset (owned (the (sc_workers s a))))"
    using out by (intro sum.cong) auto
  then have "held ?s = held s + mset (owned wk)"
    using fin out by (simp add: held_def)
  then have own: "own ?s = own s + {# wk_main wk, wk_idle wk #}" using pc by (simp add: own_def owned_def)
  have "count (own ?s) f \<le> 1" for f
  proof (cases "f = wk_main wk \<or> f = wk_idle wk")
    case True
    then have "count (own s) f = 0" using new by (auto simp: not_in_iff)
    then show ?thesis using new(3) True by (auto simp: own)
  next
    case False
    then show ?thesis using ok by (simp add: own sched_ok_def)
  qed
  moreover have "workers_with P ?s = workers_with P s" if "\<not> P Top" for P
    using that nw pc by (auto simp: workers_with_def)
  ultimately show ?thesis using ok wk by (auto simp: sched_ok_def counts_ok_def)
qed

lemma run_begin_ok:
  assumes ok: "sched_ok s" and st: "start_ok tid s"
  shows "\<exists>s'. run_begin cb tid s = Inr s' \<and> sched_ok s'"
proof -
  define w1 where "w1 = run_main tid s"
  define w2 where "w2 = snd (new_Fiber tid (Some cb) 0 False w1)"
  define i where "i = fst (new_Fiber tid (Some cb) 0 False w1)"
  let ?s1 = "s\<lparr> sc_world := w1 \<rparr>"
  have s1: "sched_ok ?s1" unfolding w1_def by (rule prologue(1) [OF ok st])
  obtain m where m: "th_scheduler_fiber (fw_tls w1 tid) = Some m" "running w1 tid = Some m" "m \<notin># own s"
    using prologue(2) [OF ok st] unfolding w1_def by blast
  have s2: "sched_ok (s\<lparr> sc_world := w2 \<rparr>)" using new_ok [OF s1, of tid "Some cb" 0] by (simp add: w2_def)
  note nw = new_Fiber_effect [where tid = tid and cb = "Some cb" and sz = 0 and w = w1, folded w2_def i_def]
  have stk1: "stacks_ok w1" using sched_okD(1) [OF s1] by (simp add: world_ok_def)
  have fresh: "ctx_of w1 i = None" "m \<noteq> i"
    using stacks_ok_fresh(1) [OF stk1, of i] nw(1) stacks_ok_live [OF stk1 m(2)] by auto
  have own: "own (s\<lparr> sc_world := w \<rparr>) = own s" for w by (simp add: own_def held_def)
  have i: "i \<notin># own s" using own_known [OF s1, of i] fresh(1) own by auto
  have tls: "th_scheduler_fiber (fw_tls w2 tid) = Some m" "running w2 tid = Some m"
    using m nw(6) fun_cong [OF nw(5), of tid] by (simp_all add: same_mains_def)
  let ?wk = "\<lparr> wk_pc = Top, wk_cb = None, wk_idle = i, wk_main = m \<rparr>"
  have "wk_ok w2 tid ?wk"
    using tls by (auto simp: wk_ok_def kind_ok_def main_fiber_def parked_def resumable_def nw(2,3))
  then have "sched_ok (s\<lparr> sc_world := w2, sc_workers := (sc_workers s)(tid \<mapsto> ?wk) \<rparr>)"
    using add_worker [OF s2, of tid ?wk] st m(3) i fresh(2) own by (simp add: start_ok_def)
  then show ?thesis
    using tls(1) by (simp add: run_begin_def case_prod_beta w1_def [symmetric] w2_def [symmetric] i_def [symmetric])
qed

text \<open>The root thread leaves its main fiber for the root fiber.\<close>

definition root_ok :: "nat \<Rightarrow> 'cb sched \<Rightarrow> bool" where
  "root_ok tid s \<longleftrightarrow> sc_workers s tid = None \<and>
     (\<exists>r m. sc_rootFiber s = Some r \<and> th_thread_fiber (fw_tls (sc_world s) tid) = Some m \<and>
        running (sc_world s) tid = Some m \<and> resumable (ctx_of (sc_world s) r) \<and> r \<noteq> m \<and> r \<notin># own s \<and> m \<notin># own s)"

lemma sched_stop_ok:
  assumes ok: "sched_ok s" and r: "root_ok tid s" and t: "int tid = sc_rootThread s"
  shows "\<exists>b s'. sched_stop tid True s = Inr (b, s') \<and> sched_ok s'"
proof -
  let ?w = "sc_world s"
  obtain r m where rm: "sc_rootFiber s = Some r" "th_thread_fiber (fw_tls ?w tid) = Some m"
    "running ?w tid = Some m" "resumable (ctx_of ?w r)" "r \<noteq> m" "r \<notin># own s" "m \<notin># own s" "sc_workers s tid = None"
    using r by (auto simp: root_ok_def)
  have w: "world_ok ?w" by (rule sched_okD(1) [OF ok])
  have flags: "sched_ok (s\<lparr> sc_autoStop := True, sc_stopping := True \<rparr>)"
    using ok by (simp add: sched_ok_def counts_ok_def workers_with_def own_def held_def)
  have "ctx_of ?w m \<noteq> None" using stacks_ok_live [of ?w tid m] w rm(3) by (simp add: world_ok_def)
  then obtain w' where w': "fiber_call tid r ?w = Inr w'" "\<And>f. f \<noteq> r \<Longrightarrow> f \<noteq> m \<Longrightarrow> st_of w' f = st_of ?w f \<and>
      ctx_of w' f = ctx_of ?w f \<and> stk_of w' f = stk_of ?w f" "\<And>a. a \<noteq> tid \<Longrightarrow> fw_tls w' a = fw_tls ?w a"
    using rm by (auto simp: fiber_call_def setThis_def upd_fiber_def swap_saving_def st_of_def ctx_of_def
        stk_of_def resumable_def split: option.splits)
  have "sched_ok (s\<lparr> sc_world := w' \<rparr>)"
  proof (rule world_frame [OF ok world_ok_call(1) [OF w w'(1)]])
    fix a assume "a \<in> dom (sc_workers s)"
    then have "a \<noteq> tid" using rm(8) by auto
    then show "running w' a = running ?w a \<and> main_fiber a w' = main_fiber a ?w"
      using w'(3) by (simp add: main_fiber_def split: option.split)
  next
    fix f assume f: "f \<in># own s"
    show "st_of w' f = st_of ?w f \<and> ctx_of w' f = ctx_of ?w f \<and> stk_of w' f = stk_of ?w f"
      by (rule w'(2)) (use f rm(6,7) in auto)
  qed
  then have "sched_ok (s\<lparr> sc_autoStop := True, sc_stopping := True, sc_world := w' \<rparr>)"
    by (simp add: sched_ok_def counts_ok_def workers_with_def own_def held_def)
  then show ?thesis
    using w'(1) rm(1) t flags by (auto simp: sched_stop_def Let_def)
qed

section \<open>Disciplined histories\<close>

text \<open>
  The discipline: a fiber is scheduled only when it is suspended (its registers are stored) and
  nobody owns it, that is, it is neither queued nor held by a worker; threads enter \<open>run\<close> and
  \<open>stop\<close> in the places where the framework lets them.
\<close>

fun allowed :: "'cb action \<Rightarrow> 'cb sched \<Rightarrow> bool" where
  "allowed (AStart tid cb) s \<longleftrightarrow> start_ok tid s"
| "allowed (ASchedule t) s \<longleftrightarrow> task_ok (sc_world s) t \<and> (\<forall>f. ft_fiber t = Some f \<longrightarrow> f \<notin># own s)"
| "allowed (AStopRoot tid) s \<longleftrightarrow> root_ok tid s"
| "allowed _ s \<longleftrightarrow> True"

inductive sched_reach :: "'cb sched \<Rightarrow> 'cb sched \<Rightarrow> bool" where
  here: "sched_reach s s"
| step: "sched_reach s s' \<Longrightarrow> allowed a s' \<Longrightarrow> sched_exec a s' = Some (Inr s'') \<Longrightarrow> sched_reach s s''"

lemma sched_exec_ok:
  assumes ok: "sched_ok s" and al: "allowed a s" and ex: "sched_exec a s = Some r"
  shows "\<exists>s'. r = Inr s' \<and> sched_ok s'"
proof (cases a)
  case (AStart tid cb)
  then have "start_ok tid s" "r = run_begin cb tid s" using al ex by (simp_all split: if_splits)
  then show ?thesis using run_begin_ok [OF ok, of tid cb] by simp
next
  case (APick tid)
  then show ?thesis using run_pick_ok [OF ok] ex by (force simp: at_pc_def split: option.splits pc.splits)
next
  case (ADispatch tid)
  then show ?thesis using run_dispatch_ok [OF ok] ex by (auto simp: at_pc_def split: option.splits pc.splits)
next
  case (AIdle tid)
  then show ?thesis using idle_round_ok [OF ok] ex by (auto simp: at_pc_def split: option.splits pc.splits kind.splits)
next
  case (AYield tid st)
  then show ?thesis using fiber_yield_ok [OF ok] ex by (auto simp: at_pc_def split: option.splits pc.splits if_splits)
next
  case (AEnd tid threw)
  then show ?thesis using fiber_end_ok [OF ok] ex by (auto simp: at_pc_def split: option.splits pc.splits if_splits)
next
  case (AOut tid)
  then show ?thesis using fiber_out_ok [OF ok] ex by (auto simp: at_pc_def split: option.splits pc.splits)
next
  case (ADecrement tid)
  then show ?thesis using run_decrement_ok [OF ok] ex by (auto simp: at_pc_def split: option.splits pc.splits)
next
  case (ASettle tid)
  then show ?thesis using run_settle_ok [OF ok] ex by (auto simp: at_pc_def split: option.splits pc.splits)
next
  case (ANew tid cb)
  then show ?thesis using new_ok [OF ok] ex by auto
next
  case (ASchedule t)
  then show ?thesis using schedule_ok [OF ok] al ex by auto
next
  case AStop
  then show ?thesis
    using ok ex by (auto simp: sched_ok_def counts_ok_def workers_with_def own_def held_def)
next
  case (AStopRoot tid)
  then show ?thesis using sched_stop_ok [OF ok, of tid] al ex by (auto split: if_splits)
qed

lemma sched_reach_ok: "sched_reach s s' \<Longrightarrow> sched_ok s \<Longrightarrow> sched_ok s'"
proof (induction rule: sched_reach.induct)
  case (step s s' a s'')
  then show ?case using sched_exec_ok [OF _ step.hyps(2,3)] by auto
qed

lemma empty_ok:
  assumes "world_ok (sc_world s)" "sc_workers s = Map.empty" "sc_fibers s = []" "sc_active s = 0" "sc_idle s = 0"
  shows "sched_ok s"
  using assms by (simp add: sched_ok_def counts_ok_def workers_with_def own_def held_def)

lemma new_Scheduler_ok:
  assumes "world_ok w" "new_Scheduler tid noSched threads useCaller cb w = Inr s"
  shows "sched_ok s"
proof -
  let ?v = "snd (new_Fiber tid (Some cb) 0 True (snd (getThis tid w)))"
  have "world_ok ?v" by (rule world_ok_new_Fiber [OF world_ok_getThis(1) [OF assms(1)]])
  then have "world_ok (set_scheduler_fiber tid f ?v)" for f
    by (auto simp: set_scheduler_fiber_def world_ok_def stacks_ok_def this_ok_def ctx_of_def)
  then have "world_ok (sc_world s)"
    using assms by (auto simp: new_Scheduler_def Let_def case_prod_beta split: if_splits)
  then show ?thesis
    using assms(2) by (intro empty_ok) (auto simp: new_Scheduler_def Let_def case_prod_beta split: if_splits)
qed

fun sched_run :: "'cb action list \<Rightarrow> 'cb sched \<Rightarrow> 'cb sched result option" where
  "sched_run [] s = Some (Inr s)"
| "sched_run (a # as) s =
    (case sched_exec a s of
       None \<Rightarrow> None
     | Some (Inl e) \<Rightarrow> Some (Inl e)
     | Some (Inr s') \<Rightarrow> sched_run as s')"

section \<open>Properties\<close>

text \<open>
  C21: In every disciplined history of a scheduler, with any number of worker threads interleaved in
  any way, with or without the caller's thread, no assertion of \<open>fiber.cpp\<close> and \<open>scheduler.cpp\<close>
  fails, no null fiber is followed and no stack in use is switched to.
\<close>

theorem scheduler_never_faults:
  assumes "new_Scheduler tid True threads useCaller cb new_fworld = Inr s0" "sched_reach s0 s" "allowed a s"
  shows "sched_exec a s \<noteq> Some (Inl e)"
  using sched_exec_ok [OF sched_reach_ok [OF assms(2) new_Scheduler_ok [OF world_ok_new assms(1)]] assms(3)]
  by (metis Inl_Inr_False)

definition sched_demo :: "string sched" where
  "sched_demo = \<lparr> sc_world = new_fworld, sc_fibers = [], sc_active = 0, sc_idle = 0, sc_stopping = True,
     sc_autoStop = False, sc_rootThread = -1, sc_rootFiber = None, sc_threadCount = 2, sc_workers = Map.empty \<rparr>"

lemma sched_demo_new: "new_Scheduler 9 True 2 False cb new_fworld = Inr sched_demo"
  by (simp add: new_Scheduler_def sched_demo_def)

theorem scheduler_never_faults_witness:
  "sched_exec (AStart 1 ''idle'') sched_demo \<noteq> Some (Inl AssertFailed)"
proof -
  have "allowed (AStart 1 ''idle'') sched_demo"
    by (simp add: start_ok_def sched_demo_def new_fworld_def)
  then show ?thesis using scheduler_never_faults [OF sched_demo_new sched_reach.here] by blast
qed



text \<open>
  The scan of the queue takes the first task that this thread may run (not pinned to another
  thread, its fiber not executing), leaves the order of the others unchanged, and returns nothing
  only when no task is runnable.
\<close>

theorem scan_takes_first_runnable:
  assumes "\<forall>t \<in> set ts. ft_fiber t \<noteq> None \<or> ft_callback t \<noteq> None" "scan tid st ts b = Inr (k, r, q)"
  shows "case r of None \<Rightarrow> q = ts \<and> (\<forall>t \<in> set ts. \<not> runnable tid st t)
    | Some t \<Rightarrow> \<exists>us vs. ts = us @ t # vs \<and> q = us @ vs \<and> runnable tid st t \<and> (\<forall>u \<in> set us. \<not> runnable tid st u)"
  using scan_correct [OF assms(1), of tid st b] assms(2) by auto

theorem scan_takes_first_runnable_witness:
  "runnable 2 Map.empty \<lparr> ft_fiber = None, ft_callback = Some ''b'', ft_thread = -1 \<rparr> \<and>
   \<not> runnable 2 (Map.empty :: nat \<rightharpoonup> FiberState) \<lparr> ft_fiber = None, ft_callback = Some ''a'', ft_thread = 1 \<rparr>"
proof -
  let ?a = "\<lparr> ft_fiber = None, ft_callback = Some ''a'', ft_thread = 1 \<rparr>"
    and ?b = "\<lparr> ft_fiber = None, ft_callback = Some ''b'', ft_thread = -1 \<rparr>"
  have "scan 2 Map.empty [?a, ?b] False = Inr (True, Some ?b, [?a])" by simp
  from scan_takes_first_runnable [OF _ this] show ?thesis by (auto simp: runnable_def)
qed


lemmas run_defs = sched_demo_def new_fworld_def run_begin_def run_main_def getThis_def new_main_Fiber_def
  set_scheduler_fiber_def new_Fiber_def at_pc_def run_pick_def run_dispatch_def dispatch_callback_def
  dispatch_fiber_def swapIn_def setThis_def upd_fiber_def main_fiber_def swap_saving_def schedule_def
  scheduleLock_def fiber_yield_def yield_mark_def st_of_def set_pc_def upd_tls_def alive_def

definition race_actions :: "string action list" where
  "race_actions = [AStart 1 ''idle'', AStart 2 ''idle'',
     ASchedule \<lparr> ft_fiber = None, ft_callback = Some ''job'', ft_thread = -1 \<rparr>, APick 1, ADispatch 1,
     ASchedule \<lparr> ft_fiber = Some 5, ft_callback = None, ft_thread = -1 \<rparr>, AYield 1 Holding, APick 2]"

lemma race_state:
  "\<exists>s wk t. sched_run race_actions sched_demo = Some (Inr s) \<and> running (sc_world s) 1 = Some 5 \<and>
     st_of (sc_world s) 5 = Some Holding \<and> running (sc_world s) 2 = Some 3 \<and> main_fiber 2 (sc_world s) = Some 3 \<and>
     sc_workers s 2 = Some wk \<and> wk_pc wk = Picked (Some t) \<and> ft_fiber t = Some 5"
  by (simp add: race_actions_def run_defs)

text \<open>The steps of the race keep the invariant of the stacks, though they break the discipline.\<close>

lemma dispatch_world:
  assumes w: "world_ok (sc_world s)" and ex: "run_dispatch tid wk t s = Inr s'"
  shows "world_ok (sc_world s')"
proof -
  have df: "world_ok (sc_world r)" if "dispatch_fiber tid wk' f k v = Inr r" "world_ok (sc_world v)"
    for wk' f k v and r :: "'a sched"
    using that world_ok_swapIn(1) by (auto simp: dispatch_fiber_def)
  have dc: "world_ok (sc_world r)" if r: "dispatch_callback tid wk cb s = Inr r" for cb r
  proof (cases "wk_cb wk")
    case None
    then show ?thesis
      using r df world_ok_new_Fiber [OF w] by (simp add: dispatch_callback_def case_prod_beta Let_def)
  next
    case (Some c)
    then obtain v where "fiber_reset c (Some cb) (sc_world s) = Inr v"
      "dispatch_fiber tid wk c KCb (s\<lparr> sc_world := v \<rparr>) = Inr r"
      using r by (auto simp: dispatch_callback_def)
    then show ?thesis using df world_ok_reset [OF w] by simp
  qed
  have di: "world_ok (sc_world r)" if r: "dispatch_idle tid wk s = Inr r" for r
  proof (cases "st_of (sc_world s) (wk_idle wk)")
    case (Some st)
    then show ?thesis using r w df by (cases "st = Terminate") (auto simp: dispatch_idle_def)
  qed (use r in \<open>simp add: dispatch_idle_def\<close>)
  show ?thesis
    using ex w df [OF _ w] dc di
    by (auto simp: run_dispatch_def Let_def split: option.splits if_splits)
qed

lemma race_world:
  assumes "world_ok (sc_world s)" "sched_run as s = Some (Inr s')"
    and "\<And>a. a \<in> set as \<Longrightarrow> (\<exists>t cb. a = AStart t cb) \<or> (\<exists>t. a = ASchedule t) \<or> (\<exists>t. a = APick t) \<or>
      (\<exists>t. a = ADispatch t) \<or> (\<exists>t st. a = AYield t st)"
  shows "world_ok (sc_world s')"
  using assms
proof (induction as arbitrary: s)
  case (Cons a as)
  have w: "world_ok (sc_world s)" by (rule Cons.prems(1))
  obtain r where r: "sched_exec a s = Some (Inr r)" "sched_run as r = Some (Inr s')"
    using Cons.prems(2) by (auto split: option.splits sum.splits)
  have "world_ok (set_scheduler_fiber tid f v)" if "world_ok v" for tid f and v :: "'a fworld"
    using that by (auto simp: set_scheduler_fiber_def world_ok_def stacks_ok_def this_ok_def ctx_of_def)
  then have rm: "world_ok (run_main tid s)" for tid
    using world_ok_getThis(1) [OF w] w by (simp add: run_main_def case_prod_beta Let_def)
  have "world_ok (sc_world r)"
  proof (cases a)
    case (AStart tid cb)
    then show ?thesis
      using r(1) world_ok_new_Fiber [OF rm]
      by (auto simp: run_begin_def case_prod_beta split: if_splits option.splits)
  next
    case (APick tid)
    then show ?thesis using r(1) w by (auto simp: at_pc_def run_pick_def split: option.splits pc.splits)
  next
    case (ADispatch tid)
    then show ?thesis using r(1) dispatch_world [OF w] by (auto simp: at_pc_def split: option.splits pc.splits)
  next
    case (AYield tid st)
    then show ?thesis
      using r(1) world_ok_mark(1) [OF w]
      by (auto simp: at_pc_def fiber_yield_def split: option.splits pc.splits if_splits)
  next
    case (ASchedule t)
    then show ?thesis using r(1) w by (auto simp: schedule_def scheduleLock_def)
  qed (use Cons.prems(3) [of a] in auto)
  then show ?case using Cons.IH [OF _ r(2)] Cons.prems(3) by simp
qed simp


end
