(* ===== verification/TimerManager.thy ===== *)
theory TimerManager
  imports OrderedSet
begin

text \<open>
  \<open>src/timer.cpp\<close>: timers in a \<open>std::set\<close> ordered by expiry time and then by address, and the
  manager that hands out the callbacks that are due. A \<open>Timer\<close> object lives at an address; the
  set holds addresses, and its comparator reads the objects. The clock is an argument \<open>now\<close>
  of the operations that read it. Times are 64-bit counters of milliseconds and wrap around.
\<close>

section \<open>State\<close>

record 'cb timer =
  tm_recurring :: bool
  tm_ms :: nat
  tm_next :: nat
  tm_callback :: "'cb option"
  tm_cancelled :: bool

record 'cb manager =
  mg_heap :: "nat \<rightharpoonup> 'cb timer"
  mg_timers :: "nat list"
  mg_tickled :: bool
  mg_previousTime :: nat

definition add64 :: "nat \<Rightarrow> nat \<Rightarrow> nat" where
  "add64 a b = (a + b) mod 2 ^ 64"

definition new_Timer :: "nat \<Rightarrow> nat \<Rightarrow> 'cb option \<Rightarrow> bool \<Rightarrow> 'cb timer" where
  "new_Timer now ms callback recurring =
    \<lparr> tm_recurring = recurring, tm_ms = ms, tm_next = add64 now ms, tm_callback = callback,
      tm_cancelled = False \<rparr>"

definition new_TimerManager :: "nat \<Rightarrow> 'cb manager" where
  "new_TimerManager now =
    \<lparr> mg_heap = Map.empty, mg_timers = [], mg_tickled = False, mg_previousTime = now \<rparr>"

text \<open>\<open>Timer::Comparator\<close>; None is a null pointer.\<close>

definition Comparator :: "(nat \<rightharpoonup> 'cb timer) \<Rightarrow> nat option \<Rightarrow> nat option \<Rightarrow> bool" where
  "Comparator h lhs rhs =
    (case (lhs, rhs) of
       (None, None) \<Rightarrow> False
     | (None, Some _) \<Rightarrow> True
     | (Some _, None) \<Rightarrow> False
     | (Some a, Some b) \<Rightarrow>
         (case (h a, h b) of
            (Some x, Some y) \<Rightarrow>
              if tm_next x < tm_next y then True
              else if tm_next y < tm_next x then False
              else a < b
          | _ \<Rightarrow> False))"

definition before :: "(nat \<rightharpoonup> 'cb timer) \<Rightarrow> nat \<Rightarrow> nat \<Rightarrow> bool" where
  "before h a b = Comparator h (Some a) (Some b)"

section \<open>Operations\<close>

text \<open>
  The protected \<open>addTimer\<close>: insert, and say whether \<open>onTimerInsertedAtFront\<close> is called.
\<close>

definition addTimer_locked :: "nat \<Rightarrow> 'cb manager \<Rightarrow> bool \<times> 'cb manager" where
  "addTimer_locked t m =
    (let (it, timers) = oset_insert (before (mg_heap m)) t (mg_timers m);
         atFront = (it = hd timers \<and> \<not> mg_tickled m) in
     (atFront, m\<lparr> mg_timers := timers, mg_tickled := (atFront \<or> mg_tickled m) \<rparr>))"

text \<open>\<open>addTimer\<close> makes an object at an address the allocator gives.\<close>

definition addTimer :: "nat \<Rightarrow> nat \<Rightarrow> nat \<Rightarrow> 'cb option \<Rightarrow> bool \<Rightarrow> 'cb manager \<Rightarrow> bool \<times> 'cb manager" where
  "addTimer addr now ms callback recurring m =
    addTimer_locked addr (m\<lparr> mg_heap := (mg_heap m)(addr \<mapsto> new_Timer now ms callback recurring) \<rparr>)"

text \<open>\<open>onTimer\<close>: the callback of a condition timer runs only while its condition is alive.\<close>

definition onTimer :: "bool \<Rightarrow> 'cb \<Rightarrow> 'cb list" where
  "onTimer alive callback = (if alive then [callback] else [])"

definition timer_cancel :: "nat \<Rightarrow> 'cb manager \<Rightarrow> bool \<times> 'cb manager" where
  "timer_cancel t m =
    (case mg_heap m t of
       None \<Rightarrow> (False, m)
     | Some x \<Rightarrow>
         if tm_callback x \<noteq> None then
           let h = (mg_heap m)(t \<mapsto> x\<lparr> tm_callback := None \<rparr>) in
           (True, m\<lparr> mg_heap := h, mg_timers := oset_erase (before h) t (mg_timers m) \<rparr>)
         else (False, m))"

definition timer_refresh :: "nat \<Rightarrow> nat \<Rightarrow> 'cb manager \<Rightarrow> bool \<times> 'cb manager" where
  "timer_refresh now t m =
    (case mg_heap m t of
       None \<Rightarrow> (False, m)
     | Some x \<Rightarrow>
         if tm_callback x = None then (False, m)
         else if oset_find (before (mg_heap m)) t (mg_timers m) = None then (False, m)
         else
           let timers = oset_erase (before (mg_heap m)) t (mg_timers m);
               h = (mg_heap m)(t \<mapsto> x\<lparr> tm_next := add64 now (tm_ms x) \<rparr>) in
           (True, m\<lparr> mg_heap := h, mg_timers := snd (oset_insert (before h) t timers) \<rparr>))"

text \<open>The first component says whether \<open>onTimerInsertedAtFront\<close> is called.\<close>

definition timer_reset :: "nat \<Rightarrow> nat \<Rightarrow> bool \<Rightarrow> nat \<Rightarrow> 'cb manager \<Rightarrow> bool \<times> bool \<times> 'cb manager" where
  "timer_reset now ms fromNow t m =
    (case mg_heap m t of
       None \<Rightarrow> (False, False, m)
     | Some x \<Rightarrow>
         if ms = tm_ms x \<and> \<not> fromNow then (False, True, m)
         else if tm_callback x = None then (False, False, m)
         else if oset_find (before (mg_heap m)) t (mg_timers m) = None then (False, False, m)
         else
           let timers = oset_erase (before (mg_heap m)) t (mg_timers m);
               start = (if fromNow then now else usub64 (tm_next x) (tm_ms x));
               h = (mg_heap m)(t \<mapsto> x\<lparr> tm_ms := ms, tm_next := add64 start ms \<rparr>);
               (atFront, m') = addTimer_locked t (m\<lparr> mg_heap := h, mg_timers := timers \<rparr>) in
           (atFront, True, m'))"

definition getNextTimer :: "nat \<Rightarrow> 'cb manager \<Rightarrow> nat \<times> 'cb manager" where
  "getNextTimer now m0 =
    (let m = m0\<lparr> mg_tickled := False \<rparr> in
     case mg_timers m of
       [] \<Rightarrow> (2 ^ 64 - 1, m)
     | t # _ \<Rightarrow>
         (case mg_heap m t of
            None \<Rightarrow> (0, m)
          | Some x \<Rightarrow> if tm_next x \<le> now then (0, m) else (tm_next x - now, m)))"

definition detectClockRollover :: "nat \<Rightarrow> 'cb manager \<Rightarrow> bool \<times> 'cb manager" where
  "detectClockRollover nowMs m =
    (nowMs < mg_previousTime m \<and> nowMs < usub64 (mg_previousTime m) (60 * 60 * 1000),
     m\<lparr> mg_previousTime := nowMs \<rparr>)"

definition next_of :: "(nat \<rightharpoonup> 'cb timer) \<Rightarrow> nat \<Rightarrow> nat" where
  "next_of h t = (case h t of None \<Rightarrow> 0 | Some x \<Rightarrow> tm_next x)"

text \<open>The range of the set that has expired: up to \<open>lower_bound\<close> of a temporary timer at \<open>addr\<close>
  that stands for the present, and then over the timers due right now.\<close>

definition expired_range :: "nat \<Rightarrow> bool \<Rightarrow> nat \<Rightarrow> 'cb manager \<Rightarrow> nat" where
  "expired_range addr rollover now m =
    (let h = (mg_heap m)(addr \<mapsto> \<lparr> tm_recurring = False, tm_ms = 0, tm_next = now,
                                    tm_callback = None, tm_cancelled = False \<rparr>);
         it = (if rollover then length (mg_timers m)
               else length (takeWhile (\<lambda>t. before h t addr) (mg_timers m))) in
     it + length (takeWhile (\<lambda>t. next_of h t = now) (drop it (mg_timers m))))"

text \<open>The loop over the expired timers: recurring ones go back into the set.\<close>

fun reschedule :: "nat \<Rightarrow> nat list \<Rightarrow> 'cb manager \<Rightarrow> 'cb option list \<times> 'cb manager" where
  "reschedule now [] m = ([], m)"
| "reschedule now (t # ts) m =
    (case mg_heap m t of
       None \<Rightarrow> reschedule now ts m
     | Some x \<Rightarrow>
         let m' = (if tm_recurring x then
                     let h = (mg_heap m)(t \<mapsto> x\<lparr> tm_next := add64 now (tm_ms x) \<rparr>) in
                     m\<lparr> mg_heap := h, mg_timers := snd (oset_insert (before h) t (mg_timers m)) \<rparr>
                   else m\<lparr> mg_heap := (mg_heap m)(t \<mapsto> x\<lparr> tm_callback := None \<rparr>) \<rparr>);
             (cbs, m'') = reschedule now ts m' in
         (tm_callback x # cbs, m''))"

definition listExpiredCb :: "nat \<Rightarrow> nat \<Rightarrow> 'cb manager \<Rightarrow> 'cb option list \<times> 'cb manager" where
  "listExpiredCb addr now m0 =
    (if mg_timers m0 = [] then ([], m0)
     else
       let (rollover, m) = detectClockRollover now m0 in
       if \<not> rollover \<and> now < next_of (mg_heap m) (hd (mg_timers m)) then ([], m)
       else
         let it = expired_range addr rollover now m in
         reschedule now (take it (mg_timers m)) (m\<lparr> mg_timers := drop it (mg_timers m) \<rparr>))"

definition hasTimer :: "'cb manager \<Rightarrow> bool" where
  "hasTimer m \<longleftrightarrow> mg_timers m \<noteq> []"

section \<open>The comparator orders live timers\<close>

lemma before_iff:
  "before h a b \<longleftrightarrow> (\<exists>x y. h a = Some x \<and> h b = Some y \<and>
     (tm_next x < tm_next y \<or> tm_next x = tm_next y \<and> a < b))"
  by (auto simp: before_def Comparator_def split: option.splits if_splits)

interpretation tset: ordered_set "before h" "dom h"
  by unfold_locales (auto simp: before_iff)

section \<open>Invariant\<close>

abbreviation timers_ok :: "(nat \<rightharpoonup> 'cb timer) \<Rightarrow> nat list \<Rightarrow> bool" where
  "timers_ok h \<equiv> oset_ok (before h) (dom h)"

text \<open>The set holds live timers in order, and each of them has a callback.\<close>

declare dom_fun_upd [simp del]

lemma dom_upd_self [simp]: "t \<in> dom (h(t \<mapsto> x))"
  by auto

definition armed :: "(nat \<rightharpoonup> 'cb timer) \<Rightarrow> nat list \<Rightarrow> bool" where
  "armed h ts \<longleftrightarrow> (\<forall>t \<in> set ts. \<exists>x. h t = Some x \<and> tm_callback x \<noteq> None)"

definition mg_wf :: "'cb manager \<Rightarrow> bool" where
  "mg_wf m \<longleftrightarrow> timers_ok (mg_heap m) (mg_timers m) \<and> armed (mg_heap m) (mg_timers m)"

lemma mg_wf_new: "mg_wf (new_TimerManager now)"
  by (simp add: mg_wf_def new_TimerManager_def oset_ok_def armed_def)

lemma before_cong:
  "map_option tm_next (h a) = map_option tm_next (g a) \<Longrightarrow>
   map_option tm_next (h b) = map_option tm_next (g b) \<Longrightarrow> before h a b = before g a b"
  by (cases "h a"; cases "g a"; cases "h b"; cases "g b") (auto simp: before_iff)

lemma ok_cong:
  assumes "timers_ok h ts" "\<And>t. t \<in> set ts \<Longrightarrow> map_option tm_next (g t) = map_option tm_next (h t)"
  shows "timers_ok g ts"
proof -
  have "sorted_wrt (before g) ts"
    by (rule sorted_wrt_mono_rel [of _ "before h"])
      (use assms before_cong [of g _ h] in \<open>auto simp: oset_ok_def\<close>)
  moreover have "t \<in> dom g" if "t \<in> set ts" for t
    using assms(1) assms(2) [OF that] that unfolding oset_ok_def by (metis domIff option.map_disc_iff subsetD)
  ultimately show ?thesis using assms(1) by (auto simp: oset_ok_def)
qed

lemma ok_upd: "timers_ok h ts \<Longrightarrow> t \<notin> set ts \<Longrightarrow> timers_ok (h(t \<mapsto> x)) ts"
  by (rule ok_cong [of h]) auto

lemma armed_upd: "armed h ts \<Longrightarrow> t \<notin> set ts \<Longrightarrow> armed (h(t \<mapsto> x)) ts"
  by (auto simp: armed_def)

lemma addTimer_locked_wf:
  assumes "timers_ok (mg_heap m) (mg_timers m)" "armed (mg_heap m) (mg_timers m)"
    "mg_heap m t = Some x" "tm_callback x \<noteq> None"
  shows "mg_wf (snd (addTimer_locked t m))"
    "set (mg_timers (snd (addTimer_locked t m))) = insert t (set (mg_timers m))"
    "mg_heap (snd (addTimer_locked t m)) = mg_heap m"
proof -
  have t: "t \<in> dom (mg_heap m)" using assms(3) by auto
  note ins = tset.insert_result [OF assms(1) t]
  show s: "set (mg_timers (snd (addTimer_locked t m))) = insert t (set (mg_timers m))"
    using ins(2) by (simp add: addTimer_locked_def case_prod_beta Let_def)
  show h: "mg_heap (snd (addTimer_locked t m)) = mg_heap m"
    by (simp add: addTimer_locked_def case_prod_beta Let_def)
  have "armed (mg_heap m) (mg_timers (snd (addTimer_locked t m)))"
    using assms(2-4) s by (auto simp: armed_def)
  moreover have "timers_ok (mg_heap m) (mg_timers (snd (addTimer_locked t m)))"
    using ins(3) by (simp add: addTimer_locked_def case_prod_beta Let_def)
  ultimately show "mg_wf (snd (addTimer_locked t m))" unfolding mg_wf_def h by blast
qed

lemma addTimer_wf:
  assumes "mg_wf m" "mg_heap m addr = None" "cb \<noteq> None"
  shows "mg_wf (snd (addTimer addr now ms cb recurring m))"
proof -
  have "addr \<notin> set (mg_timers m)" using assms(1,2) by (auto simp: mg_wf_def oset_ok_def)
  then show ?thesis
    unfolding addTimer_def using assms
    by (intro addTimer_locked_wf(1) [where x = "new_Timer now ms cb recurring"])
      (simp_all add: mg_wf_def new_Timer_def ok_upd armed_upd)
qed

lemma timer_cancel_wf:
  assumes "mg_wf m"
  shows "mg_wf (snd (timer_cancel t m))" "t \<notin> set (mg_timers (snd (timer_cancel t m))) \<or> mg_heap m t = None"
proof -
  have both: "mg_wf (snd (timer_cancel t m)) \<and>
      (t \<notin> set (mg_timers (snd (timer_cancel t m))) \<or> mg_heap m t = None)"
  proof (cases "mg_heap m t")
    case None
    then show ?thesis using assms by (simp add: timer_cancel_def)
  next
    case (Some x)
    show ?thesis
    proof (cases "tm_callback x = None")
      case True
      then have "t \<notin> set (mg_timers m)" using assms Some by (auto simp: mg_wf_def armed_def)
      then show ?thesis using True Some assms by (simp add: timer_cancel_def)
    next
      case False
      let ?h = "(mg_heap m)(t \<mapsto> x\<lparr> tm_callback := None \<rparr>)"
      have ok: "timers_ok ?h (mg_timers m)"
        by (rule ok_cong [of "mg_heap m"]) (use assms Some in \<open>auto simp: mg_wf_def\<close>)
      have "oset_erase (before ?h) t (mg_timers m) = filter (\<lambda>b. b \<noteq> t) (mg_timers m)"
        using tset.erase_eq [OF ok, of t] by simp
      moreover have "armed ?h (filter (\<lambda>b. b \<noteq> t) (mg_timers m))"
        using assms by (auto simp: mg_wf_def armed_def)
      ultimately show ?thesis
        using False Some tset.ok_filter [OF ok, of "\<lambda>b. b \<noteq> t"]
        by (simp add: timer_cancel_def mg_wf_def Let_def)
    qed
  qed
  show "mg_wf (snd (timer_cancel t m))" using both by blast
  show "t \<notin> set (mg_timers (snd (timer_cancel t m))) \<or> mg_heap m t = None"
    using both by (rule conjunct2)
qed

lemma rearm:
  assumes wf: "mg_wf m" and x: "mg_heap m t = Some x" "tm_callback x \<noteq> None"
    and y: "tm_callback y \<noteq> None"
  defines "h \<equiv> (mg_heap m)(t \<mapsto> y)" and "ts \<equiv> oset_erase (before (mg_heap m)) t (mg_timers m)"
  shows "ts = filter (\<lambda>b. b \<noteq> t) (mg_timers m)" "timers_ok h ts" "armed h ts"
proof -
  have t: "t \<in> dom (mg_heap m)" using x by auto
  have ok: "timers_ok (mg_heap m) (mg_timers m)" using wf by (simp add: mg_wf_def)
  show ts: "ts = filter (\<lambda>b. b \<noteq> t) (mg_timers m)" unfolding ts_def using tset.erase_eq [OF ok t] .
  show "timers_ok h ts" unfolding h_def ts by (rule ok_upd [OF tset.ok_filter [OF ok]]) simp
  show "armed h ts" unfolding h_def ts using wf by (auto simp: mg_wf_def armed_def)
qed

lemma timer_refresh_wf:
  assumes wf: "mg_wf m"
  shows "mg_wf (snd (timer_refresh now t m))"
proof (cases "mg_heap m t")
  case None
  then show ?thesis using wf by (simp add: timer_refresh_def)
next
  case (Some x)
  show ?thesis
  proof (cases "tm_callback x = None \<or> oset_find (before (mg_heap m)) t (mg_timers m) = None")
    case True
    then show ?thesis using wf Some by (auto simp: timer_refresh_def)
  next
    case False
    let ?y = "x\<lparr> tm_next := add64 now (tm_ms x) \<rparr>"
    let ?h = "(mg_heap m)(t \<mapsto> ?y)" and ?ts = "oset_erase (before (mg_heap m)) t (mg_timers m)"
    have r: "timers_ok ?h ?ts" "armed ?h ?ts"
      using rearm(2,3) [OF wf Some, of ?y] False by auto
    have "armed ?h (snd (oset_insert (before ?h) t ?ts))"
      using r(2) tset.insert_result(2) [OF r(1), of t] False by (auto simp: armed_def)
    then show ?thesis
      using tset.insert_result(3) [OF r(1), of t] False Some
      by (auto simp: timer_refresh_def mg_wf_def Let_def)
  qed
qed

lemma timer_reset_wf:
  assumes wf: "mg_wf m"
  shows "mg_wf (snd (snd (timer_reset now ms fromNow t m)))"
proof (cases "mg_heap m t")
  case None
  then show ?thesis using wf by (simp add: timer_reset_def)
next
  case (Some x)
  show ?thesis
  proof (cases "(ms = tm_ms x \<and> \<not> fromNow) \<or> tm_callback x = None \<or>
      oset_find (before (mg_heap m)) t (mg_timers m) = None")
    case True
    then show ?thesis using wf Some by (auto simp: timer_reset_def)
  next
    case False
    let ?start = "if fromNow then now else usub64 (tm_next x) (tm_ms x)"
    let ?y = "x\<lparr> tm_ms := ms, tm_next := add64 ?start ms \<rparr>"
    let ?h = "(mg_heap m)(t \<mapsto> ?y)" and ?ts = "oset_erase (before (mg_heap m)) t (mg_timers m)"
    have r: "timers_ok ?h ?ts" "armed ?h ?ts"
      using rearm(2,3) [OF wf Some, of ?y] False by auto
    have "mg_wf (snd (addTimer_locked t (m\<lparr> mg_heap := ?h, mg_timers := ?ts \<rparr>)))"
      using r False by (intro addTimer_locked_wf(1) [of _ t ?y]) auto
    then show ?thesis using False Some by (auto simp: timer_reset_def case_prod_beta Let_def)
  qed
qed

section \<open>Expiry\<close>

lemma next_of_Some [simp]: "h t = Some x \<Longrightarrow> next_of h t = tm_next x"
  by (simp add: next_of_def)

lemma before_next: "before h a b \<Longrightarrow> next_of h a \<le> next_of h b"
  by (auto simp: before_iff)

lemma ok_next_sorted: "timers_ok h (t # ts) \<Longrightarrow> u \<in> set ts \<Longrightarrow> next_of h t \<le> next_of h u"
  by (rule before_next) (simp add: oset_ok_def)

text \<open>Whatever address the temporary timer gets, the range is the timers due by now.\<close>

lemma expired_range_eq:
  assumes "timers_ok (mg_heap m) (mg_timers m)" "addr \<notin> set (mg_timers m)"
  shows "expired_range addr False now m
       = length (takeWhile (\<lambda>t. next_of (mg_heap m) t \<le> now) (mg_timers m))"
proof -
  define h where "h = (mg_heap m)(addr \<mapsto> \<lparr> tm_recurring = False, tm_ms = 0, tm_next = now,
    tm_callback = None, tm_cancelled = False \<rparr> :: 'a timer)"
  let ?P = "\<lambda>t. before h t addr"
  have "length (takeWhile ?P ts) + length (takeWhile (\<lambda>t. next_of h t = now) (drop (length (takeWhile ?P ts)) ts))
      = length (takeWhile (\<lambda>t. next_of h t \<le> now) ts)"
    if "timers_ok (mg_heap m) ts" "addr \<notin> set ts" for ts
    using that
  proof (induction ts)
    case (Cons t ts)
    obtain x where x: "mg_heap m t = Some x" using Cons.prems(1) by (auto simp: oset_ok_def)
    have hx: "h t = Some x" using x Cons.prems(2) by (simp add: h_def)
    have P: "?P t \<longleftrightarrow> tm_next x < now \<or> tm_next x = now \<and> t < addr"
      using hx by (auto simp: before_iff h_def)
    show ?case
    proof (cases "?P t")
      case True
      then have "next_of h t \<le> now" using P hx by auto
      moreover have "timers_ok (mg_heap m) ts" using Cons.prems(1) by (simp add: oset_ok_def)
      ultimately show ?thesis using True Cons by simp
    next
      case False
      then have ge: "now \<le> next_of h t" using P hx by auto
      have "now \<le> next_of h u" if u: "u \<in> set ts" for u
      proof -
        have "next_of (mg_heap m) u = next_of h u" using u Cons.prems(2) by (auto simp: h_def next_of_def)
        then show ?thesis using ok_next_sorted [OF Cons.prems(1) u] ge hx x by simp
      qed
      then have "next_of h u = now \<longleftrightarrow> next_of h u \<le> now" if "u \<in> set (t # ts)" for u
        using ge that by (auto intro: le_antisym)
      then have "takeWhile (\<lambda>t. next_of h t = now) (t # ts) = takeWhile (\<lambda>t. next_of h t \<le> now) (t # ts)"
        by (intro takeWhile_cong) auto
      then show ?thesis using False by simp
    qed
  qed simp
  then have "expired_range addr False now m = length (takeWhile (\<lambda>t. next_of h t \<le> now) (mg_timers m))"
    using assms by (simp add: expired_range_def h_def Let_def)
  moreover have "takeWhile (\<lambda>t. next_of h t \<le> now) (mg_timers m)
      = takeWhile (\<lambda>t. next_of (mg_heap m) t \<le> now) (mg_timers m)"
    using assms(2) by (intro takeWhile_cong) (auto simp: h_def next_of_def)
  ultimately show ?thesis by simp
qed

lemma takeWhile_sorted_filter:
  assumes "timers_ok h ts"
  shows "takeWhile (\<lambda>t. next_of h t \<le> now) ts = filter (\<lambda>t. next_of h t \<le> now) ts"
    "dropWhile (\<lambda>t. next_of h t \<le> now) ts = filter (\<lambda>t. now < next_of h t) ts"
proof -
  have both: "takeWhile (\<lambda>t. next_of h t \<le> now) ts = filter (\<lambda>t. next_of h t \<le> now) ts \<and>
      dropWhile (\<lambda>t. next_of h t \<le> now) ts = filter (\<lambda>t. now < next_of h t) ts"
    using assms
  proof (induction ts)
    case (Cons t ts)
    have ok: "timers_ok h ts" using Cons.prems by (simp add: oset_ok_def)
    show ?case
    proof (cases "next_of h t \<le> now")
      case True
      then show ?thesis using Cons.IH [OF ok] by auto
    next
      case False
      then have "\<forall>u \<in> set ts. now < next_of h u"
        using ok_next_sorted [OF Cons.prems] by fastforce
      then have "filter (\<lambda>t. next_of h t \<le> now) ts = []" "filter (\<lambda>t. now < next_of h t) ts = ts"
        by (auto simp: filter_empty_conv not_le)
      then show ?thesis using False by simp
    qed
  qed simp
  show "takeWhile (\<lambda>t. next_of h t \<le> now) ts = filter (\<lambda>t. next_of h t \<le> now) ts"
    using both by (rule conjunct1)
  show "dropWhile (\<lambda>t. next_of h t \<le> now) ts = filter (\<lambda>t. now < next_of h t) ts"
    using both by (rule conjunct2)
qed

text \<open>What firing does to a timer object.\<close>

definition fire :: "nat \<Rightarrow> 'cb timer \<Rightarrow> 'cb timer" where
  "fire now x = (if tm_recurring x then x\<lparr> tm_next := add64 now (tm_ms x) \<rparr>
                 else x\<lparr> tm_callback := None \<rparr>)"

definition recurs :: "(nat \<rightharpoonup> 'cb timer) \<Rightarrow> nat \<Rightarrow> bool" where
  "recurs h t \<longleftrightarrow> (case h t of None \<Rightarrow> False | Some x \<Rightarrow> tm_recurring x)"

lemma reschedule_correct:
  assumes "timers_ok (mg_heap m) (mg_timers m)" "armed (mg_heap m) (mg_timers m)" "distinct ts"
    "armed (mg_heap m) ts" "set ts \<inter> set (mg_timers m) = {}"
  shows "fst (reschedule now ts m) = map (\<lambda>t. tm_callback (the (mg_heap m t))) ts \<and>
         timers_ok (mg_heap (snd (reschedule now ts m))) (mg_timers (snd (reschedule now ts m))) \<and>
         armed (mg_heap (snd (reschedule now ts m))) (mg_timers (snd (reschedule now ts m))) \<and>
         set (mg_timers (snd (reschedule now ts m))) = set (mg_timers m) \<union> {t \<in> set ts. recurs (mg_heap m) t} \<and>
         mg_heap (snd (reschedule now ts m))
           = (\<lambda>t. if t \<in> set ts then map_option (fire now) (mg_heap m t) else mg_heap m t)"
  using assms
proof (induction ts arbitrary: m)
  case (Cons t ts)
  obtain x where x: "mg_heap m t = Some x" "tm_callback x \<noteq> None"
    using Cons.prems(4) by (auto simp: armed_def)
  have tn: "t \<notin> set ts" "t \<notin> set (mg_timers m)" using Cons.prems(3,5) by auto
  define h where "h = (mg_heap m)(t \<mapsto> fire now x)"
  define m' where "m' = (if tm_recurring x
      then m\<lparr> mg_heap := h, mg_timers := snd (oset_insert (before h) t (mg_timers m)) \<rparr>
      else m\<lparr> mg_heap := h \<rparr>)"
  have res: "reschedule now (t # ts) m
      = (tm_callback x # fst (reschedule now ts m'), snd (reschedule now ts m'))"
    using x by (simp add: m'_def h_def fire_def case_prod_beta Let_def)
  have okh: "timers_ok h (mg_timers m)" unfolding h_def by (rule ok_upd [OF Cons.prems(1) tn(2)])
  have arh: "armed h (mg_timers m)" unfolding h_def by (rule armed_upd [OF Cons.prems(2) tn(2)])
  have tdom: "t \<in> dom h" by (simp add: h_def)
  note ins = tset.insert_result [OF okh tdom]
  have heap': "mg_heap m' = h" by (simp add: m'_def)
  have set': "set (mg_timers m') = set (mg_timers m) \<union> (if tm_recurring x then {t} else {})"
    using ins(2) by (simp add: m'_def)
  have "armed h (mg_timers m')"
    using arh set' x(2) by (auto simp: armed_def h_def fire_def split: if_splits)
  moreover have "timers_ok h (mg_timers m')" using ins(3) okh by (simp add: m'_def)
  moreover have "armed h ts" unfolding h_def using Cons.prems(4) tn(1) by (auto simp: armed_def)
  moreover have "set ts \<inter> set (mg_timers m') = {}" using Cons.prems(5) tn(1) set' by auto
  moreover have "distinct ts" using Cons.prems(3) by simp
  ultimately have ih: "fst (reschedule now ts m') = map (\<lambda>t. tm_callback (the (h t))) ts \<and>
         timers_ok (mg_heap (snd (reschedule now ts m'))) (mg_timers (snd (reschedule now ts m'))) \<and>
         armed (mg_heap (snd (reschedule now ts m'))) (mg_timers (snd (reschedule now ts m'))) \<and>
         set (mg_timers (snd (reschedule now ts m'))) = set (mg_timers m') \<union> {t \<in> set ts. recurs h t} \<and>
         mg_heap (snd (reschedule now ts m'))
           = (\<lambda>t. if t \<in> set ts then map_option (fire now) (h t) else h t)"
    by (intro Cons.IH [of m', unfolded heap'])
  have same: "h u = mg_heap m u" if "u \<in> set ts" for u using that tn(1) by (auto simp: h_def)
  have "map (\<lambda>t. tm_callback (the (h t))) ts = map (\<lambda>t. tm_callback (the (mg_heap m t))) ts"
    using same by simp
  moreover have "{t \<in> set ts. recurs h t} = {t \<in> set ts. recurs (mg_heap m) t}"
    using same by (auto simp: recurs_def)
  moreover have "(\<lambda>u. if u \<in> set ts then map_option (fire now) (h u) else h u)
      = (\<lambda>u. if u \<in> set (t # ts) then map_option (fire now) (mg_heap m u) else mg_heap m u)"
    using same x tn(1) by (auto simp: fun_eq_iff h_def)
  moreover have "{u \<in> set (t # ts). recurs (mg_heap m) u}
      = (if tm_recurring x then {t} else {}) \<union> {u \<in> set ts. recurs (mg_heap m) u}"
    using x by (auto simp: recurs_def)
  ultimately show ?case using ih res x(1) set' by auto
qed (simp add: fun_eq_iff)

section \<open>The expiry operation\<close>

text \<open>The timers an expiry at \<open>now\<close> takes out: all of them after a clock rollover, otherwise
  those whose time has come.\<close>

definition due :: "nat \<Rightarrow> 'cb manager \<Rightarrow> nat list" where
  "due now m = (if fst (detectClockRollover now m) then mg_timers m
                else filter (\<lambda>t. next_of (mg_heap m) t \<le> now) (mg_timers m))"

definition due_cb :: "'cb manager \<Rightarrow> nat \<Rightarrow> 'cb option" where
  "due_cb m t = tm_callback (the (mg_heap m t))"

lemma detect_fields [simp]:
  "mg_timers (snd (detectClockRollover now m)) = mg_timers m"
  "mg_heap (snd (detectClockRollover now m)) = mg_heap m"
  by (simp_all add: detectClockRollover_def)

lemma due_subset: "set (due now m) \<subseteq> set (mg_timers m)"
  by (auto simp: due_def)

lemma expired_split:
  fixes now :: nat
  assumes "mg_wf m" "addr \<notin> set (mg_timers m)"
  defines "it \<equiv> expired_range addr (fst (detectClockRollover now m)) now m"
  shows "take it (mg_timers m) = due now m"
    "drop it (mg_timers m) = filter (\<lambda>t. t \<notin> set (due now m)) (mg_timers m)"
proof -
  have both: "take it (mg_timers m) = due now m \<and>
      drop it (mg_timers m) = filter (\<lambda>t. t \<notin> set (due now m)) (mg_timers m)"
  proof (cases "fst (detectClockRollover now m)")
    case True
    then show ?thesis by (simp add: it_def expired_range_def due_def Let_def filter_empty_conv)
  next
    case False
    let ?P = "\<lambda>t. next_of (mg_heap m) t \<le> now"
    have ok: "timers_ok (mg_heap m) (mg_timers m)" using assms(1) by (simp add: mg_wf_def)
    have it: "it = length (takeWhile ?P (mg_timers m))"
      using False expired_range_eq [OF ok assms(2)] by (simp add: it_def)
    have "take it (mg_timers m) = filter ?P (mg_timers m)"
      unfolding it takeWhile_eq_take [symmetric] by (rule takeWhile_sorted_filter(1) [OF ok])
    moreover have "drop it (mg_timers m) = filter (\<lambda>t. now < next_of (mg_heap m) t) (mg_timers m)"
      unfolding it dropWhile_eq_drop [symmetric] by (rule takeWhile_sorted_filter(2) [OF ok])
    moreover have "filter (\<lambda>t. now < next_of (mg_heap m) t) (mg_timers m)
        = filter (\<lambda>t. t \<notin> set (due now m)) (mg_timers m)"
      using False by (intro filter_cong) (auto simp: due_def)
    ultimately show ?thesis using False by (simp add: due_def)
  qed
  show "take it (mg_timers m) = due now m" using both by (rule conjunct1)
  show "drop it (mg_timers m) = filter (\<lambda>t. t \<notin> set (due now m)) (mg_timers m)"
    using both by (rule conjunct2)
qed

lemma early_return:
  assumes "mg_wf m" "\<not> fst (detectClockRollover now m)"
    "mg_timers m = [] \<or> now < next_of (mg_heap m) (hd (mg_timers m))"
  shows "due now m = []"
proof (cases "mg_timers m")
  case (Cons t ts)
  have ok: "timers_ok (mg_heap m) (t # ts)" using assms(1) Cons by (simp add: mg_wf_def)
  have "now < next_of (mg_heap m) u" if "u \<in> set (t # ts)" for u
    using assms(3) Cons that ok_next_sorted [OF ok, of u] by auto
  then show ?thesis using assms(2) Cons by (auto simp: due_def filter_empty_conv not_le)
qed (simp add: due_def)

lemma listExpired_spec:
  assumes wf: "mg_wf m" and fresh: "addr \<notin> set (mg_timers m)"
  shows "fst (listExpiredCb addr now m) = map (due_cb m) (due now m) \<and>
    mg_wf (snd (listExpiredCb addr now m)) \<and>
    set (mg_timers (snd (listExpiredCb addr now m)))
      = (set (mg_timers m) - set (due now m)) \<union> {t \<in> set (due now m). recurs (mg_heap m) t} \<and>
    mg_heap (snd (listExpiredCb addr now m))
      = (\<lambda>t. if t \<in> set (due now m) then map_option (fire now) (mg_heap m t) else mg_heap m t)"
proof (cases "mg_timers m = []")
  case True
  then show ?thesis using wf by (simp add: listExpiredCb_def due_def)
next
  case ne: False
  define r where "r = fst (detectClockRollover now m)"
  define m1 where "m1 = snd (detectClockRollover now m)"
  have m1: "mg_timers m1 = mg_timers m" "mg_heap m1 = mg_heap m" by (simp_all add: m1_def)
  have det: "detectClockRollover now m = (r, m1)" by (simp add: r_def m1_def)
  show ?thesis
  proof (cases "\<not> r \<and> now < next_of (mg_heap m) (hd (mg_timers m))")
    case True
    then have "due now m = []" using early_return [OF wf] by (simp add: r_def)
    then show ?thesis using True ne wf m1 by (simp add: listExpiredCb_def det mg_wf_def)
  next
    case False
    let ?it = "expired_range addr r now m"
    define m2 where "m2 = m1\<lparr> mg_timers := drop ?it (mg_timers m) \<rparr>"
    have it: "expired_range addr r now m1 = ?it" unfolding expired_range_def m1 ..
    have sp: "take ?it (mg_timers m) = due now m"
      "drop ?it (mg_timers m) = filter (\<lambda>t. t \<notin> set (due now m)) (mg_timers m)"
      using expired_split [OF wf fresh, of now] by (simp_all add: r_def)
    have eq: "listExpiredCb addr now m = reschedule now (due now m) m2"
      using False ne m1 det it sp(1) by (auto simp: listExpiredCb_def m2_def)
    have m2: "mg_heap m2 = mg_heap m" "set (mg_timers m2) = set (mg_timers m) - set (due now m)"
      using sp(2) m1 by (auto simp: m2_def)
    have ok: "timers_ok (mg_heap m) (mg_timers m)" and ar: "armed (mg_heap m) (mg_timers m)"
      using wf by (simp_all add: mg_wf_def)
    have a: "timers_ok (mg_heap m2) (mg_timers m2)"
      using tset.ok_filter [OF ok] sp(2) m1 by (simp add: m2_def)
    have b: "armed (mg_heap m2) (mg_timers m2)" "armed (mg_heap m2) (due now m)"
      using ar m2 due_subset [of now m] by (auto simp: armed_def)
    have c: "distinct (due now m)" "set (due now m) \<inter> set (mg_timers m2) = {}"
      using ok m2 by (auto simp: due_def oset_ok_def)
    show ?thesis
      unfolding eq mg_wf_def due_cb_def
      using reschedule_correct [OF a b(1) c(1) b(2) c(2), of now, unfolded m2]
      by (elim conjE) (intro conjI, assumption+)
  qed
qed

section \<open>Histories of a manager\<close>

text \<open>
  One call on the manager or on one of its timers, labelled with the callbacks it hands out. The
  allocator gives an address that no object has; a callback given to \<open>addTimer\<close> is not empty.
\<close>

inductive timer_step :: "'cb manager \<Rightarrow> 'cb option list \<Rightarrow> 'cb manager \<Rightarrow> bool" where
  add: "mg_heap m addr = None \<Longrightarrow> cb \<noteq> None \<Longrightarrow>
    timer_step m [] (snd (addTimer addr now ms cb recurring m))"
| cancel: "timer_step m [] (snd (timer_cancel t m))"
| refresh: "timer_step m [] (snd (timer_refresh now t m))"
| reset: "timer_step m [] (snd (snd (timer_reset now ms fromNow t m)))"
| wait: "timer_step m [] (snd (getNextTimer now m))"
| expire: "mg_heap m addr = None \<Longrightarrow>
    timer_step m (fst (listExpiredCb addr now m)) (snd (listExpiredCb addr now m))"

inductive timer_steps :: "'cb manager \<Rightarrow> 'cb option list \<Rightarrow> 'cb manager \<Rightarrow> bool" where
  none: "timer_steps m [] m"
| more: "timer_steps m fs m' \<Longrightarrow> timer_step m' gs m'' \<Longrightarrow> timer_steps m (fs @ gs) m''"

lemma getNextTimer_state [simp]:
  "mg_timers (snd (getNextTimer now m)) = mg_timers m" "mg_heap (snd (getNextTimer now m)) = mg_heap m"
  "mg_previousTime (snd (getNextTimer now m)) = mg_previousTime m"
  by (simp_all add: getNextTimer_def Let_def split: list.split option.split)

lemma unused_not_set: "mg_wf m \<Longrightarrow> mg_heap m addr = None \<Longrightarrow> addr \<notin> set (mg_timers m)"
  by (auto simp: mg_wf_def oset_ok_def)

lemma timer_step_wf:
  assumes "timer_step m fs m'" "mg_wf m"
  shows "mg_wf m' \<and> (\<forall>f \<in> set fs. f \<noteq> None)"
  using assms
proof cases
  case add
  then show ?thesis using addTimer_wf [OF assms(2)] by simp
next
  case cancel
  then show ?thesis using timer_cancel_wf [OF assms(2)] by simp
next
  case refresh
  then show ?thesis using timer_refresh_wf [OF assms(2)] by simp
next
  case reset
  then show ?thesis using timer_reset_wf [OF assms(2)] by simp
next
  case wait
  then show ?thesis using assms(2) by (simp add: mg_wf_def)
next
  case (expire addr now)
  note spec = listExpired_spec [OF assms(2) unused_not_set [OF assms(2) expire(3)], of now]
  have "due_cb m t \<noteq> None" if "t \<in> set (due now m)" for t
    using subsetD [OF due_subset that] assms(2) by (fastforce simp: mg_wf_def armed_def due_cb_def)
  then have "\<forall>f \<in> set (map (due_cb m) (due now m)). f \<noteq> None" by auto
  then show ?thesis using expire spec by (metis (no_types))
qed

lemma timer_steps_wf:
  "timer_steps m fs m' \<Longrightarrow> mg_wf m \<Longrightarrow> mg_wf m' \<and> (\<forall>f \<in> set fs. f \<noteq> None)"
proof (induction rule: timer_steps.induct)
  case (more m fs m' gs m'')
  then show ?case using timer_step_wf [OF more.hyps(2)] by auto
qed simp

text \<open>A timer without callback stays out of the set.\<close>

definition disarmed :: "'cb manager \<Rightarrow> nat \<Rightarrow> bool" where
  "disarmed m t \<longleftrightarrow> (\<exists>x. mg_heap m t = Some x \<and> tm_callback x = None)"

lemma disarmed_out: "mg_wf m \<Longrightarrow> disarmed m t \<Longrightarrow> t \<notin> set (mg_timers m)"
  by (auto simp: mg_wf_def armed_def disarmed_def)

lemma addTimer_locked_heap [simp]: "mg_heap (snd (addTimer_locked t m)) = mg_heap m"
  by (simp add: addTimer_locked_def case_prod_beta Let_def)

lemma timer_step_disarmed:
  assumes "timer_step m fs m'" "mg_wf m" "disarmed m t"
  shows "disarmed m' t"
  using assms(1)
proof cases
  case (add addr)
  then show ?thesis using assms(3) by (auto simp: disarmed_def addTimer_def)
next
  case (cancel u)
  then show ?thesis using assms(3) by (auto simp: disarmed_def timer_cancel_def Let_def split: option.split)
next
  case (refresh now u)
  then show ?thesis using assms(3) by (auto simp: disarmed_def timer_refresh_def Let_def split: option.split)
next
  case (reset now ms fromNow u)
  then show ?thesis
    using assms(3) by (auto simp: disarmed_def timer_reset_def Let_def case_prod_beta split: option.split)
next
  case wait
  then show ?thesis using assms(3) by (simp add: disarmed_def)
next
  case (expire addr now)
  have "t \<notin> set (due now m)" using disarmed_out [OF assms(2,3)] due_subset by blast
  then have "mg_heap m' t = mg_heap m t"
    using listExpired_spec [OF assms(2) unused_not_set [OF assms(2) expire(3)], of now] expire(2) by auto
  then show ?thesis using assms(3) by (simp add: disarmed_def)
qed

lemma timer_steps_disarmed:
  "timer_steps m fs m' \<Longrightarrow> mg_wf m \<Longrightarrow> disarmed m t \<Longrightarrow> disarmed m' t"
proof (induction rule: timer_steps.induct)
  case (more m fs m' gs m'')
  then show ?case using timer_step_disarmed [OF more.hyps(2)] timer_steps_wf [OF more.hyps(1)] by blast
qed

section \<open>Waiting for the next timer\<close>

lemma no_rollover: "mg_previousTime m \<le> now \<Longrightarrow> \<not> fst (detectClockRollover now m)"
  by (simp add: detectClockRollover_def)

lemma due_iff_front:
  assumes "mg_wf m" "mg_previousTime m \<le> now" "mg_timers m = t # ts"
  shows "due now m \<noteq> [] \<longleftrightarrow> next_of (mg_heap m) t \<le> now"
proof -
  have ok: "timers_ok (mg_heap m) (t # ts)" using assms(1,3) by (simp add: mg_wf_def)
  have "due now m \<noteq> [] \<longleftrightarrow> (\<exists>u \<in> set (t # ts). next_of (mg_heap m) u \<le> now)"
    using no_rollover [OF assms(2)] assms(3) by (auto simp: due_def filter_empty_conv)
  then show ?thesis using ok_next_sorted [OF ok] by (auto intro: le_trans)
qed

section \<open>Properties\<close>

text \<open>
  C4: \<open>TimerManager::listExpiredCb\<close> hands out the callbacks of exactly the timers that are due, in
  the order of their expiry (all timers after a clock rollover), whatever address the temporary
  timer gets. The timers that are not due stay, a recurring timer that fired is in the set again
  with its next time \<open>now + ms\<close>, a one-shot timer leaves the set and loses its callback, and the
  set is still ordered.
\<close>

theorem listExpiredCb_exact:
  assumes "mg_wf m" "mg_heap m addr = None" "listExpiredCb addr now m = (cbs, m')"
  shows "cbs = map (due_cb m) (due now m) \<and>
    mg_wf m' \<and>
    set (mg_timers m') = (set (mg_timers m) - set (due now m)) \<union> {t \<in> set (due now m). recurs (mg_heap m) t} \<and>
    mg_heap m' = (\<lambda>t. if t \<in> set (due now m) then map_option (fire now) (mg_heap m t) else mg_heap m t)"
  using listExpired_spec [OF assms(1) unused_not_set [OF assms(1,2)], of now] assms(3) by simp

definition timer_demo :: "string manager" where
  "timer_demo = snd (addTimer 7 100 50 (Some ''once'') False
     (snd (addTimer 3 100 20 (Some ''tick'') True (new_TimerManager 100))))"

lemma timer_demo_wf: "mg_wf timer_demo"
  unfolding timer_demo_def
  by (intro addTimer_wf mg_wf_new)
    (simp_all add: addTimer_def addTimer_locked_def new_TimerManager_def case_prod_beta Let_def)

lemma timer_demo_eq:
  "mg_timers timer_demo = [3, 7]" "mg_heap timer_demo = [3 \<mapsto> new_Timer 100 20 (Some ''tick'') True,
     7 \<mapsto> new_Timer 100 50 (Some ''once'') False]" "mg_previousTime timer_demo = 100"
  by (simp_all add: timer_demo_def addTimer_def addTimer_locked_def new_TimerManager_def oset_insert_def
      before_def Comparator_def new_Timer_def add64_def equiv_by_def oset_find_def)

theorem listExpiredCb_exact_witness:
  "fst (listExpiredCb 9 130 timer_demo) = [Some ''tick''] \<and>
   next_of (mg_heap (snd (listExpiredCb 9 130 timer_demo))) 3 = 150"
proof -
  have "due 130 timer_demo = [3]"
    by (simp add: due_def timer_demo_eq detectClockRollover_def next_of_def new_Timer_def add64_def)
  then show ?thesis
    using listExpiredCb_exact [OF timer_demo_wf _ surjective_pairing, of 9 130]
    by (simp add: timer_demo_eq due_cb_def next_of_def new_Timer_def fire_def add64_def)
qed

text \<open>
  C11: In every history of a fresh manager the set of timers stays ordered and holds only live,
  armed timers, and no empty callback is ever handed to the scheduler.
\<close>

theorem timer_history_safe:
  assumes "timer_steps (new_TimerManager start) fs m"
  shows "mg_wf m \<and> None \<notin> set fs"
  using timer_steps_wf [OF assms mg_wf_new] by auto

lemma timer_demo_reachable: "timer_steps (new_TimerManager 100) [] timer_demo"
proof -
  have "timer_steps (new_TimerManager 100) ([] @ [])
      (snd (addTimer 3 100 20 (Some ''tick'') True (new_TimerManager 100)))"
    by (rule timer_steps.more [OF timer_steps.none timer_step.add]) (simp_all add: new_TimerManager_def)
  then have "timer_steps (new_TimerManager 100) (([] @ []) @ []) timer_demo"
    unfolding timer_demo_def
    by (rule timer_steps.more [OF _ timer_step.add])
      (simp_all add: addTimer_def addTimer_locked_def new_TimerManager_def case_prod_beta Let_def)
  then show ?thesis by simp
qed

theorem timer_history_safe_witness: "mg_wf timer_demo \<and> mg_timers timer_demo = [3, 7]"
  using timer_history_safe [OF timer_demo_reachable] by (simp add: timer_demo_eq)

text \<open>
  C9: A timer whose \<open>cancel\<close> returned true is never due again: no later sequence of calls on the
  manager or on any timer (\<open>refresh\<close> and \<open>reset\<close> of the cancelled timer included) brings it back.
\<close>

theorem cancelled_never_fires:
  assumes "mg_wf m" "timer_cancel t m = (True, m1)" "timer_steps m1 fs m2"
  shows "t \<notin> set (mg_timers m2) \<and> t \<notin> set (due now m2)"
proof -
  have "mg_wf m1" using timer_cancel_wf(1) [OF assms(1), of t] assms(2) by simp
  moreover have "disarmed m1 t"
    using assms(2) by (auto simp: timer_cancel_def disarmed_def Let_def split: option.splits if_splits)
  ultimately have "t \<notin> set (mg_timers m2)"
    using timer_steps_disarmed [OF assms(3)] timer_steps_wf [OF assms(3)] disarmed_out by blast
  then show ?thesis using due_subset by blast
qed

theorem cancelled_never_fires_witness:
  "3 \<notin> set (due 500 (snd (timer_refresh 200 3 (snd (timer_cancel 3 timer_demo)))))"
proof -
  have c: "timer_cancel 3 timer_demo = (True, snd (timer_cancel 3 timer_demo))"
    by (simp add: timer_cancel_def timer_demo_eq new_Timer_def Let_def)
  show ?thesis
    using cancelled_never_fires [OF timer_demo_wf c timer_steps.more [OF timer_steps.none timer_step.refresh]]
    by blast
qed

text \<open>
  C10: \<open>getNextTimer\<close> is the exact time to wait. While timers are pending, none is due before the
  returned delay has passed and one is due when it has (no wake-up is lost and none is early);
  without timers it returns the largest 64-bit value.
\<close>

theorem getNextTimer_exact:
  assumes "mg_wf m" "mg_previousTime m \<le> now" "getNextTimer now m = (d, m')"
  shows "if mg_timers m = [] then d = 2 ^ 64 - 1
    else due (now + d) m' \<noteq> [] \<and> (\<forall>n. now \<le> n \<and> n < now + d \<longrightarrow> due n m' = [])"
proof (cases "mg_timers m")
  case Nil
  then show ?thesis using assms(3) by (simp add: getNextTimer_def)
next
  case (Cons t us)
  have m': "mg_wf m'" "mg_previousTime m' \<le> now" "mg_timers m' = t # us" "mg_heap m' = mg_heap m"
    using assms getNextTimer_state [of now m] Cons by (simp_all add: mg_wf_def)
  have "d = next_of (mg_heap m) t - now"
    using assms(3) Cons by (auto simp: getNextTimer_def next_of_def Let_def split: option.splits if_splits)
  moreover have "due n m' = [] \<longleftrightarrow> n < next_of (mg_heap m) t" if "now \<le> n" for n
    using due_iff_front [OF m'(1) _ m'(3), of n] m'(2,4) that by auto
  ultimately show ?thesis using Cons by auto
qed

theorem getNextTimer_exact_witness:
  "fst (getNextTimer 110 timer_demo) = 10 \<and> due 120 (snd (getNextTimer 110 timer_demo)) \<noteq> []"
proof -
  have d: "getNextTimer 110 timer_demo = (10, snd (getNextTimer 110 timer_demo))"
    by (simp add: getNextTimer_def timer_demo_eq new_Timer_def add64_def)
  show ?thesis
    using getNextTimer_exact [OF timer_demo_wf _ d] arg_cong [OF d, of fst] by (simp add: timer_demo_eq)
qed

end
