(* ===== verification/IOManager.thy ===== *)
theory IOManager
  imports Scheduler TimerManager
begin

text \<open>
  \<open>src/iomanager.cpp\<close>: fibers and callbacks that wait for a file descriptor, the epoll set behind
  them and the event loop. The state holds the table of \<open>FdContext\<close> objects, the pending counter,
  the timers (\<open>TimerManager\<close>), the log of the successful \<open>epoll_ctl\<close> calls, and what was handed to
  the schedulers. Whether the kernel accepts an \<open>epoll_ctl\<close> call is an argument of the operation;
  so are the thread's scheduler and its running fiber. An operation is atomic: it holds the
  mutex of the descriptor.
\<close>

section \<open>State\<close>

record 'cb event_ctx =
  ev_scheduler :: "nat option"
  ev_fiber :: "nat option"
  ev_callback :: "'cb option"

record 'cb fd_ctx =
  fc_fd :: nat
  fc_read :: "'cb event_ctx"
  fc_write :: "'cb event_ctx"
  fc_events :: u32

datatype epoll_op = EPOLL_CTL_ADD | EPOLL_CTL_MOD | EPOLL_CTL_DEL

record 'cb iomgr =
  io_pending :: nat
  io_contexts :: "'cb fd_ctx list"
  io_timers :: "'cb manager"
  io_ctl :: "(epoll_op \<times> nat \<times> u32) list"
  io_scheduled :: "(nat \<times> 'cb task) list"

text \<open>The event bits; the epoll constants have the values of the Linux headers.\<close>

abbreviation evRead :: u32 where "evRead \<equiv> 1"
abbreviation evWrite :: u32 where "evWrite \<equiv> 4"
abbreviation EPOLLIN :: u32 where "EPOLLIN \<equiv> 1"
abbreviation EPOLLOUT :: u32 where "EPOLLOUT \<equiv> 4"
abbreviation EPOLLERR :: u32 where "EPOLLERR \<equiv> 8"
abbreviation EPOLLHUP :: u32 where "EPOLLHUP \<equiv> 16"
definition EPOLLET :: u32 where "EPOLLET = 2147483648"

definition no_ctx :: "'cb event_ctx" where
  "no_ctx = \<lparr> ev_scheduler = None, ev_fiber = None, ev_callback = None \<rparr>"

definition new_FdContext :: "nat \<Rightarrow> 'cb fd_ctx" where
  "new_FdContext fd = \<lparr> fc_fd = fd, fc_read = no_ctx, fc_write = no_ctx, fc_events = 0 \<rparr>"

section \<open>The contexts of one descriptor\<close>

definition getContext :: "u32 \<Rightarrow> 'cb fd_ctx \<Rightarrow> 'cb event_ctx result" where
  "getContext event c =
    (if event = evRead then Inr (fc_read c)
     else if event = evWrite then Inr (fc_write c)
     else Inl AssertFailed)"

definition setContext :: "u32 \<Rightarrow> 'cb event_ctx \<Rightarrow> 'cb fd_ctx \<Rightarrow> 'cb fd_ctx" where
  "setContext event x c = (if event = evRead then c\<lparr> fc_read := x \<rparr> else c\<lparr> fc_write := x \<rparr>)"

definition resetContext :: "u32 \<Rightarrow> 'cb fd_ctx \<Rightarrow> 'cb fd_ctx" where
  "resetContext event c = setContext event no_ctx c"

text \<open>\<open>triggerEvent\<close>: what is scheduled, and where.\<close>

definition triggerEvent :: "u32 \<Rightarrow> 'cb fd_ctx \<Rightarrow> ((nat \<times> 'cb task) \<times> 'cb fd_ctx) result" where
  "triggerEvent event c =
    (if fc_events c AND event = 0 then Inl AssertFailed
     else let c1 = c\<lparr> fc_events := fc_events c AND NOT event \<rparr> in
       bind_res (getContext event c1) (\<lambda>x.
         case ev_scheduler x of
           None \<Rightarrow> Inl NullDeref
         | Some sch \<Rightarrow>
             let t = (if ev_callback x \<noteq> None
                      then \<lparr> ft_fiber = None, ft_callback = ev_callback x, ft_thread = -1 \<rparr>
                      else \<lparr> ft_fiber = ev_fiber x, ft_callback = None, ft_thread = -1 \<rparr>) in
             Inr ((sch, t), resetContext event c1)))"

section \<open>The manager\<close>

definition contextResize :: "nat \<Rightarrow> 'cb fd_ctx list \<Rightarrow> 'cb fd_ctx list" where
  "contextResize sz cs =
    (if sz \<le> length cs then take sz cs else cs @ map new_FdContext [length cs ..< sz])"

definition new_IOManager :: "nat \<Rightarrow> 'cb iomgr" where
  "new_IOManager now =
    \<lparr> io_pending = 0, io_contexts = contextResize 32 [], io_timers = new_TimerManager now,
      io_ctl = [], io_scheduled = [] \<rparr>"

definition set_fd :: "nat \<Rightarrow> 'cb fd_ctx \<Rightarrow> 'cb iomgr \<Rightarrow> 'cb iomgr" where
  "set_fd fd c io = io\<lparr> io_contexts := (io_contexts io)[fd := c] \<rparr>"

definition log_ctl :: "epoll_op \<Rightarrow> nat \<Rightarrow> u32 \<Rightarrow> 'cb iomgr \<Rightarrow> 'cb iomgr" where
  "log_ctl op fd events io = io\<lparr> io_ctl := io_ctl io @ [(op, fd, events)] \<rparr>"

text \<open>
  \<open>addEvent\<close>: \<open>accepted\<close> is the kernel's answer, \<open>sch\<close> is \<open>Scheduler::getThis()\<close> and \<open>(fiber, st)\<close>
  the running fiber with its state.
\<close>

definition addEvent ::
    "bool \<Rightarrow> nat option \<Rightarrow> nat \<times> FiberState \<Rightarrow> int \<Rightarrow> u32 \<Rightarrow> 'cb option \<Rightarrow> 'cb iomgr \<Rightarrow> (int \<times> 'cb iomgr) result" where
  "addEvent accepted sch fiber ifd event callback io0 =
    (if ifd < 0 then Inl OutOfBounds
     else let fd = nat ifd;
              io = (if fd < length (io_contexts io0) then io0
                    else io0\<lparr> io_contexts := contextResize (fd * 3 div 2) (io_contexts io0) \<rparr>) in
       if length (io_contexts io) \<le> fd then Inl OutOfBounds
       else let c = io_contexts io ! fd in
         if fc_events c AND event \<noteq> 0 then Inl AssertFailed
         else let op = (if fc_events c \<noteq> 0 then EPOLL_CTL_MOD else EPOLL_CTL_ADD);
                  events = EPOLLET OR fc_events c OR event in
           if \<not> accepted then Inr (-1, io)
           else let c1 = c\<lparr> fc_events := fc_events c OR event \<rparr> in
             bind_res (getContext event c1) (\<lambda>x.
               if ev_scheduler x \<noteq> None \<or> ev_fiber x \<noteq> None \<or> ev_callback x \<noteq> None then Inl AssertFailed
               else if callback = None \<and> snd fiber \<noteq> Execute then Inl AssertFailed
               else let y = (if callback \<noteq> None
                             then \<lparr> ev_scheduler = sch, ev_fiber = None, ev_callback = callback \<rparr>
                             else \<lparr> ev_scheduler = sch, ev_fiber = Some (fst fiber), ev_callback = None \<rparr>) in
                 Inr (0, set_fd fd (setContext event y c1)
                           (log_ctl op fd events (io\<lparr> io_pending := io_pending io + 1 \<rparr>)))))"

definition delEvent :: "bool \<Rightarrow> nat \<Rightarrow> u32 \<Rightarrow> 'cb iomgr \<Rightarrow> (bool \<times> 'cb iomgr) result" where
  "delEvent accepted fd event io =
    (if length (io_contexts io) \<le> fd then Inr (False, io)
     else let c = io_contexts io ! fd in
       if fc_events c AND event = 0 then Inr (False, io)
       else let new_events = fc_events c AND NOT event;
                op = (if new_events \<noteq> 0 then EPOLL_CTL_MOD else EPOLL_CTL_DEL) in
         if \<not> accepted then Inr (False, io)
         else bind_res (getContext event c) (\<lambda>_.
           Inr (True, set_fd fd (resetContext event (c\<lparr> fc_events := new_events \<rparr>))
             (log_ctl op fd (EPOLLET OR new_events) (io\<lparr> io_pending := usub64 (io_pending io) 1 \<rparr>)))))"

text \<open>Trigger one event of a descriptor and count it.\<close>

definition fire_event :: "u32 \<Rightarrow> nat \<Rightarrow> 'cb iomgr \<Rightarrow> 'cb iomgr result" where
  "fire_event event fd io =
    bind_res (triggerEvent event (io_contexts io ! fd)) (\<lambda>(t, c).
      Inr (set_fd fd c (io\<lparr> io_pending := usub64 (io_pending io) 1, io_scheduled := io_scheduled io @ [t] \<rparr>)))"

definition cancelEvent :: "bool \<Rightarrow> nat \<Rightarrow> u32 \<Rightarrow> 'cb iomgr \<Rightarrow> (bool \<times> 'cb iomgr) result" where
  "cancelEvent accepted fd event io =
    (if length (io_contexts io) \<le> fd then Inr (False, io)
     else let c = io_contexts io ! fd in
       if fc_events c AND event = 0 then Inr (False, io)
       else let new_events = fc_events c AND NOT event;
                op = (if new_events \<noteq> 0 then EPOLL_CTL_MOD else EPOLL_CTL_DEL) in
         if \<not> accepted then Inr (False, io)
         else bind_res (fire_event event fd (log_ctl op fd (EPOLLET OR new_events) io))
                (\<lambda>io'. Inr (True, io')))"

text \<open>Trigger the two events one after the other, if \<open>sel\<close> selects them.\<close>

definition fire_selected :: "(u32 \<Rightarrow> 'cb fd_ctx \<Rightarrow> bool) \<Rightarrow> nat \<Rightarrow> 'cb iomgr \<Rightarrow> 'cb iomgr result" where
  "fire_selected sel fd io =
    bind_res (if sel evRead (io_contexts io ! fd) then fire_event evRead fd io else Inr io) (\<lambda>io1.
      if sel evWrite (io_contexts io1 ! fd) then fire_event evWrite fd io1 else Inr io1)"

definition cancelAll :: "bool \<Rightarrow> nat \<Rightarrow> 'cb iomgr \<Rightarrow> (bool \<times> 'cb iomgr) result" where
  "cancelAll accepted fd io =
    (if length (io_contexts io) \<le> fd then Inr (False, io)
     else if fc_events (io_contexts io ! fd) = 0 then Inr (False, io)
     else if \<not> accepted then Inr (False, io)
     else bind_res (fire_selected (\<lambda>e c. fc_events c AND e \<noteq> 0) fd (log_ctl EPOLL_CTL_DEL fd 0 io)) (\<lambda>io'.
       if fc_events (io_contexts io' ! fd) \<noteq> 0 then Inl AssertFailed else Inr (True, io')))"

section \<open>The event loop\<close>

text \<open>One event of \<open>epoll_wait\<close> for a descriptor: the body of the loop in \<open>idle\<close>.\<close>

definition real_events :: "u32 \<Rightarrow> 'cb fd_ctx \<Rightarrow> u32" where
  "real_events revents c =
    (let ev = (if revents AND (EPOLLERR OR EPOLLHUP) \<noteq> 0
               then revents OR ((EPOLLIN OR EPOLLOUT) AND fc_events c) else revents) in
     (if ev AND EPOLLIN \<noteq> 0 then evRead else 0) OR (if ev AND EPOLLOUT \<noteq> 0 then evWrite else 0))"

definition handle_event :: "bool \<Rightarrow> nat \<Rightarrow> u32 \<Rightarrow> 'cb iomgr \<Rightarrow> 'cb iomgr result" where
  "handle_event accepted fd revents io =
    (if length (io_contexts io) \<le> fd then Inl OutOfBounds
     else let c = io_contexts io ! fd;
              real = real_events revents c in
       if fc_events c AND real = 0 then Inr io
       else let left = fc_events c AND NOT real;
                op = (if left \<noteq> 0 then EPOLL_CTL_MOD else EPOLL_CTL_DEL) in
         if \<not> accepted then Inr io
         else fire_selected (\<lambda>e _. real AND e \<noteq> 0) fd (log_ctl op fd (EPOLLET OR left) io))"

text \<open>The argument of \<open>epoll_wait\<close>: a 64-bit delay is cast to \<open>int\<close> before the comparison.\<close>

definition MAX_TIMEOUT :: int where
  "MAX_TIMEOUT = 3000"

definition epoll_timeout :: "nat \<Rightarrow> int" where
  "epoll_timeout next_timeout =
    (if next_timeout \<noteq> 2 ^ 64 - 1
     then (if MAX_TIMEOUT < sint (of_nat next_timeout :: u32) then MAX_TIMEOUT
           else sint (of_nat next_timeout :: u32))
     else MAX_TIMEOUT)"

definition io_tickle :: "nat \<Rightarrow> nat" where
  "io_tickle idleThreads = (if 0 < idleThreads then 1 else 0)"

definition io_stopping :: "nat \<Rightarrow> 'cb sched \<Rightarrow> 'cb iomgr \<Rightarrow> bool \<times> nat \<times> 'cb iomgr" where
  "io_stopping now s io =
    (let (timeout, timers) = getNextTimer now (io_timers io) in
     (timeout = 2 ^ 64 - 1 \<and> io_pending io = 0 \<and> stopping s, timeout, io\<lparr> io_timers := timers \<rparr>))"

text \<open>
  One round of \<open>idle\<close> behind \<open>epoll_wait\<close>: the callbacks of the expired timers, on this scheduler
  \<open>me\<close>, and then the events, each with its kernel answer.
\<close>

definition expire_timers :: "nat \<Rightarrow> nat \<Rightarrow> nat \<Rightarrow> 'cb iomgr \<Rightarrow> 'cb iomgr" where
  "expire_timers me addr now io =
    (let (cbs, timers) = listExpiredCb addr now (io_timers io) in
     io\<lparr> io_timers := timers, io_scheduled := io_scheduled io @
       map (\<lambda>cb. (me, \<lparr> ft_fiber = None, ft_callback = cb, ft_thread = -1 \<rparr>)) cbs \<rparr>)"

fun handle_events :: "(bool \<times> nat \<times> u32) list \<Rightarrow> 'cb iomgr \<Rightarrow> 'cb iomgr result" where
  "handle_events [] io = Inr io"
| "handle_events ((accepted, fd, revents) # es) io =
    bind_res (handle_event accepted fd revents io) (handle_events es)"

definition io_idle_round ::
    "nat \<Rightarrow> nat \<Rightarrow> nat \<Rightarrow> (bool \<times> nat \<times> u32) list \<Rightarrow> 'cb iomgr \<Rightarrow> 'cb iomgr result" where
  "io_idle_round me addr now es io = handle_events es (expire_timers me addr now io)"

section \<open>Invariant\<close>

definition waiting :: "u32 \<Rightarrow> 'cb fd_ctx \<Rightarrow> bool" where
  "waiting e c \<longleftrightarrow> fc_events c AND e \<noteq> 0"

definition ctx_ok :: "bool \<Rightarrow> 'cb event_ctx \<Rightarrow> bool" where
  "ctx_ok b x \<longleftrightarrow> (if b then ev_scheduler x \<noteq> None \<and> (ev_fiber x = None) \<noteq> (ev_callback x = None) else x = no_ctx)"

definition fd_ok :: "nat \<Rightarrow> 'cb fd_ctx \<Rightarrow> bool" where
  "fd_ok i c \<longleftrightarrow> fc_fd c = i \<and> fc_events c \<in> {0, 1, 4, 5} \<and>
     ctx_ok (waiting evRead c) (fc_read c) \<and> ctx_ok (waiting evWrite c) (fc_write c)"

text \<open>Who waits: the scheduler and the task that \<open>triggerEvent\<close> would schedule.\<close>

definition waiter :: "'cb event_ctx \<Rightarrow> nat \<times> 'cb task" where
  "waiter x = (the (ev_scheduler x), \<lparr> ft_fiber = ev_fiber x, ft_callback = ev_callback x, ft_thread = -1 \<rparr>)"

definition wake :: "bool \<Rightarrow> bool \<Rightarrow> 'cb fd_ctx \<Rightarrow> (nat \<times> 'cb task) list" where
  "wake r w c = (if r then [waiter (fc_read c)] else []) @ (if w then [waiter (fc_write c)] else [])"

definition fd_waiters :: "'cb fd_ctx \<Rightarrow> (nat \<times> 'cb task) list" where
  "fd_waiters c = wake (waiting evRead c) (waiting evWrite c) c"

definition waiters :: "'cb iomgr \<Rightarrow> (nat \<times> 'cb task) multiset" where
  "waiters io = mset (concat (map fd_waiters (io_contexts io)))"

text \<open>The meaning of the log of \<open>epoll_ctl\<close> calls; a call the kernel must refuse makes it None.\<close>

fun replay :: "(epoll_op \<times> nat \<times> u32) list \<Rightarrow> (nat \<rightharpoonup> u32) \<Rightarrow> (nat \<rightharpoonup> u32) option" where
  "replay [] k = Some k"
| "replay ((op, fd, ev) # l) k =
    (case op of
       EPOLL_CTL_ADD \<Rightarrow> if k fd = None then replay l (k(fd \<mapsto> ev)) else None
     | EPOLL_CTL_MOD \<Rightarrow> if k fd \<noteq> None then replay l (k(fd \<mapsto> ev)) else None
     | EPOLL_CTL_DEL \<Rightarrow> if k fd \<noteq> None then replay l (k(fd := None)) else None)"

definition wanted :: "'cb iomgr \<Rightarrow> nat \<rightharpoonup> u32" where
  "wanted io fd = (if fd < length (io_contexts io) \<and> fc_events (io_contexts io ! fd) \<noteq> 0
     then Some (EPOLLET OR fc_events (io_contexts io ! fd)) else None)"

definition io_wf :: "'cb iomgr \<Rightarrow> bool" where
  "io_wf io \<longleftrightarrow> 32 \<le> length (io_contexts io) \<and> (\<forall>i < length (io_contexts io). fd_ok i (io_contexts io ! i)) \<and>
     io_pending io = size (waiters io) \<and> replay (io_ctl io) Map.empty = Some (wanted io)"

lemma replay_append: "replay (l @ l') k = (case replay l k of None \<Rightarrow> None | Some k' \<Rightarrow> replay l' k')"
proof (induction l arbitrary: k)
  case (Cons x l)
  then show ?case by (cases x; cases "fst x") auto
qed simp

lemma fd_ok_new: "fd_ok i (new_FdContext i)"
  by (simp add: fd_ok_def new_FdContext_def ctx_ok_def waiting_def)

lemma fd_waiters_new [simp]: "fd_waiters (new_FdContext i) = []"
  by (simp add: fd_waiters_def wake_def waiting_def new_FdContext_def)

lemma concat_waiters_new: "concat (map fd_waiters (map new_FdContext xs)) = []"
  by (simp add: comp_def)

lemma io_wf_new: "io_wf (new_IOManager now :: 'cb iomgr)"
proof -
  let ?io = "new_IOManager now :: 'cb iomgr"
  have cs: "io_contexts ?io = map new_FdContext [0..<32]"
    by (simp add: new_IOManager_def contextResize_def)
  have "wanted ?io = Map.empty"
    unfolding wanted_def fun_eq_iff cs by (simp add: new_FdContext_def)
  moreover have "waiters ?io = {#}"
    unfolding waiters_def cs concat_waiters_new by simp
  moreover have "io_pending ?io = 0" "io_ctl ?io = []"
    by (simp_all add: new_IOManager_def)
  ultimately show ?thesis by (simp add: io_wf_def cs fd_ok_new)
qed

lemma io_wf_resize:
  assumes wf: "io_wf io" and sz: "length (io_contexts io) \<le> sz"
  defines "io' \<equiv> io\<lparr> io_contexts := contextResize sz (io_contexts io) \<rparr>"
  shows "io_wf io'" "waiters io' = waiters io" "length (io_contexts io') = sz"
    "\<And>i. length (io_contexts io) \<le> i \<Longrightarrow> i < sz \<Longrightarrow> io_contexts io' ! i = new_FdContext i"
proof -
  let ?n = "length (io_contexts io)"
  have cs: "io_contexts io' = io_contexts io @ map new_FdContext [?n ..< sz]"
    using sz by (auto simp: io'_def contextResize_def)
  show len: "length (io_contexts io') = sz" using sz by (simp add: cs)
  show new: "io_contexts io' ! i = new_FdContext i" if "?n \<le> i" "i < sz" for i
    using that by (simp add: cs nth_append)
  have "concat (map fd_waiters (io_contexts io')) = concat (map fd_waiters (io_contexts io))"
    unfolding cs map_append concat_append concat_waiters_new by simp
  then show w: "waiters io' = waiters io" by (simp add: waiters_def)
  have "wanted io' = wanted io"
    using sz by (auto simp: wanted_def fun_eq_iff cs nth_append new_FdContext_def)
  moreover have "fd_ok i (io_contexts io' ! i)" if "i < sz" for i
    using wf new [of i] that fd_ok_new by (cases "i < ?n") (auto simp: io_wf_def cs nth_append)
  moreover have "io_pending io' = io_pending io" "io_ctl io' = io_ctl io" by (simp_all add: io'_def)
  ultimately show "io_wf io'" using wf w sz by (simp add: io_wf_def len)
qed

text \<open>Replacing the context of one descriptor.\<close>

lemma waiters_upd:
  assumes "fd < length (io_contexts io)"
  shows "waiters (io\<lparr> io_contexts := (io_contexts io)[fd := c] \<rparr>) + mset (fd_waiters (io_contexts io ! fd))
    = waiters io + mset (fd_waiters c)"
proof -
  let ?cs = "io_contexts io"
  have "mset (concat (map fd_waiters ?cs)) = mset (concat (map fd_waiters (take fd ?cs)))
      + mset (fd_waiters (?cs ! fd)) + mset (concat (map fd_waiters (drop (Suc fd) ?cs)))"
    using id_take_nth_drop [OF assms] by (metis (no_types) append.assoc append_Cons append_Nil concat.simps(2)
        concat_append list.simps(9) map_append mset_append union_assoc)
  then show ?thesis by (simp add: waiters_def upd_conv_take_nth_drop [OF assms] ac_simps)
qed

lemma io_wf_upd:
  assumes wf: "io_wf io" and fd: "fd < length (io_contexts io)" and c': "fd_ok fd c'"
    and p: "p + length (fd_waiters (io_contexts io ! fd)) = io_pending io + length (fd_waiters c')"
    and op: "op = (if fc_events c' = 0 then EPOLL_CTL_DEL
      else if fc_events (io_contexts io ! fd) = 0 then EPOLL_CTL_ADD else EPOLL_CTL_MOD)"
    and del: "fc_events c' = 0 \<longrightarrow> fc_events (io_contexts io ! fd) \<noteq> 0"
    and ev: "fc_events c' \<noteq> 0 \<longrightarrow> ev = EPOLLET OR fc_events c'"
  shows "io_wf (io\<lparr> io_pending := p, io_contexts := (io_contexts io)[fd := c'], io_ctl := io_ctl io @ [(op, fd, ev)],
    io_scheduled := q \<rparr>)"
proof -
  let ?io = "io\<lparr> io_pending := p, io_contexts := (io_contexts io)[fd := c'], io_ctl := io_ctl io @ [(op, fd, ev)],
    io_scheduled := q \<rparr>"
  have "waiters ?io + mset (fd_waiters (io_contexts io ! fd)) = waiters io + mset (fd_waiters c')"
    using waiters_upd [OF fd, of c'] by (simp add: waiters_def)
  then have "size (waiters ?io) + length (fd_waiters (io_contexts io ! fd)) = size (waiters io) + length (fd_waiters c')"
    by (metis size_mset size_union)
  then have "p = size (waiters ?io)" using p wf by (simp add: io_wf_def)
  moreover have "replay (io_ctl ?io) Map.empty = Some (wanted ?io)"
  proof -
    have k: "wanted io fd = (if fc_events (io_contexts io ! fd) \<noteq> 0
        then Some (EPOLLET OR fc_events (io_contexts io ! fd)) else None)" using fd by (simp add: wanted_def)
    have "wanted ?io = (wanted io)(fd := (if fc_events c' \<noteq> 0 then Some (EPOLLET OR fc_events c') else None))"
      using fd by (auto simp: wanted_def fun_eq_iff nth_list_update)
    then show ?thesis using wf op del ev k by (simp add: replay_append io_wf_def)
  qed
  ultimately show ?thesis
    using wf c' fd by (auto simp: io_wf_def nth_list_update)
qed

section \<open>Waking and removing waiters\<close>

definition sel_bits :: "bool \<Rightarrow> bool \<Rightarrow> u32" where
  "sel_bits r w = (if r then evRead else 0) OR (if w then evWrite else 0)"

definition drop_ev :: "bool \<Rightarrow> bool \<Rightarrow> 'cb fd_ctx \<Rightarrow> 'cb fd_ctx" where
  "drop_ev r w c = c\<lparr> fc_read := (if r then no_ctx else fc_read c), fc_write := (if w then no_ctx else fc_write c),
     fc_events := fc_events c AND NOT (sel_bits r w) \<rparr>"

lemma fd_events_cases:
  assumes "fd_ok fd c"
  obtains "fc_events c = 0" | "fc_events c = 1" | "fc_events c = 4" | "fc_events c = 5"
  using assms by (auto simp: fd_ok_def)

lemma drop_ev_ok:
  assumes ok: "fd_ok fd c" and sel: "r \<longrightarrow> waiting evRead c" "w \<longrightarrow> waiting evWrite c"
  shows "fd_ok fd (drop_ev r w c)" "mset (fd_waiters c) = mset (fd_waiters (drop_ev r w c)) + mset (wake r w c)"
proof -
  have "fd_ok fd (drop_ev r w c) \<and> mset (fd_waiters c) = mset (fd_waiters (drop_ev r w c)) + mset (wake r w c)"
    using ok sel
    by (cases rule: fd_events_cases [OF ok]; cases r; cases w)
      (simp_all add: fd_ok_def drop_ev_def sel_bits_def waiting_def ctx_ok_def fd_waiters_def wake_def)
  then show "fd_ok fd (drop_ev r w c)" "mset (fd_waiters c) = mset (fd_waiters (drop_ev r w c)) + mset (wake r w c)"
    by blast+
qed

lemma waiter_pending:
  assumes "io_wf io" "fd < length (io_contexts io)"
  shows "length (fd_waiters (io_contexts io ! fd)) \<le> io_pending io"
proof -
  have "fd_waiters (io_contexts io ! fd) \<in> set (map fd_waiters (io_contexts io))" using assms(2) by simp
  then have "length (fd_waiters (io_contexts io ! fd)) \<le> length (concat (map fd_waiters (io_contexts io)))"
    unfolding length_concat by (intro member_le_sum_list) auto
  then show ?thesis using assms(1) by (simp add: io_wf_def waiters_def)
qed

text \<open>The step that takes the waiters \<open>r\<close>, \<open>w\<close> out of a descriptor.\<close>

lemma io_drop:
  fixes q :: "(nat \<times> 'cb task) list"
  assumes wf: "io_wf io" and fd: "fd < length (io_contexts io)"
    and sel: "r \<longrightarrow> waiting evRead (io_contexts io ! fd)" "w \<longrightarrow> waiting evWrite (io_contexts io ! fd)" "r \<or> w"
    and ev: "fc_events (drop_ev r w (io_contexts io ! fd)) \<noteq> 0 \<longrightarrow> ev = EPOLLET OR fc_events (drop_ev r w (io_contexts io ! fd))"
    and op: "op = (if fc_events (drop_ev r w (io_contexts io ! fd)) \<noteq> 0 then EPOLL_CTL_MOD else EPOLL_CTL_DEL)"
  defines "io' \<equiv> io\<lparr> io_pending := io_pending io - length (wake r w (io_contexts io ! fd)),
    io_contexts := (io_contexts io)[fd := drop_ev r w (io_contexts io ! fd)], io_ctl := io_ctl io @ [(op, fd, ev)],
    io_scheduled := q \<rparr>"
  shows "io_wf io'" "waiters io' + mset (wake r w (io_contexts io ! fd)) = waiters io"
proof -
  let ?c = "io_contexts io ! fd"
  have ok: "fd_ok fd ?c" using wf fd by (simp add: io_wf_def)
  note d = drop_ev_ok [OF ok sel(1,2)]
  have len: "length (fd_waiters ?c) = length (fd_waiters (drop_ev r w ?c)) + length (wake r w ?c)"
    using d(2) by (metis size_mset size_union)
  have nz: "fc_events ?c \<noteq> 0" using sel by (auto simp: waiting_def)
  show "io_wf io'"
    unfolding io'_def
    by (rule io_wf_upd [OF wf fd d(1)]) (use len waiter_pending [OF wf fd] op nz ev in auto)
  have "waiters io' + mset (fd_waiters ?c) = waiters io + mset (fd_waiters (drop_ev r w ?c))"
    using waiters_upd [OF fd, of "drop_ev r w ?c"] by (simp add: io'_def waiters_def)
  then show "waiters io' + mset (wake r w ?c) = waiters io" using d(2) by (simp add: ac_simps)
qed

lemma triggerEvent_eq:
  assumes ok: "fd_ok fd c" and e: "e \<in> {evRead, evWrite}" "waiting e c"
  shows "triggerEvent e c = Inr (waiter (if e = evRead then fc_read c else fc_write c),
    drop_ev (e = evRead) (e = evWrite) c)"
  using assms
  by (auto simp: triggerEvent_def waiting_def getContext_def fd_ok_def ctx_ok_def drop_ev_def sel_bits_def
      resetContext_def setContext_def waiter_def split: option.splits)

lemma drop_ev_drop: "drop_ev r' w' (drop_ev r w c) = drop_ev (r \<or> r') (w \<or> w') c"
  by (cases r; cases w; cases r'; cases w') (simp_all add: drop_ev_def sel_bits_def and.assoc)

lemma fire_selected_eq:
  assumes fd: "fd < length (io_contexts io)" and ok: "fd_ok fd (io_contexts io ! fd)"
    and r: "sel evRead (io_contexts io ! fd) = r" "r \<longrightarrow> waiting evRead (io_contexts io ! fd)"
    and w: "sel evWrite (drop_ev r False (io_contexts io ! fd)) = w" "w \<longrightarrow> waiting evWrite (io_contexts io ! fd)"
    and n: "length (wake r w (io_contexts io ! fd)) \<le> io_pending io"
  shows "fire_selected sel fd io = Inr (io\<lparr> io_pending := io_pending io - length (wake r w (io_contexts io ! fd)),
     io_contexts := (io_contexts io)[fd := drop_ev r w (io_contexts io ! fd)],
     io_scheduled := io_scheduled io @ wake r w (io_contexts io ! fd) \<rparr>)"
proof -
  let ?c = "io_contexts io ! fd"
  have dw: "waiting evWrite (drop_ev r False ?c) = waiting evWrite ?c"
    using ok by (cases rule: fd_events_cases [OF ok]; cases r) (simp_all add: waiting_def drop_ev_def sel_bits_def)
  have dr: "fc_write (drop_ev r False ?c) = fc_write ?c" by (simp add: drop_ev_def)
  have ok': "fd_ok fd (drop_ev r False ?c)" by (rule drop_ev_ok(1) [OF ok r(2)]) simp
  have id: "drop_ev False False ?c = ?c" by (simp add: drop_ev_def sel_bits_def)
  show ?thesis
    using fd r w n triggerEvent_eq [OF ok, of evRead] triggerEvent_eq [OF ok', of evWrite]
      triggerEvent_eq [OF ok, of evWrite] dw dr id
    by (cases r; cases w)
      (simp_all add: fire_selected_def fire_event_def set_fd_def wake_def drop_ev_drop)
qed

section \<open>Sequences of operations\<close>

datatype 'cb io_op =
    IoAdd bool nat "nat \<times> FiberState" nat u32 "'cb option"
  | IoDel bool nat u32
  | IoCancel bool nat u32
  | IoCancelAll bool nat
  | IoReady bool nat u32
  | IoExpire nat nat nat

fun io_exec :: "'cb io_op \<Rightarrow> 'cb iomgr \<Rightarrow> 'cb iomgr result" where
  "io_exec (IoAdd acc sch fb fd e cb) io = bind_res (addEvent acc (Some sch) fb (int fd) e cb io) (\<lambda>(_, io'). Inr io')"
| "io_exec (IoDel acc fd e) io = bind_res (delEvent acc fd e io) (\<lambda>(_, io'). Inr io')"
| "io_exec (IoCancel acc fd e) io = bind_res (cancelEvent acc fd e io) (\<lambda>(_, io'). Inr io')"
| "io_exec (IoCancelAll acc fd) io = bind_res (cancelAll acc fd io) (\<lambda>(_, io'). Inr io')"
| "io_exec (IoReady acc fd revents) io = handle_event acc fd revents io"
| "io_exec (IoExpire me addr now) io = Inr (expire_timers me addr now io)"

definition fd_context :: "nat \<Rightarrow> 'cb iomgr \<Rightarrow> 'cb fd_ctx" where
  "fd_context fd io = (if fd < length (io_contexts io) then io_contexts io ! fd else new_FdContext fd)"

text \<open>
  What the caller and the kernel owe: one waiter per descriptor and event, a running fiber when no
  callback is given, and no report of an event that is not registered.
\<close>

fun io_legal :: "'cb io_op \<Rightarrow> 'cb iomgr \<Rightarrow> bool" where
  "io_legal (IoAdd acc sch fb fd e cb) io \<longleftrightarrow>
     e \<in> {evRead, evWrite} \<and> \<not> waiting e (fd_context fd io) \<and> (cb \<noteq> None \<or> snd fb = Execute)"
| "io_legal (IoDel acc fd e) io \<longleftrightarrow> e \<in> {evRead, evWrite}"
| "io_legal (IoCancel acc fd e) io \<longleftrightarrow> e \<in> {evRead, evWrite}"
| "io_legal (IoCancelAll acc fd) io \<longleftrightarrow> True"
| "io_legal (IoReady acc fd revents) io \<longleftrightarrow> fd < length (io_contexts io) \<and>
     (\<forall>e \<in> {evRead, evWrite}. real_events revents (io_contexts io ! fd) AND e \<noteq> 0 \<longrightarrow> waiting e (io_contexts io ! fd))"
| "io_legal (IoExpire me addr now) io \<longleftrightarrow> True"

text \<open>What an operation registers or schedules anew, and what it removes for good.\<close>

fun io_added :: "'cb io_op \<Rightarrow> 'cb iomgr \<Rightarrow> (nat \<times> 'cb task) multiset" where
  "io_added (IoAdd acc sch fb fd e cb) io =
     (if acc then {# (sch, \<lparr> ft_fiber = (if cb = None then Some (fst fb) else None), ft_callback = cb, ft_thread = -1 \<rparr>) #}
      else {#})"
| "io_added (IoExpire me addr now) io =
     mset (map (\<lambda>cb. (me, \<lparr> ft_fiber = None, ft_callback = cb, ft_thread = -1 \<rparr>)) (fst (listExpiredCb addr now (io_timers io))))"
| "io_added _ io = {#}"

fun io_removed :: "'cb io_op \<Rightarrow> 'cb iomgr \<Rightarrow> (nat \<times> 'cb task) multiset" where
  "io_removed (IoDel acc fd e) io =
     (if acc \<and> fd < length (io_contexts io) \<and> waiting e (io_contexts io ! fd)
      then mset (wake (e = evRead) (e = evWrite) (io_contexts io ! fd)) else {#})"
| "io_removed _ io = {#}"

definition io_balance :: "'cb io_op \<Rightarrow> 'cb iomgr \<Rightarrow> 'cb iomgr \<Rightarrow> bool" where
  "io_balance x io io' \<longleftrightarrow>
     waiters io' + mset (io_scheduled io') + io_removed x io = waiters io + mset (io_scheduled io) + io_added x io"

lemma add_ctx:
  assumes ok: "fd_ok fd c" and e: "e \<in> {evRead, evWrite}" and nw: "\<not> waiting e c"
    and y: "ev_scheduler y \<noteq> None" "(ev_fiber y = None) \<noteq> (ev_callback y = None)"
  defines "c' \<equiv> setContext e y (c\<lparr> fc_events := fc_events c OR e \<rparr>)"
  shows "fd_ok fd c' \<and> mset (fd_waiters c') = mset (fd_waiters c) + {# waiter y #} \<and>
    fc_events c' = fc_events c OR e \<and> fc_events c OR e \<noteq> 0"
proof -
  consider "e = evRead" "fc_events c = 0" | "e = evRead" "fc_events c = 4" | "e = evWrite" "fc_events c = 0"
    | "e = evWrite" "fc_events c = 1"
    using e nw by (cases rule: fd_events_cases [OF ok]) (auto simp: waiting_def)
  then show ?thesis
    using ok y by cases (simp_all add: c'_def setContext_def fd_ok_def waiting_def ctx_ok_def fd_waiters_def wake_def)
qed

lemma add_step:
  assumes wf: "io_wf io" and lg: "io_legal (IoAdd acc sch fb fd e cb) io"
  shows "\<exists>io'. io_exec (IoAdd acc sch fb fd e cb) io = Inr io' \<and> io_wf io' \<and> io_balance (IoAdd acc sch fb fd e cb) io io'"
proof -
  define io1 where "io1 = (if fd < length (io_contexts io) then io
      else io\<lparr> io_contexts := contextResize (fd * 3 div 2) (io_contexts io) \<rparr>)"
  have sz: "\<not> fd < length (io_contexts io) \<Longrightarrow> length (io_contexts io) \<le> fd * 3 div 2 \<and> fd < fd * 3 div 2"
  proof -
    assume "\<not> fd < length (io_contexts io)"
    moreover have "32 \<le> length (io_contexts io)" using wf by (simp add: io_wf_def)
    ultimately show ?thesis by presburger
  qed
  have wf1: "io_wf io1" "waiters io1 = waiters io" "fd < length (io_contexts io1)"
    and c: "io_contexts io1 ! fd = fd_context fd io"
    using wf sz io_wf_resize [OF wf, of "fd * 3 div 2"]
    by (cases "fd < length (io_contexts io)"; simp add: io1_def fd_context_def)+
  have sch: "io_scheduled io1 = io_scheduled io" by (simp add: io1_def)
  let ?c = "io_contexts io1 ! fd"
  have ok: "fd_ok fd ?c" using wf1 by (simp add: io_wf_def)
  define y where "y = (if cb \<noteq> None
     then \<lparr> ev_scheduler = Some sch, ev_fiber = None, ev_callback = cb \<rparr>
     else \<lparr> ev_scheduler = Some sch, ev_fiber = Some (fst fb), ev_callback = None \<rparr>)"
  define c' where "c' = setContext e y (?c\<lparr> fc_events := fc_events ?c OR e \<rparr>)"
  have e: "e = evRead \<or> e = evWrite" and nw: "\<not> waiting e ?c" and fbok: "cb \<noteq> None \<or> snd fb = Execute"
    using lg c by auto
  have wy: "waiter y = (sch, \<lparr> ft_fiber = (if cb = None then Some (fst fb) else None), ft_callback = cb, ft_thread = -1 \<rparr>)"
    by (simp add: waiter_def y_def)
  have "ev_scheduler y \<noteq> None" "(ev_fiber y = None) \<noteq> (ev_callback y = None)" by (simp_all add: y_def)
  then have c': "fd_ok fd c'" "mset (fd_waiters c') = mset (fd_waiters ?c) + {# waiter y #}"
    "fc_events c' = fc_events ?c OR e" "fc_events ?c OR e \<noteq> 0"
    using add_ctx [OF ok _ nw, of y] e by (simp_all add: c'_def)
  have len: "length (fd_waiters c') = length (fd_waiters ?c) + 1"
    using c'(2) by (metis size_mset size_single size_union)
  let ?op = "if fc_events ?c \<noteq> 0 then EPOLL_CTL_MOD else EPOLL_CTL_ADD"
  let ?io = "io1\<lparr> io_pending := io_pending io1 + 1, io_contexts := (io_contexts io1)[fd := c'],
     io_ctl := io_ctl io1 @ [(?op, fd, EPOLLET OR fc_events ?c OR e)], io_scheduled := io_scheduled io1 \<rparr>"
  have run: "addEvent acc (Some sch) fb (int fd) e cb io = (if acc then Inr (0, ?io) else Inr (-1, io1))"
  proof -
    have g: "getContext e (?c\<lparr> fc_events := fc_events ?c OR e \<rparr>) = Inr no_ctx"
      using e ok nw by (auto simp: getContext_def fd_ok_def ctx_ok_def)
    show ?thesis
      unfolding addEvent_def Let_def io1_def [symmetric] nat_int
      using wf1(3) nw g fbok
      by (cases cb; simp add: waiting_def no_ctx_def set_fd_def log_ctl_def y_def c'_def)
  qed
  have "io_wf ?io"
  proof (rule io_wf_upd [OF wf1(1,3) c'(1)])
    show "?op = (if fc_events c' = 0 then EPOLL_CTL_DEL else if fc_events ?c = 0 then EPOLL_CTL_ADD else EPOLL_CTL_MOD)"
      using c'(3,4) by simp
    show "fc_events c' \<noteq> 0 \<longrightarrow> EPOLLET OR fc_events ?c OR e = EPOLLET OR fc_events c'"
      using c'(3) by (simp add: or.assoc)
    show "fc_events c' = 0 \<longrightarrow> fc_events ?c \<noteq> 0" using c'(3,4) by simp
  qed (use len in simp)
  moreover have "waiters ?io + mset (fd_waiters ?c) = waiters io1 + mset (fd_waiters c')"
    using waiters_upd [OF wf1(3), of c'] by (simp add: waiters_def)
  then have "waiters ?io = waiters io + {# waiter y #}" using c'(2) wf1(2) by (simp add: ac_simps)
  ultimately have add: "io_wf ?io" "waiters ?io = waiters io + {# waiter y #}" by blast+
  show ?thesis
  proof (cases acc)
    case True
    have "io_balance (IoAdd acc sch fb fd e cb) io ?io" using True add(2) wy sch by (simp add: io_balance_def)
    then show ?thesis using True run add(1) by simp
  next
    case False
    have "io_balance (IoAdd acc sch fb fd e cb) io io1" using False wf1(2) sch by (simp add: io_balance_def)
    then show ?thesis using False run wf1(1) by simp
  qed
qed

lemma drop_events: "fc_events (drop_ev r w c) = fc_events c AND NOT (sel_bits r w)"
  by (simp add: drop_ev_def)

lemma wake_le: "r \<longrightarrow> waiting evRead c \<Longrightarrow> w \<longrightarrow> waiting evWrite c \<Longrightarrow> length (wake r w c) \<le> length (fd_waiters c)"
  by (auto simp: wake_def fd_waiters_def)

text \<open>A step that wakes the waiters \<open>r\<close>, \<open>w\<close> of a descriptor.\<close>

lemma wake_step:
  assumes wf: "io_wf io" and fd: "fd < length (io_contexts io)"
    and sel: "r \<longrightarrow> waiting evRead (io_contexts io ! fd)" "w \<longrightarrow> waiting evWrite (io_contexts io ! fd)" "r \<or> w"
    and s: "sel evRead (io_contexts io ! fd) = r" "sel evWrite (drop_ev r False (io_contexts io ! fd)) = w"
    and ev: "fc_events (drop_ev r w (io_contexts io ! fd)) \<noteq> 0 \<longrightarrow> ev = EPOLLET OR fc_events (drop_ev r w (io_contexts io ! fd))"
    and op: "op = (if fc_events (drop_ev r w (io_contexts io ! fd)) \<noteq> 0 then EPOLL_CTL_MOD else EPOLL_CTL_DEL)"
  shows "\<exists>io'. fire_selected sel fd (log_ctl op fd ev io) = Inr io' \<and> io_wf io' \<and>
    waiters io' + mset (io_scheduled io') = waiters io + mset (io_scheduled io) \<and>
    io_contexts io' = (io_contexts io)[fd := drop_ev r w (io_contexts io ! fd)] \<and>
    io_scheduled io' = io_scheduled io @ wake r w (io_contexts io ! fd)"
proof -
  let ?c = "io_contexts io ! fd"
  have ok: "fd_ok fd ?c" using wf fd by (simp add: io_wf_def)
  have n: "length (wake r w ?c) \<le> io_pending io"
    using wake_le [OF sel(1,2)] waiter_pending [OF wf fd] by simp
  let ?io = "io\<lparr> io_pending := io_pending io - length (wake r w ?c),
    io_contexts := (io_contexts io)[fd := drop_ev r w ?c], io_ctl := io_ctl io @ [(op, fd, ev)],
    io_scheduled := io_scheduled io @ wake r w ?c \<rparr>"
  have "fire_selected sel fd (log_ctl op fd ev io) = Inr ?io"
    using fire_selected_eq [of fd "log_ctl op fd ev io" sel r w] fd ok s sel n by (simp add: log_ctl_def)
  moreover note io_drop [OF wf fd sel ev op, of "io_scheduled io @ wake r w ?c"]
  moreover from this(2) have "waiters ?io + mset (io_scheduled ?io) = waiters io + mset (io_scheduled io)"
    by (simp add: ac_simps)
  ultimately show ?thesis by (intro exI [of _ ?io] conjI) simp_all
qed

lemma sel_one: "e \<in> {evRead, evWrite} \<Longrightarrow> sel_bits (e = evRead) (e = evWrite) = e"
  by (auto simp: sel_bits_def)

lemma del_step:
  assumes wf: "io_wf io" and lg: "io_legal (IoDel acc fd e) io"
  shows "\<exists>io'. io_exec (IoDel acc fd e) io = Inr io' \<and> io_wf io' \<and> io_balance (IoDel acc fd e) io io'"
proof (cases "acc \<and> fd < length (io_contexts io) \<and> waiting e (io_contexts io ! fd)")
  case True
  let ?c = "io_contexts io ! fd" and ?r = "e = evRead" and ?w = "e = evWrite"
  have e: "e \<in> {evRead, evWrite}" using lg by simp
  have d: "drop_ev ?r ?w ?c = resetContext e (?c\<lparr> fc_events := fc_events ?c AND NOT e \<rparr>)"
    using e by (auto simp: drop_ev_def sel_bits_def resetContext_def setContext_def)
  have g: "\<exists>x. getContext e ?c = Inr x" using e by (auto simp: getContext_def)
  have n: "length (wake ?r ?w ?c) = 1" using e by (auto simp: wake_def)
  have p: "0 < io_pending io"
    using waiter_pending [of io fd] wf True wake_le [of ?r ?c ?w] n by (cases "io_pending io") auto
  let ?op = "if fc_events (drop_ev ?r ?w ?c) \<noteq> 0 then EPOLL_CTL_MOD else EPOLL_CTL_DEL"
  let ?io = "io\<lparr> io_pending := io_pending io - length (wake ?r ?w ?c),
    io_contexts := (io_contexts io)[fd := drop_ev ?r ?w ?c],
    io_ctl := io_ctl io @ [(?op, fd, EPOLLET OR fc_events (drop_ev ?r ?w ?c))], io_scheduled := io_scheduled io \<rparr>"
  have ev: "fc_events (drop_ev ?r ?w ?c) = fc_events ?c AND NOT e" by (simp add: drop_events sel_one [OF e])
  have fd: "fd < length (io_contexts io)" and w: "waiting e ?c" and acc: acc using True by simp_all
  have rw: "?r \<longrightarrow> waiting evRead ?c" "?w \<longrightarrow> waiting evWrite ?c" "?r \<or> ?w" using w e by auto
  have drop: "io_wf ?io" "waiters ?io + mset (wake ?r ?w ?c) = waiters io"
    by (rule io_drop [OF wf fd rw], simp, rule refl)+
  have "usub64 (io_pending io) 1 = io_pending io - length (wake ?r ?w ?c)" using p n by simp
  then have "delEvent acc fd e io = Inr (True, ?io)"
    using fd w acc g ev by (auto simp: delEvent_def Let_def d [symmetric] waiting_def set_fd_def log_ctl_def)
  moreover have "io_balance (IoDel acc fd e) io ?io"
    using drop(2) fd w acc by (simp add: io_balance_def ac_simps)
  ultimately show ?thesis using drop(1) by simp
next
  case False
  then have "delEvent acc fd e io = Inr (False, io)" by (auto simp: delEvent_def waiting_def Let_def)
  then show ?thesis using wf False by (auto simp: io_balance_def)
qed

lemma cancel_step:
  assumes wf: "io_wf io" and lg: "io_legal (IoCancel acc fd e) io"
  shows "\<exists>io'. io_exec (IoCancel acc fd e) io = Inr io' \<and> io_wf io' \<and> io_balance (IoCancel acc fd e) io io'"
proof (cases "acc \<and> fd < length (io_contexts io) \<and> waiting e (io_contexts io ! fd)")
  case True
  let ?c = "io_contexts io ! fd" and ?r = "e = evRead" and ?w = "e = evWrite"
  have e: "e \<in> {evRead, evWrite}" using lg by simp
  let ?ev = "fc_events (drop_ev ?r ?w ?c)"
  let ?op = "if ?ev \<noteq> 0 then EPOLL_CTL_MOD else EPOLL_CTL_DEL"
  have fs: "fire_event e fd io' = fire_selected (\<lambda>x _. x = e) fd io'" for io' :: "'a iomgr"
    using e by (auto simp: fire_selected_def)
  have ev: "?ev = fc_events ?c AND NOT e" by (simp add: drop_events sel_one [OF e])
  have fd: "fd < length (io_contexts io)" and w: "waiting e ?c" and acc: acc using True by simp_all
  have rw: "?r \<longrightarrow> waiting evRead ?c" "?w \<longrightarrow> waiting evWrite ?c" "?r \<or> ?w" using w e by auto
  obtain io' where io': "fire_selected (\<lambda>x _. x = e) fd (log_ctl ?op fd (EPOLLET OR ?ev) io) = Inr io'" "io_wf io'"
    "waiters io' + mset (io_scheduled io') = waiters io + mset (io_scheduled io)"
    using wake_step [OF wf fd rw, where sel = "\<lambda>x _. x = e" and ev = "EPOLLET OR ?ev" and op = ?op] by auto
  have "cancelEvent acc fd e io = Inr (True, io')"
    using fd w acc io'(1) fs by (simp add: cancelEvent_def waiting_def ev [symmetric])
  then show ?thesis using io'(2,3) by (simp add: io_balance_def)
next
  case False
  then have "cancelEvent acc fd e io = Inr (False, io)" by (auto simp: cancelEvent_def waiting_def Let_def)
  then show ?thesis using wf False by (auto simp: io_balance_def)
qed

lemma cancelAll_step:
  assumes wf: "io_wf io"
  shows "\<exists>io'. io_exec (IoCancelAll acc fd) io = Inr io' \<and> io_wf io' \<and> io_balance (IoCancelAll acc fd) io io'"
proof (cases "acc \<and> fd < length (io_contexts io) \<and> fc_events (io_contexts io ! fd) \<noteq> 0")
  case True
  let ?c = "io_contexts io ! fd" and ?r = "waiting evRead (io_contexts io ! fd)" and ?w = "waiting evWrite (io_contexts io ! fd)"
  have fd: "fd < length (io_contexts io)" and nz: "fc_events ?c \<noteq> 0" and acc: acc using True by simp_all
  have ok: "fd_ok fd ?c" using wf fd by (simp add: io_wf_def)
  have rw: "?r \<or> ?w" and z: "fc_events (drop_ev ?r ?w ?c) = 0"
    and sw: "(fc_events (drop_ev ?r False ?c) AND evWrite \<noteq> 0) = ?w"
    using nz by (cases rule: fd_events_cases [OF ok]; simp add: waiting_def drop_ev_def sel_bits_def)+
  obtain io' where io': "fire_selected (\<lambda>e c. fc_events c AND e \<noteq> 0) fd (log_ctl EPOLL_CTL_DEL fd 0 io) = Inr io'" "io_wf io'"
    "waiters io' + mset (io_scheduled io') = waiters io + mset (io_scheduled io)"
    "io_contexts io' = (io_contexts io)[fd := drop_ev ?r ?w ?c]"
  proof -
    have "\<exists>io'. fire_selected (\<lambda>e c. fc_events c AND e \<noteq> 0) fd (log_ctl EPOLL_CTL_DEL fd 0 io) = Inr io' \<and> io_wf io' \<and>
      waiters io' + mset (io_scheduled io') = waiters io + mset (io_scheduled io) \<and>
      io_contexts io' = (io_contexts io)[fd := drop_ev ?r ?w ?c] \<and>
      io_scheduled io' = io_scheduled io @ wake ?r ?w ?c"
    proof (rule wake_step [OF wf fd, where r = ?r and w = ?w])
      show "(fc_events ?c AND evRead \<noteq> 0) = ?r" by (simp add: waiting_def)
      show "(fc_events (drop_ev ?r False ?c) AND evWrite \<noteq> 0) = ?w" by (rule sw)
      show "?r \<or> ?w" by (rule rw)
    qed (simp_all add: z)
    then show ?thesis using that by blast
  qed
  have "cancelAll acc fd io = Inr (True, io')"
    using fd nz acc io'(1,4) z by (simp add: cancelAll_def)
  then show ?thesis using io'(2,3) by (simp add: io_balance_def)
next
  case False
  then have "cancelAll acc fd io = Inr (False, io)" by (auto simp: cancelAll_def)
  then show ?thesis using wf False by (auto simp: io_balance_def)
qed

lemma real_events_bits:
  "real_events revents c = sel_bits (real_events revents c AND evRead \<noteq> 0) (real_events revents c AND evWrite \<noteq> 0)"
  by (simp add: real_events_def sel_bits_def Let_def)

text \<open>A reported event wakes exactly the waiters it is for.\<close>

lemma handle_event_wakes:
  assumes wf: "io_wf io" and lg: "io_legal (IoReady acc fd revents) io"
  defines "r \<equiv> real_events revents (io_contexts io ! fd) AND evRead \<noteq> 0"
    and "w \<equiv> real_events revents (io_contexts io ! fd) AND evWrite \<noteq> 0"
  shows "\<exists>io'. handle_event acc fd revents io = Inr io' \<and> io_wf io' \<and>
    waiters io' + mset (io_scheduled io') = waiters io + mset (io_scheduled io) \<and>
    io_scheduled io' = io_scheduled io @ (if acc then wake r w (io_contexts io ! fd) else [])"
proof -
  let ?c = "io_contexts io ! fd" and ?real = "real_events revents (io_contexts io ! fd)"
  have fd: "fd < length (io_contexts io)" and rw: "r \<longrightarrow> waiting evRead ?c" "w \<longrightarrow> waiting evWrite ?c"
    using lg by (auto simp: r_def w_def)
  have ok: "fd_ok fd ?c" using wf fd by (simp add: io_wf_def)
  have real: "?real = sel_bits r w" unfolding r_def w_def by (rule real_events_bits)
  have none: "fc_events ?c AND ?real = 0 \<longleftrightarrow> \<not> (r \<or> w)"
    using rw unfolding real
    by (cases rule: fd_events_cases [OF ok]; cases r; cases w) (simp_all add: waiting_def sel_bits_def)
  show ?thesis
  proof (cases "acc \<and> (r \<or> w)")
    case True
    let ?ev = "fc_events (drop_ev r w ?c)"
    let ?op = "if ?ev \<noteq> 0 then EPOLL_CTL_MOD else EPOLL_CTL_DEL"
    have ev: "?ev = fc_events ?c AND NOT ?real" by (simp add: drop_events real)
    have rw': "r \<or> w" using True by simp
    obtain io' where io': "fire_selected (\<lambda>e _. ?real AND e \<noteq> 0) fd (log_ctl ?op fd (EPOLLET OR ?ev) io) = Inr io'" "io_wf io'"
      "waiters io' + mset (io_scheduled io') = waiters io + mset (io_scheduled io)"
      "io_scheduled io' = io_scheduled io @ wake r w ?c"
      using wake_step [OF wf fd rw rw', where sel = "\<lambda>e _. ?real AND e \<noteq> 0" and ev = "EPOLLET OR ?ev" and op = ?op]
      by (auto simp: r_def w_def)
    have "handle_event acc fd revents io = Inr io'"
      using fd True none io'(1) by (simp add: handle_event_def Let_def ev [symmetric])
    then show ?thesis using io' True by auto
  next
    case False
    then have "handle_event acc fd revents io = Inr io"
      using fd none by (auto simp: handle_event_def Let_def)
    then show ?thesis using wf False by (auto simp: wake_def)
  qed
qed

lemma expire_step:
  assumes wf: "io_wf io"
  shows "io_wf (expire_timers me addr now io)" "io_balance (IoExpire me addr now) io (expire_timers me addr now io)"
  using wf
  by (simp_all add: expire_timers_def case_prod_beta Let_def io_wf_def waiters_def wanted_def io_balance_def fun_eq_iff
      del: mset_map)

lemma io_step:
  assumes wf: "io_wf io" and lg: "io_legal x io"
  shows "\<exists>io'. io_exec x io = Inr io' \<and> io_wf io' \<and> io_balance x io io'"
proof (cases x)
  case (IoAdd acc sch fb fd e cb)
  then show ?thesis using add_step [OF wf] lg by simp
next
  case (IoDel acc fd e)
  then show ?thesis using del_step [OF wf] lg by simp
next
  case (IoCancel acc fd e)
  then show ?thesis using cancel_step [OF wf] lg by simp
next
  case (IoCancelAll acc fd)
  then show ?thesis using cancelAll_step [OF wf] by simp
next
  case (IoReady acc fd revents)
  then show ?thesis using handle_event_wakes [OF wf, of acc fd revents] lg by (auto simp: io_balance_def)
next
  case (IoExpire me addr now)
  then show ?thesis using expire_step [OF wf] by simp
qed

fun io_run :: "'cb io_op list \<Rightarrow> 'cb iomgr \<Rightarrow> 'cb iomgr result" where
  "io_run [] io = Inr io"
| "io_run (x # xs) io = bind_res (io_exec x io) (io_run xs)"

fun io_legal_run :: "'cb io_op list \<Rightarrow> 'cb iomgr \<Rightarrow> bool" where
  "io_legal_run [] io = True"
| "io_legal_run (x # xs) io \<longleftrightarrow> io_legal x io \<and>
     (case io_exec x io of Inl e \<Rightarrow> False | Inr io' \<Rightarrow> io_legal_run xs io')"

text \<open>Totals over a run.\<close>

fun io_total :: "('cb io_op \<Rightarrow> 'cb iomgr \<Rightarrow> (nat \<times> 'cb task) multiset) \<Rightarrow> 'cb io_op list \<Rightarrow> 'cb iomgr
    \<Rightarrow> (nat \<times> 'cb task) multiset" where
  "io_total f [] io = {#}"
| "io_total f (x # xs) io = f x io + (case io_exec x io of Inl e \<Rightarrow> {#} | Inr io' \<Rightarrow> io_total f xs io')"

lemma io_run_ok:
  assumes "io_wf io" "io_legal_run xs io"
  shows "\<exists>io'. io_run xs io = Inr io' \<and> io_wf io' \<and>
    waiters io' + mset (io_scheduled io') + io_total io_removed xs io
      = waiters io + mset (io_scheduled io) + io_total io_added xs io"
  using assms
proof (induction xs arbitrary: io)
  case (Cons x xs)
  have "io_legal x io" using Cons.prems(2) by simp
  then obtain io1 where io1: "io_exec x io = Inr io1" "io_wf io1" "io_balance x io io1"
    using io_step [OF Cons.prems(1)] by blast
  have "io_legal_run xs io1" using Cons.prems(2) io1(1) by simp
  then obtain io' where io': "io_run xs io1 = Inr io'" "io_wf io'"
    "waiters io' + mset (io_scheduled io') + io_total io_removed xs io1
      = waiters io1 + mset (io_scheduled io1) + io_total io_added xs io1"
    using Cons.IH [OF io1(2)] by blast
  have "waiters io' + mset (io_scheduled io') + io_total io_removed (x # xs) io
      = waiters io + mset (io_scheduled io) + io_total io_added (x # xs) io"
    using io1(1,3) io'(3) unfolding io_balance_def by (simp add: ac_simps)
  then show ?case using io1(1) io'(1,2) by simp
qed simp

section \<open>Properties\<close>





text \<open>
  The delay of \<open>epoll_wait\<close> is the time to the next timer, at most three seconds, as long as
  that time is below \<open>2 ^ 31\<close> ms; the cast to \<open>int\<close> makes it negative, which means no time limit,
  from \<open>2 ^ 31\<close> to \<open>2 ^ 32 - 1\<close> ms.
\<close>

theorem epoll_timeout_clamped:
  "(n < 2 ^ 31 \<longrightarrow> epoll_timeout n = min (int n) 3000) \<and> epoll_timeout (2 ^ 64 - 1) = 3000 \<and>
   (2 ^ 31 \<le> n \<and> n < 2 ^ 32 \<longrightarrow> epoll_timeout n < 0)"
proof -
  have s: "sint (of_nat n :: u32) = (if n < 2 ^ 31 then int n else int n - 2 ^ 32)" if n: "n < 2 ^ 32"
  proof -
    have u: "uint (of_nat n :: u32) = int n" using n by (simp add: unsigned_of_nat take_bit_nat_eq_self)
    have "int n div 2147483648 = 1" if "2147483648 \<le> n"
      using n that by (intro int_div_pos_eq [of _ _ _ "int n - 2147483648"]) auto
    then show ?thesis
      using n unfolding sint_uint u
      by (auto simp: signed_take_bit_eq_take_bit_minus take_bit_int_eq_self bit_int_def)
  qed
  show ?thesis
    using s by (auto simp: epoll_timeout_def MAX_TIMEOUT_def min_def)
qed

theorem epoll_timeout_clamped_witness:
  "epoll_timeout 1500 = 1500 \<and> epoll_timeout 10000 = 3000 \<and> epoll_timeout 3000000000 < 0"
  using epoll_timeout_clamped [of 1500] epoll_timeout_clamped [of 10000] epoll_timeout_clamped [of 3000000000]
  by simp

text \<open>
  A report that names an event which was deleted between \<open>epoll_wait\<close> and the handling of the
  report, while the other event of the descriptor is still registered, runs into the assertion of
  \<open>triggerEvent\<close>: the loop triggers every reported event, not only the registered ones.
\<close>

theorem stale_report_asserts:
  assumes "io_wf io" "fd < length (io_contexts io)"
    and "fc_events (io_contexts io ! fd) = evWrite" "revents = EPOLLIN OR EPOLLOUT"
  shows "handle_event True fd revents io = Inl AssertFailed"
  using assms
  by (simp add: handle_event_def real_events_def Let_def fire_selected_def fire_event_def triggerEvent_def log_ctl_def)

lemma stale_demo:
  "\<exists>io. io_exec (IoAdd True 0 (7, Execute) 3 evWrite None) (new_IOManager 0 :: string iomgr) = Inr io \<and> io_wf io \<and>
     3 < length (io_contexts io) \<and> fc_events (io_contexts io ! 3) = evWrite"
proof -
  have lg: "io_legal (IoAdd True 0 (7, Execute) 3 evWrite None) (new_IOManager 0 :: string iomgr)"
    by (simp add: fd_context_def waiting_def new_IOManager_def contextResize_def new_FdContext_def)
  obtain io where io: "io_exec (IoAdd True 0 (7, Execute) 3 evWrite None) (new_IOManager 0 :: string iomgr) = Inr io" "io_wf io"
    using io_step [OF io_wf_new lg] by blast
  moreover have "3 < length (io_contexts io) \<and> fc_events (io_contexts io ! 3) = evWrite"
    using io(1)
    by (auto simp: addEvent_def new_IOManager_def contextResize_def new_FdContext_def getContext_def no_ctx_def
        set_fd_def log_ctl_def setContext_def Let_def)
  ultimately show ?thesis by blast
qed

theorem stale_report_asserts_witness:
  "\<exists>io :: string iomgr. handle_event True 3 (EPOLLIN OR EPOLLOUT) io = Inl AssertFailed"
  using stale_demo stale_report_asserts by blast

lemma ready_appends:
  assumes "io_wf io" "io_legal_run (map (\<lambda>(a, fd, r). IoReady a fd r) es) io"
  shows "\<exists>io' woken. handle_events es io = Inr io' \<and> io_wf io' \<and> io_timers io' = io_timers io \<and>
    io_scheduled io' = io_scheduled io @ woken \<and> waiters io = waiters io' + mset woken"
  using assms
proof (induction es arbitrary: io)
  case (Cons e es)
  obtain a fd r where e: "e = (a, fd, r)" by (cases e) auto
  have lg: "io_legal (IoReady a fd r) io" using Cons.prems(2) e by simp
  obtain io1 w1 where io1: "handle_event a fd r io = Inr io1" "io_wf io1" "io_scheduled io1 = io_scheduled io @ w1"
    "waiters io1 + mset (io_scheduled io1) = waiters io + mset (io_scheduled io)"
    using handle_event_wakes [OF Cons.prems(1) lg] by blast
  have t1: "io_timers io1 = io_timers io"
    using io1(1)
    by (auto simp: handle_event_def fire_selected_def fire_event_def set_fd_def log_ctl_def Let_def
        split: if_splits)
  have "io_legal_run (map (\<lambda>(a, fd, r). IoReady a fd r) es) io1" using Cons.prems(2) e io1(1) by simp
  then obtain io' w where io': "handle_events es io1 = Inr io'" "io_wf io'" "io_timers io' = io_timers io1"
    "io_scheduled io' = io_scheduled io1 @ w" "waiters io1 = waiters io' + mset w"
    using Cons.IH [OF io1(2)] by blast
  have "io_scheduled io' = io_scheduled io @ (w1 @ w)" using io'(4) io1(3) by simp
  moreover have "waiters io = waiters io' + mset (w1 @ w)" using io'(5) io1(3,4) by (simp add: ac_simps)
  ultimately show ?case using io1(1) io'(1-3) t1 e by auto
qed simp


definition io_demo :: "string iomgr" where
  "io_demo = (new_IOManager 100)\<lparr> io_timers := timer_demo \<rparr>"


end
