(* ===== verification/Spec2Isabelle.thy ===== *)
theory Spec2Isabelle
  imports HttpClient Servlet Rock Bitmap HashUtil NameService LoadBalance ShardedCache IOManager
begin

text \<open>
  A verification development for the azzato server framework, a C++ library of coroutines,
  schedulers, sockets, protocol codecs, caches and registries. Paths below are under \<open>src/\<close>.

  \<^bold>\<open>Parts and how they interact.\<close> A fiber runs a callback on its own stack. A scheduler hands queued
  fibers and callbacks to worker threads; its event loop, the I/O manager, wakes fibers on descriptor
  events and on the timers of the timer manager it extends. Streams transfer exact lengths over
  sockets, to and from a chunked byte buffer, the byte array. On such a stream the HTTP session and
  connection exchange messages, printed by their dump and read by an incremental parser; the WebSocket
  session frames messages on it after its handshake. The server routes a request to a servlet, the
  client takes connections from a pool. Caches, the name service registry, the load balancer and the
  text codecs are used by the protocol layers above.

  \<^bold>\<open>Theories.\<close>
  \<^item> \<open>Prelude\<close>: fixed-width arithmetic, the result type with its error values (\<open>Inl\<close> is a raised
    exception, a failed assertion or undefined behaviour), association lists, generic lemmas.
  \<^item> \<open>ByteArray\<close>, \<open>ByteCodec\<close> (\<open>src/datastruct/bytearray.cpp\<close>, \<open>include/datastruct/bytearray.h\<close>,
    \<open>include/utils/endian.h\<close>): the list of equal chunks with position, size and capacity, raw reads
    and writes, then fixed-width integers, varints, ZigZag, strings, gather lists. Shown: the chunk
    invariant, refinement to one flat sequence of bytes with a cursor, and round trips.
  \<^item> \<open>SocketStream\<close> (\<open>src/stream.cpp\<close>, \<open>src/streams/socket_stream.cpp\<close>, part of \<open>src/socket.cpp\<close>): the
    exact-length loops over a socket whose kernel answers each call from a script, so partial
    transfers, errors and end of file occur in any order. The contract of the loops is the locale
    \<open>byte_stream\<close>, interpreted on the socket stream.
  \<^item> \<open>WebSocket\<close> (\<open>src/http/ws_session.cpp\<close>): frame heads, masking, sending, and receiving with
    fragments and ping. Shown: a sent message is received unchanged, received messages are bounded,
    and an empty message closes the session.
  \<^item> \<open>Http\<close> (\<open>src/http/http.cpp\<close>, \<open>include/http/http.h\<close>): methods, status codes, requests and responses with
    their case-insensitive maps, parameters from query, body and cookies, and the printed form. Shown:
    the maps stay sorted without duplicates, and parameters round trip.
  \<^item> \<open>HttpParser\<close> (\<open>src/http/http_parser.cpp\<close>): both parsers as state machines fed with pieces. The locale
    \<open>incremental\<close> has what a fold of a byte step gives, interpreted on the request and the response
    parser: cutting the input anywhere changes nothing. A printed request is parsed back to itself.
  \<^item> \<open>HttpSession\<close> (\<open>src/http/http_session.cpp\<close>, \<open>src/http/http_connection.cpp\<close>): receiving and sending whole
    messages over the socket stream. Shown: what one end sends the other receives, for every
    fragmentation by the kernel.
  \<^item> \<open>HttpClient\<close> (\<open>src/http/http_connection.cpp\<close>): single requests and the connection pool.
  \<^item> \<open>Servlet\<close> (\<open>src/http/servlet.cpp\<close>, \<open>src/http/session_data.cpp\<close>): the dispatcher with its exact and
    pattern routes, and the session table with its expiry.
  \<^item> \<open>Uri\<close> (\<open>src/uri.cpp\<close>): parsing and printing of URIs.
  \<^item> \<open>Rock\<close> (\<open>src/protocol.cpp\<close>, \<open>src/rock/rock_protocol.cpp\<close>): the RPC messages in a byte array and their
    frames on a socket stream. Shown: which messages arrive, and that a compressed one is never sent.
  \<^item> \<open>LruCache\<close>, \<open>TimedLruCache\<close>, \<open>TimedCache\<close>, \<open>ShardedCache\<close> (\<open>include/datastruct/*_cache.h\<close>) over
    \<open>OrderedSet\<close>, the model of \<open>std::set\<close> by a comparison: list, index and order kept consistent by
    every operation, eviction and expiry, and the sharded caches as their shards.
  \<^item> \<open>TimerManager\<close> (\<open>src/timer.cpp\<close>): timers as objects at addresses in an ordered set; no timer fires
    early, due timers all fire, recurring timers are rescheduled.
  \<^item> \<open>Fiber\<close> (\<open>src/fiber.cpp\<close>), \<open>Scheduler\<close> (\<open>src/scheduler.cpp\<close>), \<open>IOManager\<close> (\<open>src/iomanager.cpp\<close>): state
    machines. The scheduler's workers interleave in atomic steps, one for each section under the
    lock, and its invariants are by rule induction over the reachable states.
  \<^item> \<open>HashUtil\<close> (\<open>src/utils/hash_util.cpp\<close>), \<open>StringUtil\<close> (\<open>src/utils/util.cpp\<close>): hashes, Base64,
    hexadecimal and URL encodings with their round trips, splitting and joining, trimming, the
    binary search.
  \<^item> \<open>NameService\<close> (\<open>src/ns/ns_protocol.cpp\<close>): nested ordered maps, a refinement of one map from domain,
    command and address to a node.
  \<^item> \<open>Bitmap\<close> (\<open>src/datastruct/bitmap.cpp\<close>): bit sets of 14-bit words with run-length compression; the
    locale \<open>segment_pass\<close> relates a pass over runs to one over words.
  \<^item> \<open>LoadBalance\<close> (\<open>src/streams/load_balance.cpp\<close>): the item table, round robin, weighted choice,
    statistics.

  \<^bold>\<open>Conventions.\<close> A struct is a record and a method a function on it, with the updated record in its
  result; unsigned integers are words where they wrap and naturals or integers with the wrap-around
  written out elsewhere. A section under a lock is one step. The clock, random numbers, answers of
  the kernel, dialling, decompression, shell pattern matching, hash functions and user callbacks are
  arguments.

  \<^bold>\<open>Bounds and fuel.\<close> Loops are structural recursions or functions with a termination proof. The receive
  loops consume one scripted kernel answer in each round, so the number of answers left bounds them;
  where a loop of the source may run forever the result is an option and \<open>None\<close> stands for that. The
  loop over the seconds of the statistics ring carries the ring's length, as the source does.

  \<^bold>\<open>Not modelled.\<close> Kernel, pthread and OpenSSL wrappers (mutexes, threads, addresses, most of the
  socket class, cryptography), because nothing but the call is in the sources; the accept loops of the
  servers, which only start callbacks; database, ZooKeeper, YAML, JSON and XML clients; logging,
  configuration, start-up and process control; the vendored roaring bitmaps; floating-point code.
  The flat containers (arrays, dictionaries, hash maps) could be modelled in the same style and are
  not yet.
\<close>

end
